(* ===== verification/Prelude.thy ===== *)
theory Prelude
  imports Main "HOL-Library.Word" "HOL-Library.Monad_Syntax"
begin

text \<open>
  What the component theories share: the C integer conversions written out on
  \<open>nat\<close>, the abort of a failed \<open>LWIP_ASSERT\<close>, byte-addressed memory with its
  little-endian accessors, and singly linked lists followed through a \<open>next\<close>
  function.

  A failed \<open>LWIP_ASSERT\<close> prints and calls \<open>abort()\<close> (\<open>lwip/arch.h\<close>), so a
  run of an operation is a value of an \<open>option\<close> type: \<open>None\<close> is the run that
  aborts (or, for a loop, never returns), \<open>Some\<close> carries the result.  Error
  codes and NULL results that the C code returns are ordinary results.
\<close>

named_theorems mem_access \<open>reads of byte memory after a write\<close>
named_theorems word_convs \<open>C integer conversions as arithmetic on nat\<close>

type_synonym u8_t = "8 word"
type_synonym u16_t = "16 word"
type_synonym u32_t = "32 word"
type_synonym bytes = "nat \<Rightarrow> u8_t"

datatype err_t = ERR_OK | ERR_MEM | ERR_BUF | ERR_TIMEOUT | ERR_RTE | ERR_INPROGRESS | ERR_VAL | ERR_WOULDBLOCK
  | ERR_USE | ERR_ALREADY | ERR_ISCONN | ERR_CONN | ERR_IF | ERR_ABRT | ERR_RST | ERR_CLSD | ERR_ARG

section \<open>Assertions\<close>

definition lwip_assert :: "bool \<Rightarrow> unit option" where
  "lwip_assert b = (if b then Some () else None)"

lemma lwip_assert_True [simp]: "b \<Longrightarrow> lwip_assert b = Some ()"
  by (simp add: lwip_assert_def)

lemma lwip_assert_eq_Some [simp]: "lwip_assert b = Some u \<longleftrightarrow> b"
  by (simp add: lwip_assert_def)

lemma lwip_assert_bind_eq_Some [simp]:
  "lwip_assert b \<bind> f = Some x \<longleftrightarrow> b \<and> f () = Some x"
  by (simp add: lwip_assert_def)

section \<open>Conversions between C integer types\<close>

text \<open>The value of a non-negative integer after conversion to an unsigned type.\<close>

definition u8 :: "nat \<Rightarrow> nat" where "u8 n = n mod 2 ^ 8"
definition u16 :: "nat \<Rightarrow> nat" where "u16 n = n mod 2 ^ 16"
definition u32 :: "nat \<Rightarrow> nat" where "u32 n = n mod 2 ^ 32"

text \<open>Unsigned subtraction at 16 and 32 bits: it wraps around below zero.\<close>

definition sub16 :: "nat \<Rightarrow> nat \<Rightarrow> nat" where
  "sub16 a b = (a + (2 ^ 16 - b mod 2 ^ 16)) mod 2 ^ 16"
definition sub32 :: "nat \<Rightarrow> nat \<Rightarrow> nat" where
  "sub32 a b = (a + (2 ^ 32 - b mod 2 ^ 32)) mod 2 ^ 32"

lemma u8_id [word_convs]: "n < 256 \<Longrightarrow> u8 n = n"
  and u16_id [word_convs]: "n < 65536 \<Longrightarrow> u16 n = n"
  and u32_id [word_convs]: "n < 4294967296 \<Longrightarrow> u32 n = n"
  by (simp_all add: u8_def u16_def u32_def)

lemma u16_less [simp]: "u16 n < 65536"
  by (simp add: u16_def)

lemma sub16_id [word_convs]: "b \<le> a \<Longrightarrow> a < 65536 \<Longrightarrow> sub16 a b = a - b"
proof -
  assume a: "b \<le> a" "a < 65536"
  then have "a + 65536 - b = (a - b) + 65536" by arith
  then have "(a + 65536 - b) mod 65536 = (a - b) mod 65536" by (simp only: mod_add_self2)
  with a show ?thesis by (simp add: sub16_def)
qed

lemma sub32_id [word_convs]: "b \<le> a \<Longrightarrow> a < 4294967296 \<Longrightarrow> sub32 a b = a - b"
proof -
  assume a: "b \<le> a" "a < 4294967296"
  then have "a + 4294967296 - b = (a - b) + 4294967296" by arith
  then have "(a + 4294967296 - b) mod 4294967296 = (a - b) mod 4294967296" by (simp only: mod_add_self2)
  with a show ?thesis by (simp add: sub32_def)
qed

section \<open>Byte-addressed memory\<close>

definition get_u16 :: "bytes \<Rightarrow> nat \<Rightarrow> nat" where
  "get_u16 m a = unat (m a) + 256 * unat (m (a + 1))"

definition put_u16 :: "bytes \<Rightarrow> nat \<Rightarrow> nat \<Rightarrow> bytes" where
  "put_u16 m a v = m(a := of_nat v, a + 1 := of_nat (v div 256))"

lemma unat_of_nat_u8 [simp]: "unat (of_nat n :: u8_t) = n mod 256"
  by (simp add: unat_of_nat)

lemma get_u16_less [simp]: "get_u16 m a < 65536"
proof -
  have "unat (m a) < 256" "unat (m (a + 1)) < 256"
    using unsigned_less [of "m a"] unsigned_less [of "m (a + 1)"] by simp_all
  then show ?thesis by (simp add: get_u16_def)
qed

lemma get_put_u16_same [mem_access]: "get_u16 (put_u16 m a v) a = u16 v"
proof -
  have "v mod 256 + 256 * (v div 256 mod 256) = v mod (256 * 256)"
    by (simp only: mod_mult2_eq)
  then show ?thesis by (simp add: get_u16_def put_u16_def u16_def)
qed

lemma get_put_u16_other [mem_access]:
  "a + 2 \<le> b \<or> b + 2 \<le> a \<Longrightarrow> get_u16 (put_u16 m a v) b = get_u16 m b"
  by (auto simp: get_u16_def put_u16_def)

lemma put_u16_outside [mem_access]:
  "b < a \<or> a + 2 \<le> b \<Longrightarrow> put_u16 m a v b = m b"
  by (auto simp: put_u16_def)

lemma get_u16_upd [mem_access]:
  "b < a \<or> a + 2 \<le> b \<Longrightarrow> get_u16 (m(b := w)) a = get_u16 m a"
  by (auto simp: get_u16_def)

section \<open>Linked lists\<close>

text \<open>\<open>chain nx p xs\<close>: following \<open>nx\<close> from the pointer \<open>p\<close> visits exactly the
  nodes \<open>xs\<close> and then meets NULL.\<close>

primrec chain :: "('a \<Rightarrow> 'a option) \<Rightarrow> 'a option \<Rightarrow> 'a list \<Rightarrow> bool" where
  "chain nx p [] \<longleftrightarrow> p = None"
| "chain nx p (x # xs) \<longleftrightarrow> p = Some x \<and> chain nx (nx x) xs"

lemma chain_None [simp]: "chain nx None xs \<longleftrightarrow> xs = []"
  by (cases xs) auto

lemma chain_Some: "chain nx (Some p) xs \<longleftrightarrow> (\<exists>ys. xs = p # ys \<and> chain nx (nx p) ys)"
  by (cases xs) auto

lemma chain_cong: "(\<And>x. x \<in> set xs \<Longrightarrow> nx x = nx' x) \<Longrightarrow> chain nx p xs = chain nx' p xs"
  by (induction xs arbitrary: p) auto

lemma chain_upd [simp]: "a \<notin> set xs \<Longrightarrow> chain (nx(a := q)) p xs = chain nx p xs"
  by (rule chain_cong) auto

lemma chain_unique: "chain nx p xs \<Longrightarrow> chain nx p ys \<Longrightarrow> xs = ys"
  by (induction xs arbitrary: p ys) (auto simp: chain_Some)

lemma chain_suffix: "chain nx p (xs @ y # ys) \<Longrightarrow> chain nx (Some y) (y # ys)"
  by (induction xs arbitrary: p) auto

lemma chain_distinct: "chain nx p xs \<Longrightarrow> distinct xs"
proof (induction xs arbitrary: p)
  case (Cons x xs)
  then have rest: "chain nx (nx x) xs" and dist: "distinct xs" by auto
  have "x \<notin> set xs"
  proof
    assume "x \<in> set xs"
    then obtain us vs where split: "xs = us @ x # vs" by (auto simp: in_set_conv_decomp)
    with rest have "chain nx (Some x) (x # vs)" by (blast dest: chain_suffix)
    with rest have "xs = vs" by (auto dest: chain_unique)
    with split have "length vs = length (us @ x # vs)" by simp
    then show False by simp
  qed
  with dist show ?case by simp
qed simp

lemma chain_remove:
  assumes "chain nx p (us @ t # ys)" "us \<noteq> []"
  shows "chain (nx(last us := nx t)) p (us @ ys)"
  using assms
proof (induction us arbitrary: p)
  case (Cons u us)
  have d: "distinct ((u # us) @ t # ys)" by (rule chain_distinct [OF Cons(2)])
  show ?case
  proof (cases "us = []")
    case True
    then show ?thesis using Cons(2) d chain_upd [of u ys nx "nx t" "nx t"] by (simp add: fun_upd_def)
  next
    case False
    then have "last us \<noteq> u" using d last_in_set [of us] by auto
    then show ?thesis using Cons(1) [of "nx u"] Cons(2) False by simp
  qed
qed simp

lemma chain_append_suffix: "chain nx p (us @ ys) \<Longrightarrow> us \<noteq> [] \<Longrightarrow> chain nx (nx (last us)) ys"
  by (induction us arbitrary: p) (auto split: if_splits)

section \<open>Runs of operations\<close>

text \<open>A run executes operations one after the other; it is lawful when every operation is legal
  in the state it meets.  Components instantiate \<open>stepper\<close> with their operations: then no
  lawful run aborts and the invariant holds throughout.\<close>

primrec run :: "('op \<Rightarrow> 's \<Rightarrow> 's option) \<Rightarrow> 'op list \<Rightarrow> 's \<Rightarrow> 's option" where
  "run step [] s = Some s"
| "run step (x # xs) s = step x s \<bind> run step xs"

primrec lawful :: "('op \<Rightarrow> 's \<Rightarrow> bool) \<Rightarrow> ('op \<Rightarrow> 's \<Rightarrow> 's option) \<Rightarrow> 'op list \<Rightarrow> 's \<Rightarrow> bool" where
  "lawful legal step [] s \<longleftrightarrow> True"
| "lawful legal step (x # xs) s \<longleftrightarrow>
     legal x s \<and> (case step x s of None \<Rightarrow> True | Some t \<Rightarrow> lawful legal step xs t)"

locale stepper =
  fixes inv :: "'s \<Rightarrow> bool" and legal :: "'op \<Rightarrow> 's \<Rightarrow> bool" and step :: "'op \<Rightarrow> 's \<Rightarrow> 's option"
  assumes step_ok: "inv s \<Longrightarrow> legal x s \<Longrightarrow> \<exists>t. step x s = Some t \<and> inv t"
begin

lemma run_ok: "inv s \<Longrightarrow> lawful legal step xs s \<Longrightarrow> \<exists>t. run step xs s = Some t \<and> inv t"
proof (induction xs arbitrary: s)
  case (Cons x xs)
  then obtain t where "step x s = Some t" "inv t" using step_ok [of s x] by auto
  with Cons show ?case by simp
qed simp

end

text \<open>An allocator hands out blocks of memory.  Each operation works on at most one live
  block, its \<open>owner\<close>; the others keep their size and their bytes.\<close>

locale allocator = stepper inv legal step
  for inv :: "'s \<Rightarrow> bool" and legal :: "'op \<Rightarrow> 's \<Rightarrow> bool" and step :: "'op \<Rightarrow> 's \<Rightarrow> 's option" +
  fixes live :: "'s \<Rightarrow> 'a \<Rightarrow> nat option" and byte :: "'s \<Rightarrow> 'a \<Rightarrow> nat \<Rightarrow> u8_t"
    and owner :: "'op \<Rightarrow> 'a option"
  assumes others: "inv s \<Longrightarrow> legal x s \<Longrightarrow> step x s = Some t \<Longrightarrow> owner x \<noteq> Some a \<Longrightarrow>
      live s a = Some n \<Longrightarrow> live t a = Some n \<and> (\<forall>i<n. byte t a i = byte s a i)"
begin

lemma isolation:
  assumes "inv s" "lawful legal step xs s" "live s a = Some n" "\<forall>x\<in>set xs. owner x \<noteq> Some a"
  shows "\<exists>t. run step xs s = Some t \<and> inv t \<and> live t a = Some n \<and> (\<forall>i<n. byte t a i = byte s a i)"
  using assms
proof (induction xs arbitrary: s)
  case (Cons x xs)
  then obtain t where t: "step x s = Some t" "inv t" using step_ok [of s x] by auto
  with Cons.prems others [of s x t a n] have
    "live t a = Some n" "\<forall>i<n. byte t a i = byte s a i" by auto
  with Cons.IH [of t] Cons.prems t show ?case by auto
qed simp

end

end
