(* ===== verification/Def.thy ===== *)
theory Def
  imports Prelude "HOL-Library.Signed_Division"
begin

text \<open>
  The common helpers of \<open>src/lwip/src/core/def.c\<close>: byte order conversion on a little-endian host,
  case-insensitive comparison, substring search and decimal output.  A C string is
  the list of its bytes without the terminating NUL; reading at its end yields the NUL.
\<close>

unbundle bit_operations_syntax

section \<open>Byte order\<close>

definition PP_HTONS :: "u32_t \<Rightarrow> u32_t" where
  "PP_HTONS x = push_bit 8 (x AND 0x00ff) OR drop_bit 8 (x AND 0xff00)"

definition PP_HTONL :: "u32_t \<Rightarrow> u32_t" where
  "PP_HTONL x = push_bit 24 (x AND 0x000000ff) OR push_bit 8 (x AND 0x0000ff00) OR
     drop_bit 8 (x AND 0x00ff0000) OR drop_bit 24 (x AND 0xff000000)"

definition lwip_htons :: "u16_t \<Rightarrow> u16_t" where
  "lwip_htons n = ucast (PP_HTONS (ucast n))"

definition lwip_htonl :: "u32_t \<Rightarrow> u32_t" where
  "lwip_htonl n = PP_HTONL n"

text \<open>The bytes of a word at increasing addresses on a little-endian host.\<close>

definition bytes16 :: "u16_t \<Rightarrow> u8_t list" where
  "bytes16 w = [ucast w, ucast (drop_bit 8 w)]"

definition bytes32 :: "u32_t \<Rightarrow> u8_t list" where
  "bytes32 w = [ucast w, ucast (drop_bit 8 w), ucast (drop_bit 16 w), ucast (drop_bit 24 w)]"

lemma byte_masks:
  "0xff = (mask 8 :: int)" "0xff00 = (push_bit 8 (mask 8) :: int)"
  "0xff0000 = (push_bit 16 (mask 8) :: int)" "0xff000000 = (push_bit 24 (mask 8) :: int)"
  by (simp_all add: mask_eq_exp_minus_1 push_bit_eq_mult)

lemma bit_masks:
  "bit (0xff :: int) i \<longleftrightarrow> i < 8"
  "bit (0xff00 :: int) i \<longleftrightarrow> 8 \<le> i \<and> i < 16"
  "bit (0xff0000 :: int) i \<longleftrightarrow> 16 \<le> i \<and> i < 24"
  "bit (0xff000000 :: int) i \<longleftrightarrow> 24 \<le> i \<and> i < 32"
  unfolding byte_masks by (auto simp: bit_simps)

lemma bit_HTONS: "bit (PP_HTONS w) i = (if i < 8 then bit w (8 + i) else i < 16 \<and> bit w (i - 8))"
  by (auto simp: PP_HTONS_def bit_simps bit_masks)

lemma bit_HTONL:
  "bit (PP_HTONL w) i = (if i < 8 then bit w (24 + i) else if i < 16 then bit w (8 + i)
     else if i < 24 then bit w (i - 8) else i < 32 \<and> bit w (i - 24))"
  by (auto simp: PP_HTONL_def bit_simps bit_masks)

lemma bytes16_htons: "bytes16 (lwip_htons w) = rev (bytes16 w)"
proof -
  have "(ucast (lwip_htons w) :: u8_t) = ucast (drop_bit 8 w)"
    by (rule bit_word_eqI) (auto simp: lwip_htons_def bit_simps bit_HTONS)
  moreover have "(ucast (drop_bit 8 (lwip_htons w)) :: u8_t) = ucast w"
    by (rule bit_word_eqI) (auto simp: lwip_htons_def bit_simps bit_HTONS)
  ultimately show ?thesis by (simp add: bytes16_def)
qed

lemma bytes32_htonl: "bytes32 (lwip_htonl w) = rev (bytes32 w)"
proof -
  have "(ucast (lwip_htonl w) :: u8_t) = ucast (drop_bit 24 w)"
    by (rule bit_word_eqI) (auto simp: lwip_htonl_def bit_simps bit_HTONL)
  moreover have "(ucast (drop_bit 8 (lwip_htonl w)) :: u8_t) = ucast (drop_bit 16 w)"
    by (rule bit_word_eqI) (auto simp: lwip_htonl_def bit_simps bit_HTONL)
  moreover have "(ucast (drop_bit 16 (lwip_htonl w)) :: u8_t) = ucast (drop_bit 8 w)"
    by (rule bit_word_eqI) (auto simp: lwip_htonl_def bit_simps bit_HTONL)
  moreover have "(ucast (drop_bit 24 (lwip_htonl w)) :: u8_t) = ucast w"
    by (rule bit_word_eqI) (auto simp: lwip_htonl_def bit_simps bit_HTONL)
  ultimately show ?thesis by (simp add: bytes32_def)
qed

lemma htons_htons [simp]: "lwip_htons (lwip_htons w) = w"
  by (rule bit_word_eqI) (auto simp: lwip_htons_def bit_simps bit_HTONS)

lemma htonl_htonl [simp]: "lwip_htonl (lwip_htonl w) = w"
  by (rule bit_word_eqI) (auto simp: lwip_htonl_def bit_simps bit_HTONL)

section \<open>Strings\<close>

definition chr :: "char \<Rightarrow> u8_t" where
  [simp]: "chr c = of_char c"

text \<open>Reading a C string.\<close>

definition deref :: "u8_t list \<Rightarrow> nat \<Rightarrow> u8_t" where
  "deref s i = (if i < length s then s ! i else 0)"

text \<open>\<open>strncmp(a, b, n) == 0\<close>.\<close>

fun strncmp_eq :: "u8_t list \<Rightarrow> u8_t list \<Rightarrow> nat \<Rightarrow> bool" where
  "strncmp_eq a b 0 = True"
| "strncmp_eq a b (Suc n) =
     (deref a 0 = deref b 0 \<and> (deref a 0 = 0 \<or> strncmp_eq (drop 1 a) (drop 1 b) n))"

text \<open>The loop of \<open>lwip_strnstr\<close> at \<open>p = buffer + i\<close>.\<close>

function strnstr_loop :: "u8_t list \<Rightarrow> u8_t list \<Rightarrow> nat \<Rightarrow> nat \<Rightarrow> nat option" where
  "strnstr_loop buffer token n i =
     (if deref buffer i \<noteq> 0 \<and> i + length token \<le> n then
        if deref buffer i = deref token 0 \<and> strncmp_eq (drop i buffer) token (length token) then Some i
        else strnstr_loop buffer token n (i + 1)
      else None)"
  by pat_completeness auto
termination
  by (relation "measure (\<lambda>(b, t, n, i). length b - i)") (auto simp: deref_def split: if_splits)

definition lwip_strnstr :: "u8_t list \<Rightarrow> u8_t list \<Rightarrow> nat \<Rightarrow> nat option" where
  "lwip_strnstr buffer token n = (if length token = 0 then Some 0 else strnstr_loop buffer token n 0)"

text \<open>The comparison of one pair of characters in \<open>lwip_stricmp\<close> and \<open>lwip_strnicmp\<close>: False makes
  the function return 1.\<close>

definition chars_match :: "u8_t \<Rightarrow> u8_t \<Rightarrow> bool" where
  "chars_match c1 c2 =
     (if c1 \<noteq> c2 then
        let c1_upc = c1 OR 0x20 in
        if chr CHR ''a'' \<le> c1_upc \<and> c1_upc \<le> chr CHR ''z'' then c1_upc = (c2 OR 0x20) else False
      else True)"

function lwip_stricmp :: "u8_t list \<Rightarrow> u8_t list \<Rightarrow> int" where
  "lwip_stricmp str1 str2 =
     (let c1 = deref str1 0; c2 = deref str2 0 in
      if \<not> chars_match c1 c2 then 1
      else if c1 \<noteq> 0 then lwip_stricmp (drop 1 str1) (drop 1 str2)
      else 0)"
  by pat_completeness auto
termination
  by (relation "measure (\<lambda>(a, b). length a)") (auto simp: deref_def split: if_splits)

text \<open>\<open>while (len-- && c1 != 0)\<close>: \<open>len\<close> is a \<open>size_t\<close>, tested before it is decremented.\<close>

fun lwip_strnicmp :: "u8_t list \<Rightarrow> u8_t list \<Rightarrow> nat \<Rightarrow> int" where
  "lwip_strnicmp str1 str2 len =
     (let c1 = deref str1 0; c2 = deref str2 0 in
      if \<not> chars_match c1 c2 then 1
      else case len of
        0 \<Rightarrow> 0
      | Suc l \<Rightarrow> if c1 \<noteq> 0 then lwip_strnicmp (drop 1 str1) (drop 1 str2) l else 0)"

declare strnstr_loop.simps [simp del] lwip_stricmp.simps [simp del] lwip_strnicmp.simps [simp del]

section \<open>Decimal output\<close>

definition itoa_digits :: "u8_t list" where
  "itoa_digits = map chr ''zyxwvutsrqponmlkjihgfedcba9876543210123456789abcdefghijklmnopqrstuvwxyz''"

text \<open>The loop that writes the digits, last one first; C division rounds towards zero.  It
  returns the last value of \<open>tmp_value\<close> with the buffer.\<close>

function itoa_loop :: "int \<Rightarrow> u8_t list \<Rightarrow> int \<times> u8_t list" where
  "itoa_loop number buf =
     (let tmp_value = number;
          number = number sdiv 10;
          buf = buf @ [itoa_digits ! nat (35 + (tmp_value - number * 10))]
      in if number \<noteq> 0 then itoa_loop number buf else (tmp_value, buf))"
  by pat_completeness auto
termination
  by (relation "measure (\<lambda>(n, b). nat \<bar>n\<bar>)") (auto simp: signed_divide_int_def abs_mult sgn_if)

text \<open>The loop that reverses the buffer in place between \<open>ptr1\<close> and \<open>ptr\<close>.\<close>

function swap_loop :: "nat \<Rightarrow> nat \<Rightarrow> 'a list \<Rightarrow> 'a list" where
  "swap_loop ptr1 ptr buf =
     (if ptr1 < ptr then
        let tmp = buf ! ptr;
            buf = buf[ptr := buf ! ptr1];
            buf = buf[ptr1 := tmp]
        in swap_loop (ptr1 + 1) (ptr - 1) buf
      else buf)"
  by pat_completeness auto
termination
  by (relation "measure (\<lambda>(i, j, b). j - i)") auto

declare itoa_loop.simps [simp del] swap_loop.simps [simp del]

text \<open>The string left in the buffer; the first loop writes at least one character, so the
  last one has index \<open>length buf - 1\<close>.\<close>

definition lwip_itoa :: "int \<Rightarrow> u8_t list" where
  "lwip_itoa number =
     (let (tmp_value, buf) = itoa_loop number [];
          buf = (if tmp_value < 0 then buf @ [chr CHR ''-''] else buf)
      in swap_loop 0 (length buf - 1) buf)"

section \<open>Case-insensitive comparison\<close>

definition lower :: "u8_t \<Rightarrow> u8_t" where
  "lower c = (if chr CHR ''A'' \<le> c \<and> c \<le> chr CHR ''Z'' then c + 32 else c)"

lemma u8_of_nat: "(c :: u8_t) = of_nat (unat c)" "unat c < 256"
  using unsigned_less [of c] by simp_all

lemma lower_table:
  "list_all (\<lambda>n. lower (of_nat n) =
     (if 97 \<le> (of_nat n :: u8_t) OR 32 \<and> (of_nat n :: u8_t) OR 32 \<le> 122 then of_nat n OR 32 else of_nat n)) [0..<256]"
  by code_simp

lemma lower_or:
  "lower c = (if 97 \<le> c OR 32 \<and> c OR 32 \<le> 122 then c OR 32 else c)"
proof -
  have "unat c \<in> set [0..<256]" using u8_of_nat(2) [of c] by simp
  with lower_table show ?thesis by (simp only: list_all_iff) (metis u8_of_nat(1))
qed

lemma chars_match_lower: "chars_match c1 c2 \<longleftrightarrow> lower c1 = lower c2"
proof -
  have "(c OR 32) OR 32 = c OR 32" for c :: u8_t by (simp add: or.assoc)
  then show ?thesis unfolding chars_match_def lower_or by (auto simp: Let_def split: if_splits)
qed

lemma lower_0 [simp]: "lower 0 = 0" "lower c = 0 \<longleftrightarrow> c = 0"
  by (simp_all add: lower_def eq_neg_iff_add_eq_0 [symmetric]) auto

lemma stricmp_step:
  "lwip_stricmp [] b = (if lower (deref b 0) = 0 then 0 else 1)"
  "x \<noteq> 0 \<Longrightarrow> lwip_stricmp (x # a) b = (if lower x = lower (deref b 0) then lwip_stricmp a (drop 1 b) else 1)"
  by (subst lwip_stricmp.simps, auto simp: deref_def chars_match_lower)+

lemma strnicmp_step:
  "lwip_strnicmp [] b n = (if lower (deref b 0) = 0 then 0 else 1)"
  "lwip_strnicmp (x # a) b 0 = (if lower x = lower (deref b 0) then 0 else 1)"
  "x \<noteq> 0 \<Longrightarrow> lwip_strnicmp (x # a) b (Suc n) =
     (if lower x = lower (deref b 0) then lwip_strnicmp a (drop 1 b) n else 1)"
  by (subst lwip_strnicmp.simps, auto simp: deref_def chars_match_lower split: nat.splits)+

lemma stricmp_lower:
  assumes "0 \<notin> set a" "0 \<notin> set b"
  shows "lwip_stricmp a b = 0 \<longleftrightarrow> map lower a = map lower b"
  using assms
proof (induction a arbitrary: b)
  case Nil
  then show ?case by (cases b) (auto simp: stricmp_step deref_def)
next
  case (Cons x a)
  then show ?case by (cases b) (auto simp: stricmp_step deref_def)
qed

lemma strnicmp_lower:
  assumes "0 \<notin> set a" "0 \<notin> set b"
  shows "lwip_strnicmp a b n = 0 \<longleftrightarrow> map lower (take (n + 1) a) = map lower (take (n + 1) b)"
  using assms
proof (induction a arbitrary: b n)
  case Nil
  then show ?case by (cases b) (auto simp: strnicmp_step deref_def)
next
  case (Cons x a)
  then show ?case by (cases b; cases n) (auto simp: strnicmp_step deref_def)
qed

section \<open>Substring search\<close>

lemma strncmp_eq_prefix:
  assumes "0 \<notin> set a" "0 \<notin> set b" "n = length b"
  shows "strncmp_eq a b n \<longleftrightarrow> take n a = b"
  using assms
proof (induction a b n rule: strncmp_eq.induct)
  case (2 a b n)
  then show ?case by (cases a; cases b) (auto simp: deref_def)
qed simp

definition occurs_at :: "'a list \<Rightarrow> 'a list \<Rightarrow> nat \<Rightarrow> bool" where
  "occurs_at tok buf i \<longleftrightarrow> take (length tok) (drop i buf) = tok"

lemma strnstr_loop_first:
  assumes "0 \<notin> set buf" "0 \<notin> set tok" "tok \<noteq> []"
  shows "strnstr_loop buf tok n i = (case filter (\<lambda>k. occurs_at tok buf k \<and> k + length tok \<le> n) [i..<length buf] of
    [] \<Rightarrow> None | k # _ \<Rightarrow> Some k)"
  using assms
proof (induction buf tok n i rule: strnstr_loop.induct)
  case (1 buf tok n i)
  show ?case
  proof (cases "i < length buf \<and> i + length tok \<le> n")
    case False
    then have "filter (\<lambda>k. occurs_at tok buf k \<and> k + length tok \<le> n) [i..<length buf] = []"
      by (auto simp: filter_empty_conv)
    moreover have "strnstr_loop buf tok n i = None" using False by (auto simp: strnstr_loop.simps [of buf tok n i] deref_def)
    ultimately show ?thesis by simp
  next
    case True
    have d: "deref buf i = buf ! i" "buf ! i \<noteq> 0" using True 1(2) by (auto simp: deref_def in_set_conv_nth)
    have nz: "0 \<notin> set (drop i buf)" using 1(2) by (meson in_set_dropD)
    have occ: "occurs_at tok buf i \<longleftrightarrow> deref buf i = deref tok 0 \<and> strncmp_eq (drop i buf) tok (length tok)"
      using True 1(4) strncmp_eq_prefix [OF nz 1(3) refl]
      by (auto simp: occurs_at_def deref_def Cons_nth_drop_Suc [symmetric] neq_Nil_conv)
    have "[i..<length buf] = i # [i + 1..<length buf]" using True by (simp add: upt_conv_Cons)
    then show ?thesis
      using 1 True d occ by (cases "occurs_at tok buf i") (auto simp: strnstr_loop.simps [of buf tok n i])
  qed
qed

section \<open>Decimal representation\<close>

fun dec :: "nat \<Rightarrow> u8_t list" where
  "dec n = (if n < 10 then [48 + of_nat n] else dec (n div 10) @ [48 + of_nat (n mod 10)])"

declare dec.simps [simp del]

lemma itoa_digit:
  assumes "d < 10"
  shows "itoa_digits ! (35 + d) = 48 + of_nat d" "itoa_digits ! (35 - d) = 48 + of_nat d"
proof -
  have "list_all (\<lambda>d. itoa_digits ! (35 + d) = 48 + of_nat d \<and> itoa_digits ! (35 - d) = 48 + of_nat d) [0..<10]"
    by code_simp
  then show "itoa_digits ! (35 + d) = 48 + of_nat d" "itoa_digits ! (35 - d) = 48 + of_nat d"
    using assms by (auto simp: list_all_iff)
qed

lemma itoa_loop_dec:
  "snd (itoa_loop n buf) = buf @ rev (dec (nat \<bar>n\<bar>)) \<and> (fst (itoa_loop n buf) < 0 \<longleftrightarrow> n < 0)"
proof (induction n buf rule: itoa_loop.induct)
  case (1 n buf)
  define q where "q = n sdiv 10"
  define m where "m = nat \<bar>n\<bar>"
  have q: "nat \<bar>q\<bar> = m div 10" "q \<noteq> 0 \<longleftrightarrow> 10 \<le> m" "q \<noteq> 0 \<Longrightarrow> q < 0 \<longleftrightarrow> n < 0"
    by (auto simp: q_def m_def signed_divide_int_def abs_mult sgn_if nat_div_distrib)
  have m: "int (m mod 10) = int m - 10 * int (m div 10)" by (simp add: minus_mult_div_eq_mod [symmetric] zdiv_int zmod_int)
  have dig: "itoa_digits ! nat (35 + (n - q * 10)) = 48 + of_nat (m mod 10)"
  proof (cases "n < 0")
    case True
    then have n: "n = - int m" "q = - int (m div 10)"
      by (simp_all add: q_def m_def signed_divide_int_def sgn_if nat_div_distrib)
    have "m mod 10 \<le> 35" by (rule order.trans [of _ 9]) simp_all
    then have "nat (35 + (n - q * 10)) = 35 - m mod 10" using m n by linarith
    then show ?thesis using itoa_digit(2) [of "m mod 10"] by simp
  next
    case False
    then have n: "n = int m" "q = int (m div 10)"
      by (auto simp: q_def m_def signed_divide_int_def sgn_if zdiv_int)
    then have "nat (35 + (n - q * 10)) = 35 + m mod 10" using m by linarith
    then show ?thesis using itoa_digit(1) [of "m mod 10"] by simp
  qed
  show ?case
  proof (cases "q = 0")
    case True
    then have "m < 10" using q(2) by simp
    then show ?thesis using True dig
      by (simp add: itoa_loop.simps [of n buf] q_def [symmetric] m_def [symmetric] dec.simps [of m])
  next
    case False
    then show ?thesis
      using 1 [OF refl q_def refl] q dig
      by (simp add: itoa_loop.simps [of n buf] q_def [symmetric] m_def [symmetric] dec.simps [of m])
  qed
qed

lemma swap_loop_nth:
  "j < length buf \<Longrightarrow> length (swap_loop i j buf) = length buf \<and>
    (\<forall>k<length buf. swap_loop i j buf ! k = (if i \<le> k \<and> k \<le> j then buf ! (i + j - k) else buf ! k))"
proof (induction i j buf rule: swap_loop.induct)
  case (1 i j buf)
  show ?case
  proof (cases "i < j")
    case True
    let ?b = "buf[j := buf ! i, i := buf ! j]"
    have IH: "length (swap_loop (i + 1) (j - 1) ?b) = length ?b \<and> (\<forall>k<length ?b. swap_loop (i + 1) (j - 1) ?b ! k =
        (if i + 1 \<le> k \<and> k \<le> j - 1 then ?b ! (i + 1 + (j - 1) - k) else ?b ! k))"
      using 1 True by simp
    have eq: "swap_loop i j buf = swap_loop (i + 1) (j - 1) ?b" using True by (subst swap_loop.simps) simp
    have "swap_loop i j buf ! k = (if i \<le> k \<and> k \<le> j then buf ! (i + j - k) else buf ! k)"
      if "k < length buf" for k
      using IH eq that True 1(2) by (auto simp: nth_list_update)
    then show ?thesis using IH eq by simp
  next
    case False
    then have "i + j - k = k" if "i \<le> k" "k \<le> j" for k using that by simp
    with False show ?thesis by (auto simp: swap_loop.simps [of i j buf])
  qed
qed

lemma swap_loop_rev: "buf \<noteq> [] \<Longrightarrow> swap_loop 0 (length buf - 1) buf = rev buf"
  using swap_loop_nth [of "length buf - 1" buf 0]
  by (intro nth_equalityI) (auto simp: rev_nth)

section \<open>Properties\<close>

text \<open>\<open>lwip_htons\<close> and \<open>lwip_htonl\<close> reverse the bytes in memory and are their own inverses, so that
  \<open>ntohs\<close> and \<open>ntohl\<close>, which are the same functions, undo them.\<close>

theorem byte_order_roundtrip:
  "bytes16 (lwip_htons w) = rev (bytes16 w) \<and> lwip_htons (lwip_htons w) = w \<and>
   bytes32 (lwip_htonl v) = rev (bytes32 v) \<and> lwip_htonl (lwip_htonl v) = v"
  by (simp add: bytes16_htons bytes32_htonl)

text \<open>C33: \<open>lwip_itoa\<close> leaves the decimal representation of its argument in the buffer, with a minus
  sign for negative numbers, the smallest \<open>int\<close> included.\<close>

theorem lwip_itoa_decimal:
  "lwip_itoa n = (if n < 0 then chr CHR ''-'' # dec (nat (- n)) else dec (nat n))"
proof -
  obtain t buf where l: "itoa_loop n [] = (t, buf)" by (cases "itoa_loop n []")
  then have buf: "buf = rev (dec (nat \<bar>n\<bar>))" "t < 0 \<longleftrightarrow> n < 0" using itoa_loop_dec [of n "[]"] by simp_all
  have "dec (nat \<bar>n\<bar>) \<noteq> []" by (subst dec.simps) simp
  then show ?thesis
    using l buf swap_loop_rev [of buf] swap_loop_rev [of "buf @ [45]"] by (auto simp: lwip_itoa_def Let_def)
qed

text \<open>On strings without NUL, \<open>lwip_stricmp\<close> returns 0 exactly when they agree up to ASCII case, and
  \<open>lwip_strnicmp\<close> with length \<open>n\<close> exactly when their first \<open>n + 1\<close> characters do: it compares one
  character more than its length argument says.\<close>

theorem case_insensitive_compare:
  assumes "0 \<notin> set a" "0 \<notin> set b"
  shows "(lwip_stricmp a b = 0 \<longleftrightarrow> map lower a = map lower b) \<and>
    (lwip_strnicmp a b n = 0 \<longleftrightarrow> map lower (take (n + 1) a) = map lower (take (n + 1) b))"
  using assms by (simp add: stricmp_lower strnicmp_lower)

theorem case_insensitive_compare_witness:
  "lwip_stricmp (map chr ''Host'') (map chr ''hOST'') = 0 \<and>
   lwip_strnicmp (map chr ''abcX'') (map chr ''abcY'') 3 \<noteq> 0"
proof -
  have "lwip_stricmp (map chr ''Host'') (map chr ''hOST'') = 0"
    using case_insensitive_compare [of "map chr ''Host''" "map chr ''hOST''" 0] by (simp add: lower_def)
  moreover have "lwip_strnicmp (map chr ''abcX'') (map chr ''abcY'') 3 \<noteq> 0"
    using case_insensitive_compare [of "map chr ''abcX''" "map chr ''abcY''" 3] by (simp add: lower_def)
  ultimately show ?thesis by blast
qed

text \<open>\<open>lwip_strnstr\<close> returns the first place at which the token occurs completely within the first
  \<open>n\<close> characters of the buffer, and NULL if there is none.\<close>

theorem lwip_strnstr_first:
  assumes "0 \<notin> set buf" "0 \<notin> set tok"
  shows "lwip_strnstr buf tok n = (if tok = [] then Some 0 else
    (case filter (\<lambda>k. occurs_at tok buf k \<and> k + length tok \<le> n) [0..<length buf] of [] \<Rightarrow> None | k # _ \<Rightarrow> Some k))"
  using strnstr_loop_first [OF assms] by (auto simp: lwip_strnstr_def)

theorem lwip_strnstr_first_witness:
  "lwip_strnstr (map chr ''GET /x'') (map chr ''/x'') 6 = Some 4"
  using lwip_strnstr_first [of "map chr ''GET /x''" "map chr ''/x''" 6]
  by (simp add: occurs_at_def upt_conv_Cons)

end
