(* ===== verification/Ip4_Addr.thy ===== *)
theory Ip4_Addr
  imports Def
begin

text \<open>
  IPv4 addresses: \<open>src/lwip/src/core/ipv4/ip4_addr.c\<close> and the macros of \<open>ip4_addr.h\<close>.  An address is the
  32-bit word in network byte order, as in \<open>ip4_addr_t\<close>.
\<close>

type_synonym ip4_addr = u32_t

section \<open>Macros\<close>

definition LWIP_MAKEU32 :: "u8_t \<Rightarrow> u8_t \<Rightarrow> u8_t \<Rightarrow> u8_t \<Rightarrow> u32_t" where
  "LWIP_MAKEU32 a b c d =
     push_bit 24 (ucast a) OR push_bit 16 (ucast b) OR push_bit 8 (ucast c) OR ucast d"

definition IP4_ADDR :: "u8_t \<Rightarrow> u8_t \<Rightarrow> u8_t \<Rightarrow> u8_t \<Rightarrow> ip4_addr" where
  "IP4_ADDR a b c d = PP_HTONL (LWIP_MAKEU32 a b c d)"

definition IPADDR_NONE :: u32_t where "IPADDR_NONE = 0xffffffff"
definition IPADDR_ANY :: u32_t where "IPADDR_ANY = 0"
definition IPADDR_BROADCAST :: u32_t where "IPADDR_BROADCAST = 0xffffffff"

definition ip4_addr_isany :: "ip4_addr \<Rightarrow> bool" where
  "ip4_addr_isany a \<longleftrightarrow> a = IPADDR_ANY"

definition ip4_addr_netcmp :: "ip4_addr \<Rightarrow> ip4_addr \<Rightarrow> ip4_addr \<Rightarrow> bool" where
  "ip4_addr_netcmp a b m \<longleftrightarrow> a AND m = b AND m"

definition ip4_addr_isloopback :: "ip4_addr \<Rightarrow> bool" where
  "ip4_addr_isloopback a \<longleftrightarrow> a AND PP_HTONL 0xff000000 = PP_HTONL (push_bit 24 127)"

definition ip4_addr_ismulticast :: "ip4_addr \<Rightarrow> bool" where
  "ip4_addr_ismulticast a \<longleftrightarrow> a AND PP_HTONL 0xf0000000 = PP_HTONL 0xe0000000"

definition ip4_addr_islinklocal :: "ip4_addr \<Rightarrow> bool" where
  "ip4_addr_islinklocal a \<longleftrightarrow> a AND PP_HTONL 0xffff0000 = PP_HTONL 0xa9fe0000"

text \<open>The fields of \<open>struct netif\<close> that the IPv4 code reads.\<close>

record netif =
  netif_ip :: ip4_addr
  netif_netmask :: ip4_addr
  netif_gw :: ip4_addr
  netif_flags :: u8_t
  netif_mtu :: u16_t
  netif_hwaddr :: "u8_t list"
  netif_num :: nat

definition NETIF_FLAG_UP :: u8_t where "NETIF_FLAG_UP = 0x01"
definition NETIF_FLAG_BROADCAST :: u8_t where "NETIF_FLAG_BROADCAST = 0x02"
definition NETIF_FLAG_LINK_UP :: u8_t where "NETIF_FLAG_LINK_UP = 0x04"
definition NETIF_FLAG_ETHARP :: u8_t where "NETIF_FLAG_ETHARP = 0x08"
definition NETIF_FLAG_ETHERNET :: u8_t where "NETIF_FLAG_ETHERNET = 0x10"
definition NETIF_FLAG_IGMP :: u8_t where "NETIF_FLAG_IGMP = 0x20"

lemmas netif_flag_defs = NETIF_FLAG_UP_def NETIF_FLAG_BROADCAST_def NETIF_FLAG_LINK_UP_def
  NETIF_FLAG_ETHARP_def NETIF_FLAG_ETHERNET_def NETIF_FLAG_IGMP_def

section \<open>Address tests\<close>

definition ip4_addr_isbroadcast_u32 :: "u32_t \<Rightarrow> netif \<Rightarrow> bool" where
  "ip4_addr_isbroadcast_u32 addr nif =
     (if NOT addr = IPADDR_ANY \<or> addr = IPADDR_ANY then True
      else if netif_flags nif AND NETIF_FLAG_BROADCAST = 0 then False
      else if addr = netif_ip nif then False
      else if ip4_addr_netcmp addr (netif_ip nif) (netif_netmask nif) \<and>
              addr AND NOT (netif_netmask nif) = IPADDR_BROADCAST AND NOT (netif_netmask nif) then True
      else False)"

lemma half_less: "m \<noteq> 0 \<Longrightarrow> unat (drop_bit 1 m) < unat (m :: u32_t)"
  unfolding unat_drop_bit_eq by (simp add: drop_bit_eq_div unat_gt_0)

text \<open>The two loops of \<open>ip4_addr_netmask_valid\<close>.\<close>

function first_zero :: "u32_t \<Rightarrow> u32_t \<Rightarrow> u32_t" where
  "first_zero nm m =
     (if m \<noteq> 0 then if nm AND m = 0 then m else first_zero nm (drop_bit 1 m) else m)"
  by pat_completeness auto
termination
  by (relation "measure (\<lambda>(nm, m). unat m)") (simp_all only: in_measure case_prod_conv half_less simp_thms wf_measure)

function no_more_ones :: "u32_t \<Rightarrow> u32_t \<Rightarrow> bool" where
  "no_more_ones nm m =
     (if m \<noteq> 0 then if nm AND m \<noteq> 0 then False else no_more_ones nm (drop_bit 1 m) else True)"
  by pat_completeness auto
termination
  by (relation "measure (\<lambda>(nm, m). unat m)") (simp_all only: in_measure case_prod_conv half_less simp_thms wf_measure)

declare first_zero.simps [simp del] no_more_ones.simps [simp del]

definition ip4_addr_netmask_valid :: "u32_t \<Rightarrow> bool" where
  "ip4_addr_netmask_valid netmask =
     (let nm_hostorder = lwip_htonl netmask;
          m = first_zero nm_hostorder (push_bit 31 1)
      in no_more_ones nm_hostorder m)"

section \<open>Parsing\<close>

definition in_range :: "u8_t \<Rightarrow> u8_t \<Rightarrow> u8_t \<Rightarrow> bool" where
  "in_range c lo up \<longleftrightarrow> lo \<le> c \<and> c \<le> up"

definition isdigit :: "u8_t \<Rightarrow> bool" where
  "isdigit c \<longleftrightarrow> in_range c (chr CHR ''0'') (chr CHR ''9'')"

definition isxdigit :: "u8_t \<Rightarrow> bool" where
  "isxdigit c \<longleftrightarrow> isdigit c \<or> in_range c (chr CHR ''a'') (chr CHR ''f'') \<or> in_range c (chr CHR ''A'') (chr CHR ''F'')"

definition islower :: "u8_t \<Rightarrow> bool" where
  "islower c \<longleftrightarrow> in_range c (chr CHR ''a'') (chr CHR ''z'')"

text \<open>Space, form feed, newline, carriage return, tab, vertical tab.\<close>

definition isspace :: "u8_t \<Rightarrow> bool" where
  "isspace c \<longleftrightarrow> c = 32 \<or> c = 12 \<or> c = 10 \<or> c = 13 \<or> c = 9 \<or> c = 11"

text \<open>The inner loop: the digits of one number; \<open>cp\<close> is the rest of the string.\<close>

function aton_digits :: "u32_t \<Rightarrow> u32_t \<Rightarrow> u8_t list \<Rightarrow> u32_t \<times> u8_t list" where
  "aton_digits base val cp =
     (let c = deref cp 0 in
      if isdigit c then aton_digits base (val * base + ucast (c - chr CHR ''0'')) (drop 1 cp)
      else if base = 16 \<and> isxdigit c then
        aton_digits base
          (push_bit 4 val OR ucast (c + 10 - (if islower c then chr CHR ''a'' else chr CHR ''A''))) (drop 1 cp)
      else (val, cp))"
  by pat_completeness auto
termination
  by (relation "measure (\<lambda>(b, v, cp). length cp)")
    (auto simp: deref_def isdigit_def isxdigit_def in_range_def split: if_splits)

declare aton_digits.simps [simp del]

text \<open>The base of a number and the text after its prefix.\<close>

definition aton_base :: "u8_t list \<Rightarrow> u32_t \<times> u8_t list" where
  "aton_base cp =
     (if deref cp 0 = chr CHR ''0'' then
        let cp = drop 1 cp in
        if deref cp 0 = chr CHR ''x'' \<or> deref cp 0 = chr CHR ''X'' then (16, drop 1 cp) else (8, cp)
      else (10, cp))"

lemma aton_digits_shorter: "aton_digits base val cp = (v, r) \<Longrightarrow> length r \<le> length cp"
proof (induction base val cp rule: aton_digits.induct)
  case (1 base val cp)
  show ?case using 1(3) 1(1) [OF refl] 1(2) [OF refl]
    by (subst (asm) aton_digits.simps) (fastforce simp: Let_def split: if_splits)
qed

lemma aton_base_shorter: "aton_base cp = (b, r) \<Longrightarrow> length r \<le> length cp"
  by (auto simp: aton_base_def Let_def split: if_splits)

text \<open>The outer loop: None is an early \<open>return 0\<close>; else the parts before the last dot, the last number and
  the rest of the string.\<close>

function aton_loop :: "u32_t list \<Rightarrow> u8_t list \<Rightarrow> (u32_t list \<times> u32_t \<times> u8_t list) option" where
  "aton_loop parts cp =
     (if \<not> isdigit (deref cp 0) then None
      else
        let (base, cp') = aton_base cp;
            (val, cp'') = aton_digits base 0 cp'
        in if deref cp'' 0 = chr CHR ''.'' then
             if 3 \<le> length parts then None else aton_loop (parts @ [val]) (drop 1 cp'')
           else Some (parts, val, cp''))"
  by pat_completeness auto
termination
proof (relation "measure (\<lambda>(p, cp). length cp)", goal_cases)
  case (2 parts cp base_cp base cp' val_cp val cp'')
  then have "length cp'' \<le> length cp" "cp'' \<noteq> []"
    using aton_digits_shorter [of base 0 cp' val cp''] aton_base_shorter [of cp base cp']
    by (auto simp: deref_def split: if_splits)
  then show ?case by (cases cp'') auto
qed simp

declare aton_loop.simps [simp del]

text \<open>The switch on the number of parts; the loop stores at most three, so the assertion of the
  default case is not reached.\<close>

fun aton_concoct :: "u32_t list \<Rightarrow> u32_t \<Rightarrow> u32_t option" where
  "aton_concoct [] val = Some val"
| "aton_concoct [a] val =
     (if val > 0xffffff then None else if a > 0xff then None else Some (val OR push_bit 24 a))"
| "aton_concoct [a, b] val =
     (if val > 0xffff then None else if a > 0xff \<or> b > 0xff then None
      else Some (val OR (push_bit 24 a OR push_bit 16 b)))"
| "aton_concoct [a, b, c] val =
     (if val > 0xff then None else if a > 0xff \<or> b > 0xff \<or> c > 0xff then None
      else Some (val OR (push_bit 24 a OR push_bit 16 b OR push_bit 8 c)))"
| "aton_concoct _ val = None"

definition ip4addr_aton :: "u8_t list \<Rightarrow> ip4_addr option" where
  "ip4addr_aton cp =
     (case aton_loop [] cp of
        None \<Rightarrow> None
      | Some (parts, val, rest) \<Rightarrow>
          if deref rest 0 \<noteq> 0 \<and> \<not> isspace (deref rest 0) then None
          else map_option lwip_htonl (aton_concoct parts val))"

definition ipaddr_addr :: "u8_t list \<Rightarrow> u32_t" where
  "ipaddr_addr cp = (case ip4addr_aton cp of Some a \<Rightarrow> a | None \<Rightarrow> IPADDR_NONE)"

section \<open>Printing\<close>

text \<open>The digits of one byte in \<open>inv\<close>, last digit first.\<close>

fun inv_digits :: "nat \<Rightarrow> u8_t list" where
  "inv_digits b =
     (let rem = b mod 10; b = b div 10
      in (48 + of_nat rem) # (if b \<noteq> 0 then inv_digits b else []))"

declare inv_digits.simps [simp del]

text \<open>Writing characters: each is preceded by \<open>len++ >= buflen\<close>.  The text so far stands for
  \<open>rp\<close> and \<open>len\<close>.\<close>

fun put_chars :: "nat \<Rightarrow> u8_t list \<Rightarrow> u8_t list \<Rightarrow> u8_t list option" where
  "put_chars buflen out [] = Some out"
| "put_chars buflen out (c # cs) =
     (if buflen \<le> length out then None else put_chars buflen (out @ [c]) cs)"

fun ntoa_loop :: "nat \<Rightarrow> u8_t list \<Rightarrow> u8_t list \<Rightarrow> u8_t list option" where
  "ntoa_loop buflen out [] = Some out"
| "ntoa_loop buflen out (ap # aps) = do {
     out \<leftarrow> put_chars buflen out (rev (inv_digits (unat ap)));
     out \<leftarrow> put_chars buflen out [chr CHR ''.''];
     ntoa_loop buflen out aps }"

text \<open>The last dot is overwritten by the NUL.\<close>

definition ip4addr_ntoa_r :: "ip4_addr \<Rightarrow> nat \<Rightarrow> u8_t list option" where
  "ip4addr_ntoa_r a buflen = map_option butlast (ntoa_loop buflen [] (bytes32 a))"

definition ip4addr_ntoa :: "ip4_addr \<Rightarrow> u8_t list option" where
  "ip4addr_ntoa a = ip4addr_ntoa_r a 16"

section \<open>Net masks\<close>

lemma drop_bit_power:
  "drop_bit (Suc 0) (2 ^ i :: u32_t) = (case i of 0 \<Rightarrow> 0 | Suc j \<Rightarrow> if i < 32 then 2 ^ j else 0)"
  by (rule bit_word_eqI) (auto simp: bit_simps split: nat.splits)

lemma power_nonzero: "i < 32 \<Longrightarrow> (2 ^ i :: u32_t) \<noteq> 0"
  by (simp add: exp_eq_zero_iff)

lemma no_more_ones_bits:
  "i < 32 \<Longrightarrow> no_more_ones nm (2 ^ i) \<longleftrightarrow> (\<forall>j\<le>i. \<not> bit nm j)"
proof (induction i)
  case 0
  then show ?case
    by (simp add: no_more_ones.simps [of nm 1] no_more_ones.simps [of nm 0] and_one_eq odd_iff_mod_2_eq_one bit_0)
next
  case (Suc i)
  then show ?case
    using power_nonzero [of "Suc i"] drop_bit_power [of "Suc i"] and_exp_eq_0_iff_not_bit [of nm "Suc i"]
    by (subst no_more_ones.simps) (auto simp: le_Suc_eq)
qed

lemma first_zero_bits:
  "i < 32 \<Longrightarrow> no_more_ones nm (first_zero nm (2 ^ i)) \<longleftrightarrow> (\<exists>k\<le>Suc i. \<forall>j\<le>i. bit nm j \<longleftrightarrow> k \<le> j)"
proof (induction i)
  case 0
  have "no_more_ones nm (first_zero nm 1)"
    by (auto simp: first_zero.simps [of nm 1] first_zero.simps [of nm 0] no_more_ones.simps [of nm 1] no_more_ones.simps [of nm 0])
  moreover have "\<exists>k\<le>Suc 0. bit nm 0 \<longleftrightarrow> k = 0" by (cases "bit nm 0") auto
  ultimately show ?case by simp
next
  case (Suc i)
  let ?P = "\<lambda>i k. \<forall>j\<le>i. bit nm j \<longleftrightarrow> k \<le> j"
  show ?case
  proof (cases "bit nm (Suc i)")
    case True
    then have "first_zero nm (2 ^ Suc i) = first_zero nm (2 ^ i)"
      using Suc(2) power_nonzero [of "Suc i"] drop_bit_power [of "Suc i"] and_exp_eq_0_iff_not_bit [of nm "Suc i"]
      by (subst first_zero.simps) auto
    moreover have "(\<exists>k\<le>Suc (Suc i). ?P (Suc i) k) \<longleftrightarrow> (\<exists>k\<le>Suc i. ?P i k)"
      using True by (auto simp: le_Suc_eq) 
    ultimately show ?thesis using Suc by simp
  next
    case False
    then have "first_zero nm (2 ^ Suc i) = 2 ^ Suc i"
      using Suc(2) and_exp_eq_0_iff_not_bit [of nm "Suc i"] by (subst first_zero.simps) auto
    moreover have "(\<exists>k\<le>Suc (Suc i). ?P (Suc i) k) \<longleftrightarrow> (\<forall>j\<le>Suc i. \<not> bit nm j)"
      using False by (auto simp: le_Suc_eq)
    ultimately show ?thesis using no_more_ones_bits [OF Suc(2), of nm] by simp
  qed
qed

definition prefix_mask :: "nat \<Rightarrow> u32_t" where
  "prefix_mask len = NOT (mask (32 - len))"

lemma bit_prefix_mask: "bit (prefix_mask len) j \<longleftrightarrow> j < 32 \<and> 32 - len \<le> j"
  by (auto simp: prefix_mask_def bit_simps)

lemma prefix_mask_iff:
  "(\<exists>k\<le>32. \<forall>j\<le>31. bit nm j \<longleftrightarrow> k \<le> j) \<longleftrightarrow> (\<exists>len\<le>32. nm = prefix_mask len)" (is "?L \<longleftrightarrow> ?R")
proof
  assume ?L
  then obtain k where k: "k \<le> 32" "\<forall>j\<le>31. bit nm j \<longleftrightarrow> k \<le> j" by blast
  have "nm = prefix_mask (32 - k)"
    by (rule bit_word_eqI) (use k in \<open>auto simp: bit_prefix_mask\<close>)
  then show ?R by (intro exI [of _ "32 - k"]) simp
next
  assume ?R
  then obtain len where "len \<le> 32" "nm = prefix_mask len" by blast
  then show ?L by (intro exI [of _ "32 - len"]) (auto simp: bit_prefix_mask)
qed

section \<open>Printing and parsing\<close>

lemma inv_digits_dec: "rev (inv_digits n) = dec n"
  by (induction n rule: inv_digits.induct)
    (subst inv_digits.simps, subst dec.simps, auto simp: Let_def)

lemma put_chars_all: "put_chars n out cs = (if length out + length cs \<le> n \<or> cs = [] then Some (out @ cs) else None)"
  by (induction cs arbitrary: out) auto

definition dotted :: "u8_t list \<Rightarrow> u8_t list" where
  "dotted bs = concat (map (\<lambda>b. dec (unat b) @ [46]) bs)"

lemma dec_nonempty [simp]: "dec n \<noteq> []"
  by (subst dec.simps) simp

lemma ntoa_loop_dotted:
  "ntoa_loop n out bs = (if length out + length (dotted bs) \<le> n \<or> bs = [] then Some (out @ dotted bs) else None)"
  by (induction bs arbitrary: out) (auto simp: dotted_def inv_digits_dec put_chars_all)

lemma dec_length: "n < 256 \<Longrightarrow> length (dec n) \<le> 3"
  by (subst dec.simps, subst dec.simps, subst dec.simps) auto

lemma dotted_length: "length (dotted bs) \<le> 4 * length bs"
  by (induction bs) (use dec_length [OF u8_of_nat(2)] in \<open>auto simp: dotted_def add_mono\<close>)

lemma digit_char: "d < 10 \<Longrightarrow> isdigit (48 + of_nat d) \<and> (48 + of_nat d :: u8_t) - 48 = of_nat d"
  by (auto simp: isdigit_def in_range_def word_le_nat_alt unat_word_ariths)

lemma aton_digits_one:
  "d < 10 \<Longrightarrow> aton_digits 10 v ((48 + of_nat d) # r) = aton_digits 10 (v * 10 + of_nat d) r"
proof -
  assume d: "d < 10"
  then have "(ucast (of_nat d :: u8_t) :: u32_t) = of_nat d"
    by (subst of_nat_unat [symmetric]) simp
  then show ?thesis using digit_char [OF d]
    by (subst aton_digits.simps) (simp add: deref_def)
qed

lemma aton_digits_dec:
  "aton_digits 10 v (dec n @ r) = aton_digits 10 (v * 10 ^ length (dec n) + of_nat n) r"
proof (induction n arbitrary: r rule: dec.induct)
  case (1 n)
  show ?case
  proof (cases "n < 10")
    case True
    then show ?thesis by (simp add: dec.simps [of n] aton_digits_one)
  next
    case False
    have "(of_nat n :: u32_t) = of_nat (n div 10 * 10 + n mod 10)" by simp
    also have "\<dots> = of_nat (n div 10) * 10 + of_nat (n mod 10)" by (simp only: of_nat_add of_nat_mult of_nat_numeral)
    finally show ?thesis using False 1
      by (simp add: dec.simps [of n] aton_digits_one algebra_simps)
  qed
qed

lemma dec_head: "\<exists>d cs. dec n = (48 + of_nat d) # cs \<and> d < 10 \<and> (d = 0 \<longrightarrow> n = 0)"
proof (induction n rule: dec.induct)
  case (1 n)
  then show ?case by (subst dec.simps) fastforce
qed

text \<open>Reading back the decimal representation of a number up to the first character that is no
  digit; \<open>0\<close> alone is read as octal.\<close>

lemma aton_number:
  assumes "\<not> isdigit (deref r 0)" "deref r 0 \<noteq> 120" "deref r 0 \<noteq> 88"
  shows "isdigit (deref (dec n @ r) 0) \<and> (\<exists>b cp. aton_base (dec n @ r) = (b, cp) \<and> aton_digits b 0 cp = (of_nat n, r))"
proof -
  obtain d cs where h: "dec n = (48 + of_nat d) # cs" "d < 10" "d = 0 \<longrightarrow> n = 0" using dec_head by blast
  have stop: "aton_digits b v r = (v, r)" if "b \<noteq> 16" for b v
    using assms that by (subst aton_digits.simps) simp
  show ?thesis
  proof (cases "d = 0")
    case True
    with h have "dec n = [48]" "n = 0" by (auto simp: dec.simps [of 0])
    then show ?thesis using assms stop digit_char [of 0] by (auto simp: aton_base_def deref_def)
  next
    case False
    then have "(48 + of_nat d :: u8_t) \<noteq> 48" using h(2) by (simp add: word_of_nat_eq_0_iff nat_dvd_not_less)
    then show ?thesis
      using h digit_char [of d] aton_digits_dec [of 0 n r] stop by (simp add: aton_base_def deref_def)
  qed
qed

lemma aton_loop_dot:
  "length parts < 3 \<Longrightarrow> aton_loop parts (dec n @ 46 # r) = aton_loop (parts @ [of_nat n]) r"
  using aton_number [of "46 # r" n]
  by (subst aton_loop.simps) (auto simp: deref_def isdigit_def in_range_def)

lemma aton_loop_end: "aton_loop parts (dec n) = Some (parts, of_nat n, [])"
  using aton_number [of "[]" n] by (subst aton_loop.simps) (auto simp: deref_def isdigit_def in_range_def)

lemma aton_bytes:
  "ip4addr_aton (butlast (dotted [a, b, c, d])) = Some (lwip_htonl (LWIP_MAKEU32 a b c d))"
proof -
  have le: "(of_nat (unat x) :: u32_t) \<le> 0xff" for x :: u8_t
    using u8_of_nat(2) [of x] by (simp add: word_le_nat_alt unsigned_ucast_eq take_bit_eq_mod)
  have cast: "(of_nat (unat x) :: u32_t) = ucast x" for x :: u8_t by simp
  have "butlast (dotted [a, b, c, d]) =
      dec (unat a) @ 46 # dec (unat b) @ 46 # dec (unat c) @ 46 # dec (unat d)"
    by (simp add: dotted_def butlast_append)
  then have "aton_loop [] (butlast (dotted [a, b, c, d])) =
      Some ([of_nat (unat a), of_nat (unat b), of_nat (unat c)], of_nat (unat d), [])"
    by (simp add: aton_loop_dot aton_loop_end)
  then show ?thesis using le [of a] le [of b] le [of c] le [of d]
    by (simp add: ip4addr_aton_def deref_def not_less LWIP_MAKEU32_def cast or.commute or.left_commute)
qed

lemma makeu32_bytes32:
  "LWIP_MAKEU32 (ucast w) (ucast (drop_bit 8 w)) (ucast (drop_bit 16 w)) (ucast (drop_bit 24 w)) = lwip_htonl w"
  by (rule bit_word_eqI) (auto simp: LWIP_MAKEU32_def lwip_htonl_def bit_HTONL bit_simps)

section \<open>Properties\<close>


text \<open>C31: \<open>ip4_addr_netmask_valid\<close> accepts exactly the 33 contiguous net masks.\<close>

theorem netmask_valid_prefix:
  "ip4_addr_netmask_valid m \<longleftrightarrow> (\<exists>len. len \<le> 32 \<and> lwip_htonl m = prefix_mask len)"
  using first_zero_bits [of 31 "lwip_htonl m"] prefix_mask_iff [of "lwip_htonl m"]
  by (simp add: ip4_addr_netmask_valid_def push_bit_eq_mult)

text \<open>C32: The broadcast addresses on an interface are the two limited ones and, where it supports
  broadcast, the address of its network whose host bits are all one, unless that is its own
  address.\<close>

theorem isbroadcast_directed:
  "ip4_addr_isbroadcast_u32 addr nif \<longleftrightarrow> addr = 0 \<or> addr = - 1 \<or>
    netif_flags nif AND NETIF_FLAG_BROADCAST \<noteq> 0 \<and>
    addr = (netif_ip nif AND netif_netmask nif) OR NOT (netif_netmask nif) \<and> addr \<noteq> netif_ip nif"
proof -
  let ?m = "netif_netmask nif" and ?ip = "netif_ip nif"
  have all: "IPADDR_BROADCAST = - 1" by (simp add: IPADDR_BROADCAST_def)
  have "addr AND ?m = ?ip AND ?m \<and> addr AND NOT ?m = - 1 AND NOT ?m \<longleftrightarrow> addr = (?ip AND ?m) OR NOT ?m"
    by (auto simp: bit_eq_iff bit_simps)
  moreover have "NOT addr = 0 \<longleftrightarrow> addr = - 1" by (metis bit.double_compl bit.compl_zero)
  ultimately show ?thesis
    unfolding ip4_addr_isbroadcast_u32_def IPADDR_ANY_def all ip4_addr_netcmp_def by argo
qed

text \<open>C39: \<open>ip4addr_aton\<close> does not notice a number that exceeds 32 bits, so a single number too large for
  an address is accepted modulo \<open>2 ^ 32\<close>; it also takes \<open>8\<close> and \<open>9\<close> for octal digits and \<open>0x\<close> for zero.\<close>

theorem aton_accepts_overflow:
  "ip4addr_aton (dec n) = Some (lwip_htonl (of_nat n)) \<and>
   ip4addr_aton (map chr ''4294967297'') = Some (IP4_ADDR 0 0 0 1) \<and>
   ip4addr_aton (map chr ''1.2.3.09'') = Some (IP4_ADDR 1 2 3 9) \<and>
   ip4addr_aton (map chr ''1.2.3.0x'') = Some (IP4_ADDR 1 2 3 0)"
proof -
  have "ip4addr_aton (dec n) = Some (lwip_htonl (of_nat n))"
    by (simp add: ip4addr_aton_def aton_loop_end deref_def)
  moreover have "ip4addr_aton (map chr ''4294967297'') = Some (IP4_ADDR 0 0 0 1)" by code_simp
  moreover have "ip4addr_aton (map chr ''1.2.3.09'') = Some (IP4_ADDR 1 2 3 9)" by code_simp
  moreover have "ip4addr_aton (map chr ''1.2.3.0x'') = Some (IP4_ADDR 1 2 3 0)" by code_simp
  ultimately show ?thesis by blast
qed

end
