(* ===== verification/Mem.thy ===== *)
theory Mem
  imports Prelude
begin

text \<open>
  The heap of \<open>src/lwip/src/core/mem.c\<close> in the configuration of the win32 port:
  \<open>MEM_LIBC_MALLOC\<close>, \<open>MEM_USE_POOLS\<close> and \<open>LWIP_ALLOW_MEM_FREE_FROM_OTHER_CONTEXT\<close>
  are 0, \<open>MEM_ALIGNMENT\<close> is 4, \<open>MEM_SIZE\<close> is 10240, so \<open>mem_size_t\<close> is \<open>u16_t\<close>.

  The heap array is byte-addressed memory; a \<open>struct mem\<close> is read and written at its
  layout (\<open>next\<close> at 0, \<open>prev\<close> at 2, \<open>used\<close> at 4, padded to 8 bytes).  A pointer
  into the heap is its offset from \<open>ram\<close>, which \<open>mem_init\<close> aligns.  Every operation
  holds \<open>mem_mutex\<close> while it touches the heap, so it is one step here.  The heap
  statistics (\<open>lwip_stats.mem\<close>) are fields of the state.
\<close>

section \<open>Constants, state, accessors\<close>

definition MEM_ALIGNMENT :: nat where "MEM_ALIGNMENT = 4"
definition MEM_SIZE :: nat where "MEM_SIZE = 10240"
definition MIN_SIZE :: nat where "MIN_SIZE = 12"

text \<open>\<open>((size) + MEM_ALIGNMENT - 1U) & ~(MEM_ALIGNMENT-1U)\<close> at 32 bits: the mask clears
  the bits below the alignment.\<close>

definition LWIP_MEM_ALIGN_SIZE :: "nat \<Rightarrow> nat" where
  "LWIP_MEM_ALIGN_SIZE sz =
     (let s = u32 (sz + MEM_ALIGNMENT - 1) in s - s mod MEM_ALIGNMENT)"

text \<open>\<open>sizeof(struct mem)\<close> is 6: two \<open>u16_t\<close>, one \<open>u8_t\<close>, one byte of padding.\<close>

definition SIZEOF_STRUCT_MEM :: nat where "SIZEOF_STRUCT_MEM = LWIP_MEM_ALIGN_SIZE 6"
definition MIN_SIZE_ALIGNED :: nat where "MIN_SIZE_ALIGNED = LWIP_MEM_ALIGN_SIZE MIN_SIZE"
definition MEM_SIZE_ALIGNED :: nat where "MEM_SIZE_ALIGNED = LWIP_MEM_ALIGN_SIZE MEM_SIZE"

lemma mem_consts [simp]:
  "MEM_ALIGNMENT = 4" "SIZEOF_STRUCT_MEM = 8" "MIN_SIZE_ALIGNED = 12" "MEM_SIZE_ALIGNED = 10240"
  by (simp_all add: MEM_ALIGNMENT_def SIZEOF_STRUCT_MEM_def MIN_SIZE_ALIGNED_def
      MEM_SIZE_ALIGNED_def LWIP_MEM_ALIGN_SIZE_def MEM_SIZE_def MIN_SIZE_def u32_def)

record mem_state =
  ram :: bytes
  ram_end :: nat
  lfree :: nat
  mem_avail :: nat
  mem_used :: nat
  mem_max :: nat
  mem_err :: nat
  mem_illegal :: nat

text \<open>The fields of the \<open>struct mem\<close> at an offset of the heap.\<close>

definition mem_next :: "mem_state \<Rightarrow> nat \<Rightarrow> nat" where
  "mem_next s p = get_u16 (ram s) p"
definition mem_prev :: "mem_state \<Rightarrow> nat \<Rightarrow> nat" where
  "mem_prev s p = get_u16 (ram s) (p + 2)"
definition mem_used_at :: "mem_state \<Rightarrow> nat \<Rightarrow> nat" where
  "mem_used_at s p = unat (ram s (p + 4))"

definition set_next :: "nat \<Rightarrow> nat \<Rightarrow> mem_state \<Rightarrow> mem_state" where
  "set_next p v s = s\<lparr>ram := put_u16 (ram s) p v\<rparr>"
definition set_prev :: "nat \<Rightarrow> nat \<Rightarrow> mem_state \<Rightarrow> mem_state" where
  "set_prev p v s = s\<lparr>ram := put_u16 (ram s) (p + 2) v\<rparr>"
definition set_used :: "nat \<Rightarrow> nat \<Rightarrow> mem_state \<Rightarrow> mem_state" where
  "set_used p v s = s\<lparr>ram := (ram s)(p + 4 := of_nat v)\<rparr>"

text \<open>\<open>MEM_STATS_INC_USED\<close>, \<open>MEM_STATS_DEC_USED\<close>, \<open>MEM_STATS_INC\<close> on the \<open>u16_t\<close>
  counters.\<close>

definition stats_inc_used :: "nat \<Rightarrow> mem_state \<Rightarrow> mem_state" where
  "stats_inc_used y s =
     (let s = s\<lparr>mem_used := u16 (mem_used s + y)\<rparr>
      in if mem_max s < mem_used s then s\<lparr>mem_max := mem_used s\<rparr> else s)"
definition stats_dec_used :: "nat \<Rightarrow> mem_state \<Rightarrow> mem_state" where
  "stats_dec_used y s = s\<lparr>mem_used := sub16 (mem_used s) y\<rparr>"
definition stats_inc_err :: "mem_state \<Rightarrow> mem_state" where
  "stats_inc_err s = s\<lparr>mem_err := u16 (mem_err s + 1)\<rparr>"
definition stats_inc_illegal :: "mem_state \<Rightarrow> mem_state" where
  "stats_inc_illegal s = s\<lparr>mem_illegal := u16 (mem_illegal s + 1)\<rparr>"

section \<open>Operations\<close>

text \<open>\<open>mem_init\<close>: the argument gives the bytes of \<open>ram_heap\<close> and the counters before
  the call.\<close>

definition mem_init :: "mem_state \<Rightarrow> mem_state" where
  "mem_init s =
     (let s = set_next 0 MEM_SIZE_ALIGNED s;
          s = set_prev 0 0 s;
          s = set_used 0 0 s;
          s = s\<lparr>ram_end := MEM_SIZE_ALIGNED\<rparr>;
          s = set_used (ram_end s) 1 s;
          s = set_next (ram_end s) MEM_SIZE_ALIGNED s;
          s = set_prev (ram_end s) MEM_SIZE_ALIGNED s;
          s = s\<lparr>lfree := 0\<rparr>
      in s\<lparr>mem_avail := MEM_SIZE_ALIGNED\<rparr>)"

definition plug_forward :: "nat \<Rightarrow> mem_state \<Rightarrow> mem_state" where
  "plug_forward mem s =
     (let nmem = mem_next s mem
      in if mem \<noteq> nmem \<and> mem_used_at s nmem = 0 \<and> nmem \<noteq> ram_end s then
           (let s = (if lfree s = nmem then s\<lparr>lfree := mem\<rparr> else s);
                s = set_next mem (mem_next s nmem) s
            in set_prev (mem_next s nmem) mem s)
         else s)"

definition plug_backward :: "nat \<Rightarrow> mem_state \<Rightarrow> mem_state" where
  "plug_backward mem s =
     (let pmem = mem_prev s mem
      in if pmem \<noteq> mem \<and> mem_used_at s pmem = 0 then
           (let s = (if lfree s = mem then s\<lparr>lfree := pmem\<rparr> else s);
                s = set_next pmem (mem_next s mem) s
            in set_prev (mem_next s mem) pmem s)
         else s)"

definition plug_holes :: "nat \<Rightarrow> mem_state \<Rightarrow> mem_state option" where
  "plug_holes mem s = do {
     lwip_assert (mem < ram_end s);
     lwip_assert (mem_used_at s mem = 0);
     lwip_assert (mem_next s mem \<le> MEM_SIZE_ALIGNED);
     Some (plug_backward mem (plug_forward mem s)) }"

text \<open>The struct in front of the data pointer \<open>rmem\<close> (an offset from \<open>ram\<close>, negative
  for a pointer below the heap).  A struct that would start below the array is outside
  the heap object: reading it is undefined.\<close>

definition mem_struct_of :: "int \<Rightarrow> nat option" where
  "mem_struct_of rmem =
     (if int SIZEOF_STRUCT_MEM \<le> rmem then Some (nat rmem - SIZEOF_STRUCT_MEM) else None)"

definition mem_free :: "int option \<Rightarrow> mem_state \<Rightarrow> mem_state option" where
  "mem_free rmem s = (case rmem of None \<Rightarrow> Some s | Some rmem \<Rightarrow> do {
     lwip_assert (rmem mod int MEM_ALIGNMENT = 0);
     lwip_assert (0 \<le> rmem \<and> rmem < int (ram_end s));
     if rmem < 0 \<or> int (ram_end s) \<le> rmem then Some (stats_inc_illegal s)
     else do {
       mem \<leftarrow> mem_struct_of rmem;
       lwip_assert (mem_used_at s mem \<noteq> 0);
       let s = set_used mem 0 s;
       let s = (if mem < lfree s then s\<lparr>lfree := mem\<rparr> else s);
       let s = stats_dec_used (sub16 (mem_next s mem) mem) s;
       plug_holes mem s } })"

text \<open>\<open>mem_trim\<close> returns the data pointer or NULL.\<close>

definition mem_trim :: "int \<Rightarrow> nat \<Rightarrow> mem_state \<Rightarrow> (int option \<times> mem_state) option" where
  "mem_trim rmem newsize s =
     (let newsize = u16 (LWIP_MEM_ALIGN_SIZE newsize);
          newsize = (if newsize < MIN_SIZE_ALIGNED then MIN_SIZE_ALIGNED else newsize)
      in if MEM_SIZE_ALIGNED < newsize then Some (None, s)
      else do {
        lwip_assert (0 \<le> rmem \<and> rmem < int (ram_end s));
        if rmem < 0 \<or> int (ram_end s) \<le> rmem then Some (Some rmem, stats_inc_illegal s)
        else do {
          ptr \<leftarrow> mem_struct_of rmem;
          let sz = sub16 (mem_next s ptr) (ptr + SIZEOF_STRUCT_MEM);
          lwip_assert (newsize \<le> sz);
          if sz < newsize then Some (None, s)
          else if newsize = sz then Some (Some rmem, s)
          else
            let mem2 = mem_next s ptr in
            if mem_used_at s mem2 = 0 then
              let nxt = mem_next s mem2;
                  ptr2 = u16 (ptr + SIZEOF_STRUCT_MEM + newsize);
                  s = (if lfree s = mem2 then s\<lparr>lfree := ptr2\<rparr> else s);
                  s = set_used ptr2 0 s;
                  s = set_next ptr2 nxt s;
                  s = set_prev ptr2 ptr s;
                  s = set_next ptr ptr2 s;
                  s = (if mem_next s ptr2 \<noteq> MEM_SIZE_ALIGNED
                       then set_prev (mem_next s ptr2) ptr2 s else s)
              in Some (Some rmem, stats_dec_used (sz - newsize) s)
            else if newsize + SIZEOF_STRUCT_MEM + MIN_SIZE_ALIGNED \<le> sz then
              let ptr2 = u16 (ptr + SIZEOF_STRUCT_MEM + newsize);
                  s = (if ptr2 < lfree s then s\<lparr>lfree := ptr2\<rparr> else s);
                  s = set_used ptr2 0 s;
                  s = set_next ptr2 (mem_next s ptr) s;
                  s = set_prev ptr2 ptr s;
                  s = set_next ptr ptr2 s;
                  s = (if mem_next s ptr2 \<noteq> MEM_SIZE_ALIGNED
                       then set_prev (mem_next s ptr2) ptr2 s else s)
              in Some (Some rmem, stats_dec_used (sz - newsize) s)
            else Some (Some rmem, s) } })"

text \<open>The search loop of \<open>mem_malloc\<close> (\<open>Some None\<close>: the loop ended with no block), and
  the loop that advances \<open>lfree\<close>.  On a heap whose list is cyclic they would not
  return.\<close>

partial_function (option) mem_scan :: "mem_state \<Rightarrow> nat \<Rightarrow> nat \<Rightarrow> nat option option" where
  "mem_scan s sz ptr =
     (if ptr < MEM_SIZE_ALIGNED - sz then
        if mem_used_at s ptr = 0 \<and> sz \<le> sub32 (mem_next s ptr) (ptr + SIZEOF_STRUCT_MEM)
        then Some (Some ptr)
        else mem_scan s sz (mem_next s ptr)
      else Some None)"

partial_function (option) mem_next_free :: "mem_state \<Rightarrow> nat \<Rightarrow> nat option" where
  "mem_next_free s cur =
     (if mem_used_at s cur \<noteq> 0 \<and> cur \<noteq> ram_end s then mem_next_free s (mem_next s cur)
      else Some cur)"

text \<open>Taking the block found: split it when the remainder can hold a struct and
  \<open>MIN_SIZE_ALIGNED\<close> bytes, else mark all of it used.\<close>

definition mem_take :: "nat \<Rightarrow> nat \<Rightarrow> mem_state \<Rightarrow> mem_state" where
  "mem_take ptr sz s =
     (if sz + SIZEOF_STRUCT_MEM + MIN_SIZE_ALIGNED
           \<le> sub32 (mem_next s ptr) (ptr + SIZEOF_STRUCT_MEM) then
        let ptr2 = u16 (ptr + SIZEOF_STRUCT_MEM + sz);
            s = set_used ptr2 0 s;
            s = set_next ptr2 (mem_next s ptr) s;
            s = set_prev ptr2 ptr s;
            s = set_next ptr ptr2 s;
            s = set_used ptr 1 s;
            s = (if mem_next s ptr2 \<noteq> MEM_SIZE_ALIGNED
                 then set_prev (mem_next s ptr2) ptr2 s else s)
        in stats_inc_used (sz + SIZEOF_STRUCT_MEM) s
      else
        let s = set_used ptr 1 s
        in stats_inc_used (sub16 (mem_next s ptr) ptr) s)"

definition mem_malloc :: "nat \<Rightarrow> mem_state \<Rightarrow> (int option \<times> mem_state) option" where
  "mem_malloc sz s =
     (if sz = 0 then Some (None, s)
      else
        let sz = u16 (LWIP_MEM_ALIGN_SIZE sz);
            sz = (if sz < MIN_SIZE_ALIGNED then MIN_SIZE_ALIGNED else sz)
        in if MEM_SIZE_ALIGNED < sz then Some (None, s)
        else do {
          found \<leftarrow> mem_scan s sz (lfree s);
          case found of
            None \<Rightarrow> Some (None, stats_inc_err s)
          | Some ptr \<Rightarrow> do {
              let s = mem_take ptr sz s;
              s \<leftarrow> (if ptr = lfree s then do {
                      cur \<leftarrow> mem_next_free s (lfree s);
                      let s = s\<lparr>lfree := cur\<rparr>;
                      lwip_assert (lfree s = ram_end s \<or> mem_used_at s (lfree s) = 0);
                      Some s }
                    else Some s);
              lwip_assert (ptr + SIZEOF_STRUCT_MEM + sz \<le> ram_end s);
              lwip_assert ((ptr + SIZEOF_STRUCT_MEM) mod MEM_ALIGNMENT = 0);
              lwip_assert (ptr mod MEM_ALIGNMENT = 0);
              Some (Some (int (ptr + SIZEOF_STRUCT_MEM)), s) } })"

text \<open>\<open>mem_calloc\<close>: the product is truncated to \<open>mem_size_t\<close> when it is passed on, the
  \<open>memset\<close> uses the full product.\<close>

definition mem_calloc :: "nat \<Rightarrow> nat \<Rightarrow> mem_state \<Rightarrow> (int option \<times> mem_state) option" where
  "mem_calloc count sz s = do {
     (p, s) \<leftarrow> mem_malloc (u16 (count * sz)) s;
     case p of
       None \<Rightarrow> Some (None, s)
     | Some a \<Rightarrow>
         Some (Some a, s\<lparr>ram := (\<lambda>i. if a \<le> int i \<and> int i < a + int (count * sz)
                                 then 0 else ram s i)\<rparr>) }"


section \<open>Reading a header after writing one\<close>

definition apart :: "nat \<Rightarrow> nat \<Rightarrow> bool" where
  "apart p q \<longleftrightarrow> p + 8 \<le> q \<or> q + 8 \<le> p"

lemma apart_sym: "apart p q \<longleftrightarrow> apart q p"
  by (auto simp: apart_def)

lemma hdr_same [mem_access]:
  "mem_next (set_next p v s) p = u16 v"
  "mem_prev (set_prev p v s) p = u16 v"
  "mem_used_at (set_used p v s) p = v mod 256"
  by (simp_all add: mem_next_def set_next_def mem_prev_def set_prev_def mem_used_at_def
      set_used_def mem_access)

lemma hdr_other_field [mem_access]:
  "mem_next (set_prev p v s) p = mem_next s p"
  "mem_next (set_used p v s) p = mem_next s p"
  "mem_prev (set_next p v s) p = mem_prev s p"
  "mem_prev (set_used p v s) p = mem_prev s p"
  "mem_used_at (set_next p v s) p = mem_used_at s p"
  "mem_used_at (set_prev p v s) p = mem_used_at s p"
  by (simp_all add: mem_next_def set_next_def mem_prev_def set_prev_def mem_used_at_def
      set_used_def mem_access)

lemma hdr_other_struct [mem_access]:
  assumes "apart p q"
  shows "mem_next (set_next q v s) p = mem_next s p"
    "mem_next (set_prev q v s) p = mem_next s p"
    "mem_next (set_used q v s) p = mem_next s p"
    "mem_prev (set_next q v s) p = mem_prev s p"
    "mem_prev (set_prev q v s) p = mem_prev s p"
    "mem_prev (set_used q v s) p = mem_prev s p"
    "mem_used_at (set_next q v s) p = mem_used_at s p"
    "mem_used_at (set_prev q v s) p = mem_used_at s p"
    "mem_used_at (set_used q v s) p = mem_used_at s p"
  using assms
  by (auto simp: apart_def mem_next_def set_next_def mem_prev_def set_prev_def mem_used_at_def
      set_used_def mem_access)

lemma hdr_frame [mem_access]:
  "ram_end (set_next p v s) = ram_end s" "lfree (set_next p v s) = lfree s"
  "ram_end (set_prev p v s) = ram_end s" "lfree (set_prev p v s) = lfree s"
  "ram_end (set_used p v s) = ram_end s" "lfree (set_used p v s) = lfree s"
  "mem_next (s\<lparr>lfree := l\<rparr>) = mem_next s"
  "mem_prev (s\<lparr>lfree := l\<rparr>) = mem_prev s"
  "mem_used_at (s\<lparr>lfree := l\<rparr>) = mem_used_at s"
  "mem_next (s\<lparr>ram_end := l\<rparr>) = mem_next s"
  "mem_prev (s\<lparr>ram_end := l\<rparr>) = mem_prev s"
  "mem_used_at (s\<lparr>ram_end := l\<rparr>) = mem_used_at s"
  by (simp_all add: mem_next_def set_next_def mem_prev_def set_prev_def mem_used_at_def
      set_used_def fun_eq_iff)

text \<open>The statistics touch neither the heap nor its pointers.\<close>

lemma stats_frame [mem_access]:
  "ram (stats_inc_used y s) = ram s" "lfree (stats_inc_used y s) = lfree s"
  "ram_end (stats_inc_used y s) = ram_end s"
  "ram (stats_dec_used y s) = ram s" "lfree (stats_dec_used y s) = lfree s"
  "ram_end (stats_dec_used y s) = ram_end s"
  "ram (stats_inc_err s) = ram s" "lfree (stats_inc_err s) = lfree s"
  "ram_end (stats_inc_err s) = ram_end s"
  by (simp_all add: stats_inc_used_def stats_dec_used_def stats_inc_err_def Let_def)

lemma stats_hdr [mem_access]:
  "mem_next (stats_inc_used y s) = mem_next s" "mem_prev (stats_inc_used y s) = mem_prev s"
  "mem_used_at (stats_inc_used y s) = mem_used_at s"
  "mem_next (stats_dec_used y s) = mem_next s" "mem_prev (stats_dec_used y s) = mem_prev s"
  "mem_used_at (stats_dec_used y s) = mem_used_at s"
  "mem_next (stats_inc_err s) = mem_next s" "mem_prev (stats_inc_err s) = mem_prev s"
  "mem_used_at (stats_inc_err s) = mem_used_at s"
  by (simp_all add: fun_eq_iff mem_next_def mem_prev_def mem_used_at_def stats_frame)

lemma mem_next_less [simp]: "mem_next s p < 65536"
  by (simp add: mem_next_def)

section \<open>The block list\<close>

text \<open>\<open>B\<close> is the set of offsets of the structs of the list.  Each block is followed by the
  next one with room for a struct and \<open>MIN_SIZE_ALIGNED\<close> bytes, and its successor points
  back to it, except that the \<open>prev\<close> of the struct at the end is not kept up to date.\<close>

definition linked :: "nat set \<Rightarrow> (nat \<Rightarrow> nat) \<Rightarrow> (nat \<Rightarrow> nat) \<Rightarrow> bool" where
  "linked B N P \<longleftrightarrow>
     0 \<in> B \<and> MEM_SIZE_ALIGNED \<in> B \<and> (\<forall>p\<in>B. p \<le> MEM_SIZE_ALIGNED \<and> p mod MEM_ALIGNMENT = 0) \<and>
     N MEM_SIZE_ALIGNED = MEM_SIZE_ALIGNED \<and> P 0 = 0 \<and>
     (\<forall>p\<in>B. p < MEM_SIZE_ALIGNED \<longrightarrow>
        N p \<in> B \<and> p + SIZEOF_STRUCT_MEM + MIN_SIZE_ALIGNED \<le> N p \<and>
        (N p \<noteq> MEM_SIZE_ALIGNED \<longrightarrow> P (N p) = p) \<and> (\<forall>q\<in>B. q \<le> p \<or> N p \<le> q))"

text \<open>No two free blocks in a row, and \<open>lfree\<close> is the lowest free block or the end.\<close>

definition usage :: "nat set \<Rightarrow> (nat \<Rightarrow> nat) \<Rightarrow> (nat \<Rightarrow> nat) \<Rightarrow> nat \<Rightarrow> bool" where
  "usage B N U lf \<longleftrightarrow>
     U MEM_SIZE_ALIGNED \<noteq> 0 \<and>
     (\<forall>p\<in>B. p < MEM_SIZE_ALIGNED \<and> U p = 0 \<longrightarrow> U (N p) \<noteq> 0) \<and>
     lf \<in> B \<and> (\<forall>p\<in>B. p < lf \<longrightarrow> U p \<noteq> 0) \<and> (lf = MEM_SIZE_ALIGNED \<or> U lf = 0)"

lemma linkedD:
  assumes "linked B N P"
  shows "0 \<in> B" "10240 \<in> B" "p \<in> B \<Longrightarrow> p \<le> 10240" "p \<in> B \<Longrightarrow> p mod 4 = 0"
    "N 10240 = 10240" "P 0 = 0"
    "p \<in> B \<Longrightarrow> p < 10240 \<Longrightarrow> N p \<in> B"
    "p \<in> B \<Longrightarrow> p < 10240 \<Longrightarrow> p + 20 \<le> N p"
    "p \<in> B \<Longrightarrow> p < 10240 \<Longrightarrow> N p \<noteq> 10240 \<Longrightarrow> P (N p) = p"
    "p \<in> B \<Longrightarrow> p < 10240 \<Longrightarrow> q \<in> B \<Longrightarrow> q \<le> p \<or> N p \<le> q"
  using assms by (auto simp: linked_def)

lemma linked_sep:
  assumes "linked B N P" "p \<in> B" "q \<in> B"
  shows "p = q \<or> p + 20 \<le> q \<or> q + 20 \<le> p"
proof -
  have *: "x + 20 \<le> y" if "x \<in> B" "y \<in> B" "x < y" for x y
    using linkedD(3) [OF assms(1) that(2)] linkedD(8) [OF assms(1) that(1)]
      linkedD(10) [OF assms(1) that(1) _ that(2)] that(3) by fastforce
  show ?thesis using *[of p q] *[of q p] assms by fastforce
qed

lemma linked_apart:
  assumes "linked B N P" "p \<in> B" "q \<in> B" "p \<noteq> q"
  shows "apart p q"
  using linked_sep [OF assms(1-3)] assms(4) by (auto simp: apart_def)

lemma linked_finite: "linked B N P \<Longrightarrow> finite B"
  by (rule finite_subset [of _ "{..10240}"]) (auto dest: linkedD)

lemma linked_prev:
  assumes B: "linked B N P" and q: "q \<in> B" "q \<noteq> 0" "q \<noteq> 10240"
  shows "P q \<in> B \<and> P q < q \<and> N (P q) = q"
proof -
  define p where "p = Max {x \<in> B. x < q}"
  have fin: "finite {x \<in> B. x < q}" and ne: "{x \<in> B. x < q} \<noteq> {}"
    using linked_finite [OF B] linkedD(1) [OF B] q by auto
  have p: "p \<in> B" "p < q" using Max_in [OF fin ne] by (auto simp: p_def)
  have mx: "x \<le> p" if "x \<in> B" "x < q" for x
    unfolding p_def using Max_ge [OF fin] that by auto
  have lt: "p < 10240" using p(2) linkedD(3) [OF B q(1)] by simp
  have "N p \<le> q" using linkedD(10) [OF B p(1) lt q(1)] p(2) by simp
  moreover have "\<not> N p < q"
    using mx linkedD(7,8) [OF B p(1) lt] by fastforce
  ultimately have "N p = q" by simp
  with linkedD(9) [OF B p(1) lt] q(3) p show ?thesis by auto
qed


lemma linkedI:
  assumes "0 \<in> B" "10240 \<in> B" "\<And>p. p \<in> B \<Longrightarrow> p \<le> 10240 \<and> p mod 4 = 0"
    "N 10240 = 10240" "P 0 = 0"
    "\<And>p. p \<in> B \<Longrightarrow> p < 10240 \<Longrightarrow> N p \<in> B \<and> p + 20 \<le> N p"
    "\<And>p. p \<in> B \<Longrightarrow> p < 10240 \<Longrightarrow> N p \<noteq> 10240 \<Longrightarrow> P (N p) = p"
    "\<And>p q. p \<in> B \<Longrightarrow> p < 10240 \<Longrightarrow> q \<in> B \<Longrightarrow> q \<le> p \<or> N p \<le> q"
  shows "linked B N P"
  using assms unfolding linked_def by (simp add: add.commute [of 20])

lemma linked_cong:
  assumes B: "linked B N P" and N': "\<And>q. q \<in> B \<Longrightarrow> N' q = N q" and P': "\<And>q. q \<in> B \<Longrightarrow> P' q = P q"
  shows "linked B N' P'"
proof (rule linkedI)
  note D = linkedD [OF B]
  show "P' (N' p) = p" if "p \<in> B" "p < 10240" "N' p \<noteq> 10240" for p
    using D(9) [OF that(1,2)] that N' [of p] P' [OF D(7) [OF that(1,2)]] by simp
  show "q \<le> p \<or> N' p \<le> q" if "p \<in> B" "p < 10240" "q \<in> B" for p q
    using D(10) [OF that] N' [OF that(1)] by simp
qed (use linkedD [OF B] N' P' in auto)

text \<open>Inserting a struct at \<open>r\<close> inside the block at \<open>p\<close>.\<close>

lemma linked_split:
  assumes B: "linked B N P" and p: "p \<in> B" "p < 10240"
    and r: "p + 20 \<le> r" "r + 20 \<le> N p" "r mod 4 = 0"
    and N': "N' r = N p" "N' p = r" "\<And>q. q \<in> B \<Longrightarrow> q \<noteq> p \<Longrightarrow> N' q = N q"
    and P': "P' r = p" "N p \<noteq> 10240 \<Longrightarrow> P' (N p) = r"
      "\<And>q. q \<in> B \<Longrightarrow> q \<noteq> N p \<Longrightarrow> P' q = P q"
  shows "linked (insert r B) N' P'"
proof (rule linkedI)
  note D = linkedD [OF B]
  have Np: "N p \<in> B" "N p \<le> 10240" using D(3,7) p by auto
  have rB: "r \<notin> B" using D(10) [OF p, of r] r by auto
  have r0: "0 < N p" and r1: "r \<le> 10240" using r Np by simp_all
  show "0 \<in> insert r B" "10240 \<in> insert r B" using D by auto
  show "N' 10240 = 10240" using N'(3) [of 10240] D(2,5) p by simp
  show "P' 0 = 0" using P'(3) [of 0] D(1,6) r0 by simp
  show "q \<le> 10240 \<and> q mod 4 = 0" if "q \<in> insert r B" for q
    using that D(3,4) r(3) r1 by auto
  show "N' q \<in> insert r B \<and> q + 20 \<le> N' q" if "q \<in> insert r B" "q < 10240" for q
    using that N' r Np D(7,8) by (cases "q = r"; cases "q = p") auto
  show "P' (N' q) = q" if q: "q \<in> insert r B" "q < 10240" "N' q \<noteq> 10240" for q
  proof (cases "q = r \<or> q = p")
    case True
    then show ?thesis using q N' P' by auto
  next
    case False
    then have qB: "q \<in> B" and Nq: "N' q = N q" using q N' by auto
    have "N q \<noteq> N p"
      using D(10) [OF qB q(2) p(1)] D(10) [OF p qB] D(8) [OF qB q(2)] D(8) [OF p] False by auto
    then show ?thesis using P'(3) [OF D(7) [OF qB q(2)]] D(9) [OF qB q(2)] Nq q(3) by simp
  qed
  show "q \<le> x \<or> N' x \<le> q" if x: "x \<in> insert r B" "x < 10240" "q \<in> insert r B" for x q
  proof -
    have rx: "r \<le> x \<or> N x \<le> r" if "x \<in> B" "x \<noteq> p"
      using D(10) [OF that(1) x(2) p(1)] D(10) [OF p that(1)] r D(8) [OF that(1) x(2)] that(2) by auto
    consider "x = r" | "x = p" | "x \<in> B" "x \<noteq> p" "x \<noteq> r" using x by auto
    then show ?thesis
    proof cases
      case 1 then show ?thesis using x(3) N'(1) D(10) [OF p, of q] r by auto
    next
      case 2 then show ?thesis using x(3) N'(2) D(10) [OF p, of q] r by auto
    next
      case 3 then show ?thesis using x(3) N'(3) [of x] D(10) [of x q] rx x(2) by auto
    qed
  qed
qed

text \<open>Removing the struct at \<open>n\<close>, the successor of \<open>p\<close>.\<close>

lemma linked_merge:
  assumes B: "linked B N P" and p: "p \<in> B" "p < 10240" and n: "n = N p" "n \<noteq> 10240"
    and N': "N' p = N n" "\<And>q. q \<in> B \<Longrightarrow> q \<noteq> p \<Longrightarrow> q \<noteq> n \<Longrightarrow> N' q = N q"
    and P': "N n \<noteq> 10240 \<Longrightarrow> P' (N n) = p"
      "\<And>q. q \<in> B \<Longrightarrow> q \<noteq> n \<Longrightarrow> q \<noteq> N n \<Longrightarrow> P' q = P q"
  shows "linked (B - {n}) N' P'"
proof (rule linkedI)
  note D = linkedD [OF B]
  have nB: "n \<in> B" "n < 10240" using D(3,7) p n by (auto simp: le_neq_implies_less)
  have Nn: "N n \<in> B" "n + 20 \<le> N n" "p + 20 \<le> n" using D(7,8) nB p n by auto
  show "0 \<in> B - {n}" "10240 \<in> B - {n}" using D(1,2) n Nn by auto
  show "N' 10240 = 10240" using N'(2) [of 10240] D(2,5) p n nB by simp
  show "P' 0 = 0" using P'(2) [of 0] D(1,6) Nn by simp
  show "q \<le> 10240 \<and> q mod 4 = 0" if "q \<in> B - {n}" for q
    using that D(3,4) by auto
  have Nne: "N q \<noteq> n" if "q \<in> B" "q < 10240" "q \<noteq> p" for q
  proof
    assume "N q = n"
    with D(10) [OF that(1,2) p(1)] D(10) [OF p that(1)] D(8) [OF that(1,2)] Nn(3) n(1) that(3)
    show False by (elim disjE) linarith+
  qed
  show "N' q \<in> B - {n} \<and> q + 20 \<le> N' q" if q: "q \<in> B - {n}" "q < 10240" for q
    using q N'(1) N'(2) [of q] Nn Nne [of q] D(7,8) [of q] by (cases "q = p") auto
  show "P' (N' q) = q" if q: "q \<in> B - {n}" "q < 10240" "N' q \<noteq> 10240" for q
  proof (cases "q = p")
    case True
    then show ?thesis using q(3) N'(1) P'(1) by simp
  next
    case False
    then have qB: "q \<in> B" "q \<noteq> n" and Nq: "N' q = N q" using q N'(2) [of q] by auto
    have "N q \<noteq> N n"
    proof
      assume "N q = N n"
      with D(10) [OF qB(1) q(2) nB(1)] D(10) [OF nB qB(1)] D(8) [OF qB(1) q(2)] Nn(2) qB(2)
      show False by (elim disjE) linarith+
    qed
    then show ?thesis
      using P'(2) [OF D(7) [OF qB(1) q(2)]] Nne [OF qB(1) q(2) False] D(9) [OF qB(1) q(2)] Nq q(3)
      by simp
  qed
  show "q \<le> x \<or> N' x \<le> q" if x: "x \<in> B - {n}" "x < 10240" "q \<in> B - {n}" for x q
  proof (cases "x = p")
    case True
    then show ?thesis using x(3) N'(1) D(10) [OF p, of q] D(10) [OF nB, of q] Nn n by auto
  next
    case False
    then show ?thesis using x N'(2) [of x] D(10) [of x q] by auto
  qed
qed


section \<open>The invariant\<close>

definition heap_ok :: "nat set \<Rightarrow> mem_state \<Rightarrow> bool" where
  "heap_ok B s \<longleftrightarrow>
     linked B (mem_next s) (mem_prev s) \<and> usage B (mem_next s) (mem_used_at s) (lfree s) \<and>
     ram_end s = MEM_SIZE_ALIGNED"

text \<open>The blocks are found by walking the list from offset 0; the guard only makes the walk
  total on arbitrary memory.\<close>

function mem_walk :: "mem_state \<Rightarrow> nat \<Rightarrow> nat list" where
  "mem_walk s p =
     (if p < MEM_SIZE_ALIGNED \<and> p < mem_next s p then p # mem_walk s (mem_next s p) else [p])"
  by pat_completeness auto
termination
  by (relation "measure (\<lambda>(s, p). MEM_SIZE_ALIGNED - p)") auto

declare mem_walk.simps [simp del]

definition mem_blocks :: "mem_state \<Rightarrow> nat set" where
  "mem_blocks s = set (mem_walk s 0)"

definition mem_inv :: "mem_state \<Rightarrow> bool" where
  "mem_inv s \<longleftrightarrow> heap_ok (mem_blocks s) s"

text \<open>The allocated blocks: data offset and data size.\<close>

definition mem_live :: "mem_state \<Rightarrow> nat \<Rightarrow> nat option" where
  "mem_live s p =
     (if SIZEOF_STRUCT_MEM \<le> p \<and> p - SIZEOF_STRUCT_MEM \<in> mem_blocks s \<and>
         p - SIZEOF_STRUCT_MEM < MEM_SIZE_ALIGNED \<and> mem_used_at s (p - SIZEOF_STRUCT_MEM) \<noteq> 0
      then Some (mem_next s (p - SIZEOF_STRUCT_MEM) - p) else None)"

lemma walk_linked:
  "linked B (mem_next s) P \<Longrightarrow> p \<in> B \<Longrightarrow> set (mem_walk s p) = {q \<in> B. p \<le> q}"
proof (induction s p rule: mem_walk.induct)
  case (1 s p)
  note D = linkedD [OF "1.prems"(1)] and p = "1.prems"(2)
  show ?case
  proof (cases "p < 10240")
    case True
    with D(7,8) p have N: "mem_next s p \<in> B" "p + 20 \<le> mem_next s p" by auto
    with True "1.IH" "1.prems"(1)
    have "set (mem_walk s (mem_next s p)) = {q \<in> B. mem_next s p \<le> q}" by simp
    moreover have "{q \<in> B. p \<le> q} = insert p {q \<in> B. mem_next s p \<le> q}"
      using D(10) [OF p True] N p by force
    ultimately show ?thesis using True N by (simp add: mem_walk.simps [of s p])
  next
    case False
    with D(3) p have eq: "p = 10240" by (simp add: le_antisym)
    have "{q \<in> B. p \<le> q} = {p}" using D(3) p eq by (auto simp: le_antisym)
    with eq show ?thesis by (simp add: mem_walk.simps [of s 10240])
  qed
qed

lemma heap_ok_blocks: "heap_ok B s \<Longrightarrow> mem_blocks s = B"
  using walk_linked [of B s "mem_prev s" 0] linkedD(1) [of B "mem_next s" "mem_prev s"]
  by (simp add: heap_ok_def mem_blocks_def)

lemma heap_ok_mem_inv: "heap_ok B s \<Longrightarrow> mem_inv s"
  using heap_ok_blocks [of B s] by (simp add: mem_inv_def)

lemma mem_live_iff:
  assumes "heap_ok B s"
  shows "mem_live s p = Some n \<longleftrightarrow>
    (\<exists>b\<in>B. b < 10240 \<and> mem_used_at s b \<noteq> 0 \<and> p = b + 8 \<and> n = mem_next s b - p)"
proof -
  have "(8 \<le> p \<and> p - 8 \<in> B \<and> p - 8 < 10240 \<and> mem_used_at s (p - 8) \<noteq> 0) \<and>
        n = mem_next s (p - 8) - p \<longleftrightarrow>
    (\<exists>b\<in>B. b < 10240 \<and> mem_used_at s b \<noteq> 0 \<and> p = b + 8 \<and> n = mem_next s b - p)"
    by (cases "8 \<le> p") (auto intro: bexI [of _ "p - 8"])
  then show ?thesis
    by (auto simp: mem_live_def heap_ok_blocks [OF assms])
qed


section \<open>The loops of \<open>mem_malloc\<close>\<close>

text \<open>On a well-formed list the search returns, and it returns the first free block that is
  big enough, if there is one.\<close>

definition fits :: "mem_state \<Rightarrow> nat \<Rightarrow> nat \<Rightarrow> bool" where
  "fits s sz p \<longleftrightarrow> mem_used_at s p = 0 \<and> p + 8 + sz \<le> mem_next s p"

lemma fits_scan_test:
  assumes "linked B (mem_next s) P" "p \<in> B" "p < 10240"
  shows "(mem_used_at s p = 0 \<and> sz \<le> sub32 (mem_next s p) (p + 8)) \<longleftrightarrow> fits s sz p"
proof -
  have "p + 20 \<le> mem_next s p" using linkedD(8) [OF assms] .
  then have "sub32 (mem_next s p) (p + 8) = mem_next s p - (p + 8)"
    using mem_next_less [of s p] by (intro sub32_id) linarith+
  with \<open>p + 20 \<le> mem_next s p\<close> show ?thesis by (auto simp: fits_def)
qed

lemma mem_scan_first_fit:
  assumes B: "linked B (mem_next s) P"
  shows "p \<in> B \<Longrightarrow> \<exists>r. mem_scan s sz p = Some r \<and>
    (case r of
       None \<Rightarrow> \<forall>q\<in>B. p \<le> q \<and> q < 10240 \<longrightarrow> \<not> fits s sz q
     | Some b \<Rightarrow> b \<in> B \<and> p \<le> b \<and> b < 10240 \<and> fits s sz b \<and>
         (\<forall>q\<in>B. p \<le> q \<and> q < b \<longrightarrow> \<not> fits s sz q))"
proof (induction "10240 - p" arbitrary: p rule: less_induct)
  case less
  note D = linkedD [OF B]
  show ?case
  proof (cases "p < 10240 - sz")
    case False
    have "\<not> fits s sz q" if q: "q \<in> B" "p \<le> q" "q < 10240" for q
      using D(3) [OF D(7) [OF q(1,3)]] False q by (auto simp: fits_def)
    with False show ?thesis by (simp add: mem_scan.simps [of s sz p])
  next
    case True
    then have p: "p < 10240" by simp
    note test = fits_scan_test [OF B less.prems p, of sz]
    show ?thesis
    proof (cases "fits s sz p")
      case fit: True
      with True test have "mem_scan s sz p = Some (Some p)"
        by (simp add: mem_scan.simps [of s sz p])
      with fit p less.prems show ?thesis by auto
    next
      case nofit: False
      have N: "mem_next s p \<in> B" "p + 20 \<le> mem_next s p" using D(7,8) [OF less.prems p] by auto
      have le: "p \<le> q \<longleftrightarrow> q = p \<or> mem_next s p \<le> q" if "q \<in> B" for q
        using D(10) [OF less.prems p that] N(2) by auto
      have "10240 - mem_next s p < 10240 - p" using N p by simp
      from less.hyps [OF this N(1)] obtain r where r: "mem_scan s sz (mem_next s p) = Some r"
        and post: "case r of
            None \<Rightarrow> \<forall>q\<in>B. mem_next s p \<le> q \<and> q < 10240 \<longrightarrow> \<not> fits s sz q
          | Some b \<Rightarrow> b \<in> B \<and> mem_next s p \<le> b \<and> b < 10240 \<and> fits s sz b \<and>
              (\<forall>q\<in>B. mem_next s p \<le> q \<and> q < b \<longrightarrow> \<not> fits s sz q)"
        by blast
      have "mem_scan s sz p = Some r"
        using True test nofit r by (auto simp: mem_scan.simps [of s sz p])
      moreover from post nofit le N(2) have "case r of
            None \<Rightarrow> \<forall>q\<in>B. p \<le> q \<and> q < 10240 \<longrightarrow> \<not> fits s sz q
          | Some b \<Rightarrow> b \<in> B \<and> p \<le> b \<and> b < 10240 \<and> fits s sz b \<and>
              (\<forall>q\<in>B. p \<le> q \<and> q < b \<longrightarrow> \<not> fits s sz q)"
        by (auto split: option.splits)
      ultimately show ?thesis by blast
    qed
  qed
qed

lemma mem_next_free_lowest:
  assumes B: "linked B (mem_next s) P" and r: "ram_end s = 10240"
  shows "p \<in> B \<Longrightarrow> \<exists>q\<in>B. mem_next_free s p = Some q \<and> p \<le> q \<and>
    (q = 10240 \<or> mem_used_at s q = 0) \<and> (\<forall>x\<in>B. p \<le> x \<and> x < q \<longrightarrow> mem_used_at s x \<noteq> 0)"
proof (induction "10240 - p" arbitrary: p rule: less_induct)
  case less
  note D = linkedD [OF B]
  show ?case
  proof (cases "mem_used_at s p \<noteq> 0 \<and> p \<noteq> 10240")
    case False
    then show ?thesis using less.prems r
      by (auto simp: mem_next_free.simps [of s p] intro!: bexI [of _ p])
  next
    case True
    then have p: "p < 10240" using D(3) [OF less.prems] by simp
    have N: "mem_next s p \<in> B" "p + 20 \<le> mem_next s p" using D(7,8) [OF less.prems p] by auto
    have le: "p \<le> x \<longleftrightarrow> x = p \<or> mem_next s p \<le> x" if "x \<in> B" for x
      using D(10) [OF less.prems p that] N(2) by auto
    have "10240 - mem_next s p < 10240 - p" using N p by simp
    from less.hyps [OF this N(1)] obtain q where q: "q \<in> B" "mem_next_free s (mem_next s p) = Some q"
      "mem_next s p \<le> q" "q = 10240 \<or> mem_used_at s q = 0"
      "\<forall>x\<in>B. mem_next s p \<le> x \<and> x < q \<longrightarrow> mem_used_at s x \<noteq> 0" by blast
    have "mem_next_free s p = Some q"
      using True q r by (simp add: mem_next_free.simps [of s p])
    with q le N(2) True show ?thesis by (intro bexI [of _ q]) auto
  qed
qed

section \<open>Allocation\<close>

text \<open>What \<open>mem_take\<close> writes when it splits the block at \<open>b\<close>.\<close>

lemma mem_take_split_hdr:
  assumes B: "linked B (mem_next s) (mem_prev s)" and b: "b \<in> B" "b < 10240"
    and room: "b + 8 + sz + 20 \<le> mem_next s b"
    and r: "r = b + 8 + sz" "b + 20 \<le> r" and s': "s' = mem_take b sz s"
  shows "mem_next s' r = mem_next s b" "mem_next s' b = r"
    "mem_prev s' r = b" "mem_next s b \<noteq> 10240 \<Longrightarrow> mem_prev s' (mem_next s b) = r"
    "mem_used_at s' r = 0" "mem_used_at s' b = 1"
    "lfree s' = lfree s" "ram_end s' = ram_end s"
    "\<And>q. q \<in> B \<Longrightarrow> q \<noteq> b \<Longrightarrow> mem_next s' q = mem_next s q"
    "\<And>q. q \<in> B \<Longrightarrow> q \<noteq> mem_next s b \<Longrightarrow> mem_prev s' q = mem_prev s q"
    "\<And>q. q \<in> B \<Longrightarrow> q \<noteq> b \<Longrightarrow> mem_used_at s' q = mem_used_at s q"
    "\<And>a. (\<forall>q\<in>B. a < q \<or> q + 8 \<le> a) \<Longrightarrow> a < r \<or> r + 8 \<le> a \<Longrightarrow> ram s' a = ram s a"
proof -
  note D = linkedD [OF B]
  let ?n = "mem_next s b"
  have n: "?n \<in> B" "?n \<le> 10240" using D(3,7) b by auto
  have lt: "?n < 65536" "r < 65536" "b < 65536" using n b room r by simp_all
  have ap: "apart b r" "apart r b" "apart ?n r" "apart r ?n" "apart ?n b" "apart b ?n"
    using room r by (auto simp: apart_def)
  have apq: "apart q r" if "q \<in> B" for q
    using D(10) [OF b that] room r by (auto simp: apart_def)
  have apb: "apart q b" if "q \<in> B" "q \<noteq> b" for q using linked_apart [OF B that(1) b(1) that(2)] .
  have apn: "apart q ?n" if "q \<in> B" "q \<noteq> ?n" for q using linked_apart [OF B that(1) n(1) that(2)] .
  have sub: "sub32 ?n (b + 8) = ?n - (b + 8)" using room n(2) by (intro sub32_id) linarith+
  have cond: "sz + 8 + 12 \<le> sub32 ?n (b + 8)" using sub room by simp
  have ur: "u16 (b + 8 + sz) = r" using lt(2) r(1) by (simp add: u16_id)
  define t where "t = set_used b 1 (set_next b r (set_prev r b (set_next r ?n (set_used r 0 s))))"
  have tr: "mem_next t r = ?n" "mem_next t b = r" "mem_prev t r = b" "mem_used_at t r = 0"
      "mem_used_at t b = 1" "lfree t = lfree s" "ram_end t = ram_end s" "mem_prev t b = mem_prev s b"
    using ap(1,2) lt by (simp_all add: t_def mem_access u16_id)
  have tq: "mem_next t q = mem_next s q" "mem_used_at t q = mem_used_at s q"
      "mem_prev t q = mem_prev s q" if "q \<in> B" "q \<noteq> b" for q
    using apq [OF that(1)] apb [OF that] by (simp_all add: t_def mem_access)
  have e: "s' = stats_inc_used (sz + 8) (if ?n = 10240 then t else set_prev ?n r t)"
    unfolding s' mem_take_def mem_consts if_P [OF cond] Let_def ur
    using tr(1) ap(1) by (simp add: t_def mem_access)
  show "mem_next s' r = ?n" "mem_next s' b = r" "mem_prev s' r = b" "mem_used_at s' r = 0"
    "mem_used_at s' b = 1" "lfree s' = lfree s" "ram_end s' = ram_end s"
    using ap tr by (simp_all add: e mem_access)
  show "mem_prev s' ?n = r" if "?n \<noteq> 10240"
    using lt that by (simp add: e mem_access u16_id)
  show "mem_next s' q = mem_next s q" if "q \<in> B" "q \<noteq> b" for q
    using tq [OF that] apn [OF that(1)] by (cases "q = ?n") (auto simp: e mem_access)
  show "mem_used_at s' q = mem_used_at s q" if "q \<in> B" "q \<noteq> b" for q
    using tq [OF that] apn [OF that(1)] by (cases "q = ?n") (auto simp: e mem_access)
  show "mem_prev s' q = mem_prev s q" if "q \<in> B" "q \<noteq> ?n" for q
    using tq [OF that(1)] tr(8) apn [OF that] by (cases "q = b") (simp_all add: e mem_access)
  show "ram s' a = ram s a" if "\<forall>q\<in>B. a < q \<or> q + 8 \<le> a" "a < r \<or> r + 8 \<le> a" for a
  proof -
    have "a < b \<or> b + 8 \<le> a" "a < ?n \<or> ?n + 8 \<le> a" using that(1) b(1) n(1) by blast+
    with that(2) show ?thesis
      by (auto simp: e t_def mem_access set_next_def set_prev_def set_used_def)
  qed
qed

lemma mem_take_whole_hdr:
  assumes B: "linked B (mem_next s) (mem_prev s)" and b: "b \<in> B" "b < 10240"
    and room: "\<not> b + 8 + sz + 20 \<le> mem_next s b" and s': "s' = mem_take b sz s"
  shows "mem_used_at s' b = 1" "lfree s' = lfree s" "ram_end s' = ram_end s"
    "\<And>q. q \<in> B \<Longrightarrow> mem_next s' q = mem_next s q"
    "\<And>q. q \<in> B \<Longrightarrow> mem_prev s' q = mem_prev s q"
    "\<And>q. q \<in> B \<Longrightarrow> q \<noteq> b \<Longrightarrow> mem_used_at s' q = mem_used_at s q"
    "\<And>a. (\<forall>q\<in>B. a < q \<or> q + 8 \<le> a) \<Longrightarrow> ram s' a = ram s a"
proof -
  note D = linkedD [OF B]
  let ?n = "mem_next s b"
  have n: "b + 20 \<le> ?n" "?n \<le> 10240" using D(3,7,8) b by auto
  have "sub32 ?n (b + 8) = ?n - (b + 8)" using n by (intro sub32_id) linarith+
  then have cond: "\<not> sz + 8 + 12 \<le> sub32 ?n (b + 8)" using room n by simp
  have s'': "s' = stats_inc_used (sub16 (mem_next (set_used b 1 s) b) b) (set_used b 1 s)"
    using cond by (simp add: s' mem_take_def Let_def)
  have apb: "apart q b" if "q \<in> B" "q \<noteq> b" for q using linked_apart [OF B that(1) b(1) that(2)] .
  show "mem_used_at s' b = 1" "lfree s' = lfree s" "ram_end s' = ram_end s"
    by (simp_all add: s'' mem_access)
  show "mem_next s' q = mem_next s q" "mem_prev s' q = mem_prev s q" if "q \<in> B" for q
    using apb [OF that] by (cases "q = b"; simp add: s'' mem_access)+
  show "mem_used_at s' q = mem_used_at s q" if "q \<in> B" "q \<noteq> b" for q
    using apb [OF that] by (simp add: s'' mem_access)
  show "ram s' a = ram s a" if "\<forall>q\<in>B. a < q \<or> q + 8 \<le> a" for a
    using that b(1) by (auto simp: s'' mem_access set_used_def)
qed

text \<open>A data byte of a used block is not part of any struct of the list.\<close>

lemma data_outside_structs:
  assumes B: "linked B N P" and b: "b \<in> B" "b < 10240" and a: "b + 8 \<le> a" "a < N b"
  shows "\<forall>q\<in>B. a < q \<or> q + 8 \<le> a"
proof
  fix q assume q: "q \<in> B"
  from linkedD(10) [OF B b q] linked_sep [OF B q b(1)] a
  show "a < q \<or> q + 8 \<le> a" by auto
qed

text \<open>The heap after \<open>mem_take\<close>: the same list, with a new free block behind \<open>b\<close> when it
  was split; \<open>lfree\<close> has not been moved yet.\<close>

definition taken :: "nat set \<Rightarrow> mem_state \<Rightarrow> nat \<Rightarrow> nat \<Rightarrow> nat set \<Rightarrow> mem_state \<Rightarrow> bool" where
  "taken B s b sz B' t \<longleftrightarrow>
     linked B' (mem_next t) (mem_prev t) \<and> B \<subseteq> B' \<and> mem_used_at t 10240 \<noteq> 0 \<and>
     (\<forall>p\<in>B'. p < 10240 \<and> mem_used_at t p = 0 \<longrightarrow> mem_used_at t (mem_next t p) \<noteq> 0) \<and>
     mem_used_at t b = 1 \<and> b + 8 + sz \<le> mem_next t b \<and> mem_next t b < b + 8 + sz + 20 \<and> lfree t = lfree s \<and> ram_end t = 10240 \<and>
     (\<forall>q\<in>B'. q \<notin> B \<longrightarrow> b < q \<and> mem_used_at t q = 0) \<and>
     (\<forall>q\<in>B. q \<noteq> b \<longrightarrow> mem_next t q = mem_next s q \<and> mem_used_at t q = mem_used_at s q) \<and>
     (\<forall>q\<in>B. \<forall>a. q < 10240 \<and> q \<noteq> b \<and> q + 8 \<le> a \<and> a < mem_next s q \<longrightarrow> ram t a = ram s a)"

lemma taken_waste: "taken B s b sz B' t \<Longrightarrow> mem_next t b < b + 8 + sz + 20"
  by (simp add: taken_def)

lemma takenD:
  assumes "taken B s b sz B' t"
  shows "linked B' (mem_next t) (mem_prev t)" "B \<subseteq> B'" "mem_used_at t 10240 \<noteq> 0"
    "\<forall>p\<in>B'. p < 10240 \<and> mem_used_at t p = 0 \<longrightarrow> mem_used_at t (mem_next t p) \<noteq> 0"
    "mem_used_at t b = 1" "b + 8 + sz \<le> mem_next t b" "lfree t = lfree s" "ram_end t = 10240"
    "\<forall>q\<in>B'. q \<notin> B \<longrightarrow> b < q \<and> mem_used_at t q = 0"
    "\<forall>q\<in>B. q \<noteq> b \<longrightarrow> mem_next t q = mem_next s q \<and> mem_used_at t q = mem_used_at s q"
    "\<forall>q\<in>B. \<forall>a. q < 10240 \<and> q \<noteq> b \<and> q + 8 \<le> a \<and> a < mem_next s q \<longrightarrow> ram t a = ram s a"
  using assms unfolding taken_def by blast+

lemma mem_take_split_taken:
  assumes ok: "heap_ok B s" and b: "b \<in> B" "b < 10240" and free: "mem_used_at s b = 0"
    and room: "b + 8 + sz + 20 \<le> mem_next s b" and sz: "12 \<le> sz" "sz mod 4 = 0"
  shows "taken B s b sz (insert (b + 8 + sz) B) (mem_take b sz s)"
proof -
  let ?N = "mem_next s" and ?U = "mem_used_at s"
  define s' r where "s' = mem_take b sz s" and "r = b + 8 + sz"
  have B: "linked B ?N (mem_prev s)" and u: "usage B ?N ?U (lfree s)" and re: "ram_end s = 10240"
    using ok by (simp_all add: heap_ok_def)
  note D = linkedD [OF B]
  have uE: "?U 10240 \<noteq> 0" using u by (simp add: usage_def)
  have adj: "?U (?N p) \<noteq> 0" if "p \<in> B" "p < 10240" "?U p = 0" for p
    using u that by (auto simp: usage_def)
  have Nb: "?N b \<in> B" using D(7) b .
  have r: "r = b + 8 + sz" "b + 20 \<le> r" using sz by (simp_all add: r_def)
  note h = mem_take_split_hdr [OF B b room r s'_def]
  have r4: "r mod 4 = 0" "r + 20 \<le> ?N b" "b < r"
    using sz D(4) [OF b(1)] room r by (simp_all add: mod_add_eq [symmetric])
  have rB: "r \<notin> B" using D(10) [OF b, of r] r4 by auto
  have L: "linked (insert r B) (mem_next s') (mem_prev s')"
    using linked_split [OF B b r(2) r4(2,1) h(1,2)] h(3,4,9,10) by blast
  have F: "mem_used_at s' (mem_next s' p) \<noteq> 0"
    if p: "p \<in> insert r B" "p < 10240" "mem_used_at s' p = 0" for p
  proof (cases "p = r")
    case True
    then show ?thesis using adj [OF b free] h(1,6) h(11) [OF Nb] by (cases "?N b = b") auto
  next
    case False
    with p h(6) have pB: "p \<in> B" "p \<noteq> b" by auto
    with p h(9,11) adj have "?U (?N p) \<noteq> 0" by auto
    then show ?thesis using pB h(6) h(9) [of p] h(11) [OF D(7) [OF pB(1) p(2)]]
      by (cases "?N p = b") auto
  qed
  have K: "ram s' a = ram s a" if q: "q \<in> B" "q < 10240" "q \<noteq> b" "q + 8 \<le> a" "a < ?N q" for q a
  proof (rule h(12) [OF data_outside_structs [OF B q(1,2,4,5)]])
    show "a < r \<or> r + 8 \<le> a" using D(10) [of q b] D(10) [OF b, of q] q b r4 by auto
  qed
  have "taken B s b sz (insert r B) s'"
    unfolding taken_def using L F K uE h(2,5-9,11) h(11) [OF D(2)] r rB r4(3) b re room by auto
  then show ?thesis by (simp add: s'_def r_def)
qed

lemma mem_take_whole_taken:
  assumes ok: "heap_ok B s" and b: "b \<in> B" "b < 10240" and fit: "fits s sz b"
    and room: "\<not> b + 8 + sz + 20 \<le> mem_next s b"
  shows "taken B s b sz B (mem_take b sz s)"
proof -
  let ?N = "mem_next s" and ?U = "mem_used_at s"
  define s' where "s' = mem_take b sz s"
  have B: "linked B ?N (mem_prev s)" and u: "usage B ?N ?U (lfree s)" and re: "ram_end s = 10240"
    using ok by (simp_all add: heap_ok_def)
  note D = linkedD [OF B]
  have uE: "?U 10240 \<noteq> 0" using u by (simp add: usage_def)
  have adj: "?U (?N p) \<noteq> 0" if "p \<in> B" "p < 10240" "?U p = 0" for p
    using u that by (auto simp: usage_def)
  note h = mem_take_whole_hdr [OF B b room s'_def]
  have L: "linked B (mem_next s') (mem_prev s')" by (rule linked_cong [OF B h(4,5)])
  have F: "mem_used_at s' (mem_next s' p) \<noteq> 0"
    if p: "p \<in> B" "p < 10240" "mem_used_at s' p = 0" for p
  proof -
    from p h(1) have "p \<noteq> b" by auto
    with p h(6) adj have "?U (?N p) \<noteq> 0" by auto
    then show ?thesis using p h(1,4) h(6) [OF D(7), of p] by (cases "?N p = b") auto
  qed
  have K: "ram s' a = ram s a" if q: "q \<in> B" "q < 10240" "q \<noteq> b" "q + 8 \<le> a" "a < ?N q" for q a
    by (rule h(7) [OF data_outside_structs [OF B q(1,2,4,5)]])
  have "taken B s b sz B s'"
    unfolding taken_def using L F K uE h(1-4,6) h(6) [OF D(2)] b re fit room by (auto simp: fits_def)
  then show ?thesis by (simp add: s'_def)
qed

lemma mem_take_spec:
  assumes "heap_ok B s" "b \<in> B" "b < 10240" "fits s sz b" "12 \<le> sz" "sz mod 4 = 0"
  shows "\<exists>B'. taken B s b sz B' (mem_take b sz s)"
proof (cases "b + 8 + sz + 20 \<le> mem_next s b")
  case True
  from assms(4) have "mem_used_at s b = 0" by (simp add: fits_def)
  from mem_take_split_taken [OF assms(1-3) this True assms(5,6)] show ?thesis by blast
next
  case False
  from mem_take_whole_taken [OF assms(1-4) False] show ?thesis by blast
qed

text \<open>The size a request is rounded to.\<close>

definition mem_round :: "nat \<Rightarrow> nat" where
  "mem_round sz = (let sz = u16 (LWIP_MEM_ALIGN_SIZE sz)
     in if sz < MIN_SIZE_ALIGNED then MIN_SIZE_ALIGNED else sz)"

lemma align_size: "sz < 65536 \<Longrightarrow> LWIP_MEM_ALIGN_SIZE sz = 4 * ((sz + 3) div 4)"
  by (simp add: LWIP_MEM_ALIGN_SIZE_def Let_def u32_id minus_mod_eq_mult_div)

lemma mem_round_props:
  assumes "sz < 65536"
  shows "12 \<le> mem_round sz" "mem_round sz mod 4 = 0" "sz \<le> 65532 \<Longrightarrow> sz \<le> mem_round sz"
proof -
  have *: "u16 (4 * k) mod 4 = 0" for k
    by (simp add: u16_def mod_mod_cancel)
  show "12 \<le> mem_round sz" by (simp add: mem_round_def Let_def)
  show "mem_round sz mod 4 = 0"
    by (simp add: mem_round_def Let_def align_size [OF assms] *)
  show "sz \<le> mem_round sz" if "sz \<le> 65532"
  proof -
    have "4 * ((sz + 3) div 4) < 65536" "sz \<le> 4 * ((sz + 3) div 4)" using that by linarith+
    then show ?thesis by (simp add: mem_round_def Let_def align_size [OF assms] u16_id)
  qed
qed

lemma live_data_kept:
  assumes ok: "heap_ok B s" and live: "mem_live s q = Some m" and i: "i < m"
    and kept: "\<forall>b\<in>B. \<forall>a. b < 10240 \<and> mem_used_at s b \<noteq> 0 \<and> b + 8 \<le> a \<and> a < mem_next s b
      \<longrightarrow> ram s' a = ram s a"
  shows "ram s' (q + i) = ram s (q + i)"
  using kept i live by (auto simp: mem_live_iff [OF ok])

text \<open>Moving \<open>lfree\<close> after block \<open>b\<close> of the list \<open>B'\<close> was taken.\<close>

lemma lfree_after_take:
  assumes L: "linked B' (mem_next t) (mem_prev t)" and re: "ram_end t = 10240"
    and uE: "mem_used_at t 10240 \<noteq> 0"
    and adj: "\<forall>p\<in>B'. p < 10240 \<and> mem_used_at t p = 0 \<longrightarrow> mem_used_at t (mem_next t p) \<noteq> 0"
    and lf: "lfree t \<in> B'" "\<forall>p\<in>B'. p < lfree t \<longrightarrow> mem_used_at t p \<noteq> 0"
    and lb: "b \<noteq> lfree t \<Longrightarrow> mem_used_at t (lfree t) = 0"
  obtains t' where "(if b = lfree t then do {
         cur \<leftarrow> mem_next_free t (lfree t);
         let t = t\<lparr>lfree := cur\<rparr>;
         lwip_assert (lfree t = ram_end t \<or> mem_used_at t (lfree t) = 0);
         Some t } else Some t) = Some t'" "heap_ok B' t'" "ram t' = ram t"
proof (cases "b = lfree t")
  case True
  obtain q where q: "q \<in> B'" "mem_next_free t (lfree t) = Some q" "lfree t \<le> q"
    "q = 10240 \<or> mem_used_at t q = 0" "\<forall>x\<in>B'. lfree t \<le> x \<and> x < q \<longrightarrow> mem_used_at t x \<noteq> 0"
    using mem_next_free_lowest [OF L re lf(1)] by blast
  have "\<forall>x\<in>B'. x < q \<longrightarrow> mem_used_at t x \<noteq> 0" using q(5) lf(2) by (meson leI)
  then have "heap_ok B' (t\<lparr>lfree := q\<rparr>)"
    using L re uE adj q(1,4)
    by (simp add: heap_ok_def usage_def mem_access)
  with True q re show ?thesis
    by (intro that [of "t\<lparr>lfree := q\<rparr>"]) (auto simp: mem_access)
next
  case False
  then have "heap_ok B' t" using L re uE adj lf lb by (simp add: heap_ok_def usage_def)
  with False show ?thesis by (intro that [of t]) auto
qed


lemma map_eqI: "(\<And>p m. f p = Some m \<longleftrightarrow> g p = Some m) \<Longrightarrow> f = g"
  by (rule ext) (metis option.exhaust)

definition adjust_lfree :: "nat \<Rightarrow> mem_state \<Rightarrow> mem_state option" where
  "adjust_lfree b t = (if b = lfree t then do {
     cur \<leftarrow> mem_next_free t (lfree t);
     let t = t\<lparr>lfree := cur\<rparr>;
     lwip_assert (lfree t = ram_end t \<or> mem_used_at t (lfree t) = 0);
     Some t } else Some t)"

lemma mem_malloc_unfold:
  assumes "0 < sz"
  shows "mem_malloc sz s = (if 10240 < mem_round sz then Some (None, s) else do {
      found \<leftarrow> mem_scan s (mem_round sz) (lfree s);
      case found of
        None \<Rightarrow> Some (None, stats_inc_err s)
      | Some b \<Rightarrow> do {
          t \<leftarrow> adjust_lfree b (mem_take b (mem_round sz) s);
          lwip_assert (b + 8 + mem_round sz \<le> ram_end t);
          lwip_assert ((b + 8) mod 4 = 0);
          lwip_assert (b mod 4 = 0);
          Some (Some (int (b + 8)), t) } })"
  using assms unfolding mem_malloc_def mem_round_def adjust_lfree_def
  by (simp only: Let_def mem_consts) simp

text \<open>Taking the block at \<open>b\<close>: the new list, the new allocation, the kept contents.\<close>

lemma mem_take_adjust:
  assumes ok: "heap_ok B s" and b: "b \<in> B" "b < 10240" "fits s sz b" "lfree s \<le> b"
    and sz: "12 \<le> sz" "sz mod 4 = 0"
  obtains s' B' n where "adjust_lfree b (mem_take b sz s) = Some s'" "heap_ok B' s'"
    "sz \<le> n" "b + 8 + n \<le> 10240" "mem_live s' = (mem_live s)(b + 8 \<mapsto> n)"
    "\<forall>q m i. mem_live s q = Some m \<and> i < m \<longrightarrow> ram s' (q + i) = ram s (q + i)" "n < sz + 20"
proof -
  define t where "t = mem_take b sz s"
  have lf: "lfree s \<in> B" "\<forall>p\<in>B. p < lfree s \<longrightarrow> mem_used_at s p \<noteq> 0"
    "lfree s = 10240 \<or> mem_used_at s (lfree s) = 0"
    using ok by (simp_all add: heap_ok_def usage_def)
  obtain B' where tk: "taken B s b sz B' t" using mem_take_spec [OF ok b(1-3) sz] t_def by blast
  note B' = takenD [OF tk]
  have lf': "lfree t \<in> B'" "b \<noteq> lfree t \<Longrightarrow> mem_used_at t (lfree t) = 0"
    using lf(1,3) b(2,4) B'(2,7) B'(10) [rule_format, OF lf(1)] by auto
  have low: "\<forall>p\<in>B'. p < lfree t \<longrightarrow> mem_used_at t p \<noteq> 0"
  proof (intro ballI impI)
    fix p assume p: "p \<in> B'" "p < lfree t"
    then have "p \<in> B" "p \<noteq> b" using B'(7,9) b(4) by force+
    then show "mem_used_at t p \<noteq> 0" using p lf(2) B'(7,10) by simp
  qed
  obtain s' where s': "adjust_lfree b t = Some s'" "heap_ok B' s'" "ram s' = ram t"
    using lfree_after_take [OF B'(1,8,3,4) lf'(1) low lf'(2)] unfolding adjust_lfree_def .
  have hd: "mem_next s' = mem_next t" "mem_used_at s' = mem_used_at t"
    by (rule ext; simp add: mem_next_def mem_used_at_def s'(3))+
  have bB': "b \<in> B'" and le: "mem_next t b \<le> 10240"
    using B'(1,2) b(1,2) linkedD(3,7) [OF B'(1)] by auto
  show ?thesis
  proof (rule that [OF s'(1) [unfolded t_def] s'(2)])
    show "sz \<le> mem_next t b - (b + 8)" "b + 8 + (mem_next t b - (b + 8)) \<le> 10240"
      "mem_next t b - (b + 8) < sz + 20"
      using B'(6) le taken_waste [OF tk] by simp_all
    show "mem_live s' = (mem_live s)(b + 8 \<mapsto> mem_next t b - (b + 8))"
      using B'(2,5,9,10) b(1,2) bB'
      by (intro map_eqI) (auto simp: mem_live_iff [OF s'(2)] mem_live_iff [OF ok] hd)
    show "\<forall>q m i. mem_live s q = Some m \<and> i < m \<longrightarrow> ram s' (q + i) = ram s (q + i)"
    proof (intro allI impI)
      fix q m i assume "mem_live s q = Some m \<and> i < m"
      then show "ram s' (q + i) = ram s (q + i)"
      proof (intro live_data_kept [OF ok, of q m i s'])
        show "\<forall>q\<in>B. \<forall>a. q < 10240 \<and> mem_used_at s q \<noteq> 0 \<and> q + 8 \<le> a \<and> a < mem_next s q
          \<longrightarrow> ram s' a = ram s a"
          using B'(11) b(3) s'(3) by (metis fits_def)
      qed auto
    qed
  qed
qed

text \<open>On a well-formed heap \<open>mem_malloc\<close> returns without a failed assertion.  It fails only
  when no free block can hold the rounded size, and then changes nothing but the error
  counter; otherwise it returns a fresh, aligned block of at least that size and leaves the
  other allocated blocks and their contents alone.\<close>

definition malloc_post :: "nat \<Rightarrow> mem_state \<Rightarrow> int option \<Rightarrow> mem_state \<Rightarrow> bool" where
  "malloc_post sz s r s' \<longleftrightarrow> mem_inv s' \<and>
     (\<forall>q m i. mem_live s q = Some m \<and> i < m \<longrightarrow> ram s' (q + i) = ram s (q + i)) \<and>
     (case r of
        None \<Rightarrow> ram s' = ram s \<and> mem_live s' = mem_live s \<and>
          (\<forall>b\<in>mem_blocks s. b < MEM_SIZE_ALIGNED \<longrightarrow> \<not> fits s (mem_round sz) b)
      | Some p \<Rightarrow> \<exists>b\<in>mem_blocks s. \<exists>n. p = int (b + SIZEOF_STRUCT_MEM) \<and> b mod MEM_ALIGNMENT = 0 \<and>
          mem_round sz \<le> n \<and> n < mem_round sz + SIZEOF_STRUCT_MEM + MIN_SIZE_ALIGNED \<and>
          b + SIZEOF_STRUCT_MEM + n \<le> MEM_SIZE_ALIGNED \<and>
          fits s (mem_round sz) b \<and> (\<forall>q\<in>mem_blocks s. q < b \<longrightarrow> \<not> fits s (mem_round sz) q) \<and>
          mem_live s (b + SIZEOF_STRUCT_MEM) = None \<and>
          mem_live s' = (mem_live s)(b + SIZEOF_STRUCT_MEM \<mapsto> n))"

lemma mem_malloc_spec:
  assumes inv: "mem_inv s" and sz: "0 < sz" "sz < 65536"
  shows "\<exists>r s'. mem_malloc sz s = Some (r, s') \<and> malloc_post sz s r s'"
proof -
  let ?sz = "mem_round sz"
  define B where "B = mem_blocks s"
  have ok: "heap_ok B s" using inv by (simp add: mem_inv_def B_def)
  have B: "linked B (mem_next s) (mem_prev s)" and lf: "lfree s \<in> B"
    and low: "\<And>q. q \<in> B \<Longrightarrow> q < lfree s \<Longrightarrow> \<not> fits s ?sz q"
    using ok by (auto simp: heap_ok_def usage_def fits_def)
  note D = linkedD [OF B] and R = mem_round_props [OF sz(2)] and unf = mem_malloc_unfold [OF sz(1)]
  obtain r where r: "mem_scan s ?sz (lfree s) = Some r" and post: "case r of
        None \<Rightarrow> \<forall>q\<in>B. lfree s \<le> q \<and> q < 10240 \<longrightarrow> \<not> fits s ?sz q
      | Some b \<Rightarrow> b \<in> B \<and> lfree s \<le> b \<and> b < 10240 \<and> fits s ?sz b \<and>
          (\<forall>q\<in>B. lfree s \<le> q \<and> q < b \<longrightarrow> \<not> fits s ?sz q)"
    using mem_scan_first_fit [OF B lf, of ?sz] by blast
  consider "10240 < ?sz" | "\<not> 10240 < ?sz" "r = None" | b where "\<not> 10240 < ?sz" "r = Some b"
    by (cases r) auto
  then show ?thesis
  proof cases
    case 1
    then have "\<not> fits s ?sz b" if "b \<in> B" "b < 10240" for b
      using D(3) [OF D(7) [OF that]] by (auto simp: fits_def)
    with 1 inv show ?thesis by (auto simp: unf malloc_post_def B_def [symmetric])
  next
    case 2
    have "heap_ok B (stats_inc_err s)" using ok by (simp add: heap_ok_def mem_access)
    note ok' = heap_ok_mem_inv [OF this] heap_ok_blocks [OF this]
    have "mem_live (stats_inc_err s) = mem_live s"
      by (rule ext) (simp add: mem_live_def ok'(2) B_def [symmetric] mem_access)
    moreover have "\<not> fits s ?sz b" if "b \<in> B" "b < 10240" for b
      using post 2(2) low [OF that(1)] that by (cases "b < lfree s") auto
    ultimately show ?thesis using 2 r ok'(1)
      by (auto simp: unf malloc_post_def B_def [symmetric] mem_access)
  next
    case 3
    with post have b: "b \<in> B" "b < 10240" "fits s ?sz b" "lfree s \<le> b" by auto
    have first: "\<not> fits s ?sz q" if "q \<in> B" "q < b" for q
      using post 3(2) low [OF that(1)] that by (cases "q < lfree s") auto
    obtain s' B' n where s': "adjust_lfree b (mem_take b ?sz s) = Some s'" "heap_ok B' s'"
      "?sz \<le> n" "b + 8 + n \<le> 10240" "mem_live s' = (mem_live s)(b + 8 \<mapsto> n)"
      "\<forall>q m i. mem_live s q = Some m \<and> i < m \<longrightarrow> ram s' (q + i) = ram s (q + i)" "n < ?sz + 20"
      using mem_take_adjust [OF ok b R(1,2)] .
    have "(b + 8) mod 4 = 0" using D(4) [OF b(1)] by presburger
    then have "mem_malloc sz s = Some (Some (int (b + 8)), s')"
      using 3 r s'(1-4) D(4) [OF b(1)] by (simp add: unf heap_ok_def)
    moreover have "malloc_post sz s (Some (int (b + 8))) s'"
      unfolding malloc_post_def
      using heap_ok_mem_inv [OF s'(2)] s'(3-7) b first D(4) [OF b(1)]
      by (auto simp: B_def [symmetric] mem_live_def fits_def intro!: bexI [of _ b] exI [of _ n])
    ultimately show ?thesis by blast
  qed
qed

section \<open>Release\<close>

text \<open>The common step of both halves of \<open>plug_holes\<close>: the struct at \<open>n\<close>, the successor of
  \<open>p\<close>, leaves the list.\<close>

definition unlink :: "nat \<Rightarrow> nat \<Rightarrow> mem_state \<Rightarrow> mem_state" where
  "unlink p n s = (let s = set_next p (mem_next s n) s in set_prev (mem_next s n) p s)"

lemma unlink_hdr:
  assumes B: "linked B (mem_next s) (mem_prev s)" and p: "p \<in> B" "p < 10240"
    and n: "n = mem_next s p" "n \<noteq> 10240"
  shows "linked (B - {n}) (mem_next (unlink p n s)) (mem_prev (unlink p n s))"
    "mem_next (unlink p n s) p = mem_next s n"
    "\<And>q. q \<in> B \<Longrightarrow> q \<noteq> p \<Longrightarrow> mem_next (unlink p n s) q = mem_next s q"
    "\<And>q. q \<in> B \<Longrightarrow> mem_used_at (unlink p n s) q = mem_used_at s q"
    "\<And>q. q \<in> B \<Longrightarrow> q \<noteq> mem_next s n \<Longrightarrow> mem_prev (unlink p n s) q = mem_prev s q"
    "\<And>a. (\<forall>q\<in>B. a < q \<or> q + 8 \<le> a) \<Longrightarrow> ram (unlink p n s) a = ram s a"
    "lfree (unlink p n s) = lfree s" "ram_end (unlink p n s) = ram_end s"
proof -
  note D = linkedD [OF B]
  let ?m = "mem_next s n"
  have nB: "n \<in> B" "n < 10240" using D(3) [OF D(7) [OF p]] D(7) [OF p] n by auto
  have m: "?m \<in> B" "?m \<le> 10240" "n + 20 \<le> ?m" "p + 20 \<le> n"
    using D(3) [OF D(7) [OF nB]] D(7,8) [OF nB] D(8) [OF p] n by auto
  have lt: "?m < 65536" "p < 65536" using m(2) p by simp_all
  have ap: "apart n p" "apart p ?m" "apart ?m p" using m by (auto simp: apart_def)
  have app: "apart q p" if "q \<in> B" "q \<noteq> p" for q using linked_apart [OF B that(1) p(1) that(2)] .
  have apm: "apart q ?m" if "q \<in> B" "q \<noteq> ?m" for q using linked_apart [OF B that(1) m(1) that(2)] .
  have e: "unlink p n s = set_prev ?m p (set_next p ?m s)"
    using ap by (simp add: unlink_def Let_def mem_access)
  show N1: "mem_next (unlink p n s) p = ?m" and "lfree (unlink p n s) = lfree s"
    and "ram_end (unlink p n s) = ram_end s"
    using ap lt by (simp_all add: e mem_access u16_id)
  show N2: "mem_next (unlink p n s) q = mem_next s q" if "q \<in> B" "q \<noteq> p" for q
    using app [OF that] apm [OF that(1)] by (cases "q = ?m") (auto simp: e mem_access)
  show "mem_used_at (unlink p n s) q = mem_used_at s q" if "q \<in> B" for q
    using app [OF that] apm [OF that] ap m(3,4)
    by (cases "q = ?m"; cases "q = p") (auto simp: e mem_access)
  show P2: "mem_prev (unlink p n s) q = mem_prev s q" if "q \<in> B" "q \<noteq> ?m" for q
    using app [OF that(1)] apm [OF that] by (cases "q = p") (auto simp: e mem_access)
  have P1: "mem_prev (unlink p n s) ?m = p" using lt by (simp add: e mem_access u16_id)
  show "linked (B - {n}) (mem_next (unlink p n s)) (mem_prev (unlink p n s))"
    using linked_merge [OF B p n N1 N2 P1 P2] by blast
  show "ram (unlink p n s) a = ram s a" if "\<forall>q\<in>B. a < q \<or> q + 8 \<le> a" for a
  proof -
    have "a < p \<or> p + 8 \<le> a" "a < ?m \<or> ?m + 8 \<le> a" using that p(1) m(1) by blast+
    then show ?thesis by (auto simp: e mem_access set_next_def set_prev_def)
  qed
qed

text \<open>The heap between \<open>mem_free\<close> clearing the flag of block \<open>b\<close> and \<open>plug_holes\<close>: only the
  neighbours of \<open>b\<close> may break the rule against two free blocks in a row.\<close>

definition freeing :: "nat set \<Rightarrow> nat \<Rightarrow> mem_state \<Rightarrow> bool" where
  "freeing B b t \<longleftrightarrow> linked B (mem_next t) (mem_prev t) \<and> ram_end t = 10240 \<and>
     b \<in> B \<and> b < 10240 \<and> mem_used_at t b = 0 \<and> mem_used_at t 10240 \<noteq> 0 \<and>
     lfree t \<in> B \<and> mem_used_at t (lfree t) = 0 \<and> (\<forall>p\<in>B. p < lfree t \<longrightarrow> mem_used_at t p \<noteq> 0) \<and>
     (\<forall>p\<in>B. p < 10240 \<and> p \<noteq> b \<and> mem_next t p \<noteq> b \<and> mem_used_at t p = 0 \<longrightarrow>
        mem_used_at t (mem_next t p) \<noteq> 0)"

lemma freeingD:
  assumes "freeing B b t"
  shows "linked B (mem_next t) (mem_prev t)" "ram_end t = 10240" "b \<in> B" "b < 10240"
    "mem_used_at t b = 0" "mem_used_at t 10240 \<noteq> 0" "lfree t \<in> B" "mem_used_at t (lfree t) = 0"
    "\<And>p. p \<in> B \<Longrightarrow> p < lfree t \<Longrightarrow> mem_used_at t p \<noteq> 0"
    "\<And>p. p \<in> B \<Longrightarrow> p < 10240 \<Longrightarrow> p \<noteq> b \<Longrightarrow> mem_next t p \<noteq> b \<Longrightarrow> mem_used_at t p = 0
       \<Longrightarrow> mem_used_at t (mem_next t p) \<noteq> 0"
  using assms unfolding freeing_def by blast+

text \<open>Merging removes free structs only and touches no data of used blocks.\<close>

definition kept :: "nat set \<Rightarrow> mem_state \<Rightarrow> nat set \<Rightarrow> mem_state \<Rightarrow> bool" where
  "kept B t B' t' \<longleftrightarrow> B' \<subseteq> B \<and> (\<forall>q\<in>B - B'. mem_used_at t q = 0) \<and>
     (\<forall>q\<in>B'. mem_used_at t' q = mem_used_at t q) \<and>
     (\<forall>q\<in>B'. mem_used_at t q \<noteq> 0 \<longrightarrow> mem_next t' q = mem_next t q) \<and>
     (\<forall>a. (\<forall>q\<in>B. a < q \<or> q + 8 \<le> a) \<longrightarrow> ram t' a = ram t a)"

lemma kept_refl: "kept B t B t"
  by (simp add: kept_def)

lemma kept_trans:
  assumes "kept B t B1 t1" "kept B1 t1 B2 t2"
  shows "kept B t B2 t2"
  unfolding kept_def
proof (intro conjI ballI impI allI)
  show "B2 \<subseteq> B" using assms by (auto simp: kept_def)
  show "mem_used_at t q = 0" if "q \<in> B - B2" for q
    using assms that unfolding kept_def by (cases "q \<in> B1") auto
  show "mem_used_at t2 q = mem_used_at t q" if "q \<in> B2" for q
    using assms that unfolding kept_def by auto
  show "mem_next t2 q = mem_next t q" if "q \<in> B2" "mem_used_at t q \<noteq> 0" for q
    using assms that unfolding kept_def by auto
  show "ram t2 a = ram t a" if "\<forall>q\<in>B. a < q \<or> q + 8 \<le> a" for a
    using assms that unfolding kept_def by (metis subsetD)
qed

lemma unlink_kept:
  assumes B: "linked B (mem_next s) (mem_prev s)" and p: "p \<in> B" "p < 10240"
    and n: "n = mem_next s p" "n \<noteq> 10240" and free: "mem_used_at s p = 0" "mem_used_at s n = 0"
  shows "kept B s (B - {n}) (unlink p n s)"
  unfolding kept_def
proof (intro conjI ballI impI)
  note h = unlink_hdr [OF B p n]
  show "mem_next (unlink p n s) q = mem_next s q" if "q \<in> B - {n}" "mem_used_at s q \<noteq> 0" for q
    using that free(1) by (intro h(3)) auto
  show "\<forall>a. (\<forall>q\<in>B. a < q \<or> q + 8 \<le> a) \<longrightarrow> ram (unlink p n s) a = ram s a" using h(6) by blast
qed (use free unlink_hdr(4) [OF B p n] in auto)

text \<open>The \<open>lfree\<close> updates of \<open>plug_holes\<close> never fire: \<open>lfree\<close> is below the struct that
  leaves the list.\<close>

lemma plug_forward_ok:
  assumes f: "freeing B b t"
  obtains B1 where "freeing B1 b (plug_forward b t)" "kept B t B1 (plug_forward b t)"
    "mem_used_at (plug_forward b t) (mem_next (plug_forward b t) b) \<noteq> 0"
proof -
  note F = freeingD [OF f] and D = linkedD [OF freeingD(1) [OF f]]
  let ?n = "mem_next t b"
  have n: "?n \<in> B" "b < ?n" using D(7,8) F(3,4) by force+
  have lb: "lfree t \<le> b" using F(3,5,9) by (meson leI)
  show ?thesis
  proof (cases "mem_used_at t ?n = 0 \<and> ?n \<noteq> 10240")
    case False
    then have "plug_forward b t = t" "mem_used_at t ?n \<noteq> 0"
      using F(2,6) by (auto simp: plug_forward_def Let_def)
    with f show ?thesis by (intro that [of B]) (simp_all add: kept_refl)
  next
    case True
    then have e: "plug_forward b t = unlink b ?n t"
      using n lb F(2) by (simp add: plug_forward_def unlink_def Let_def)
    note h = unlink_hdr [OF F(1,3,4) refl True [THEN conjunct2]]
    have nl: "?n < 10240" using D(3) [OF n(1)] True by simp
    note m = D(7,8) [OF n(1) nl]
    have b': "b \<in> B - {?n}" and mn: "mem_next t ?n \<noteq> b" using n F(3) m by auto
    have um: "mem_used_at t (mem_next t ?n) \<noteq> 0" using F(10) [OF n(1) nl] n mn True by auto
    have "freeing (B - {?n}) b (unlink b ?n t)"
      unfolding freeing_def
    proof (intro conjI ballI impI)
      fix p assume p: "p \<in> B - {?n}" "p < 10240 \<and> p \<noteq> b \<and> mem_next (unlink b ?n t) p \<noteq> b \<and>
        mem_used_at (unlink b ?n t) p = 0"
      then show "mem_used_at (unlink b ?n t) (mem_next (unlink b ?n t) p) \<noteq> 0"
        using F(10) [of p] h(3,4) D(7) [of p] by auto
    qed (use h(1,4,7,8) F lb n True D(2) in auto)
    moreover have "mem_used_at (unlink b ?n t) (mem_next (unlink b ?n t) b) \<noteq> 0"
      using um h(2) h(4) [OF m(1)] by simp
    ultimately show ?thesis
      using unlink_kept [OF F(1,3,4) refl] True F(5) e by (intro that [of "B - {?n}"]) simp_all
  qed
qed

lemma freeing_heap_ok:
  assumes f: "freeing B b t" and nx: "mem_used_at t (mem_next t b) \<noteq> 0"
    and pv: "\<And>p. p \<in> B \<Longrightarrow> p < 10240 \<Longrightarrow> mem_next t p = b \<Longrightarrow> mem_used_at t p \<noteq> 0"
  shows "heap_ok B t"
proof -
  note F = freeingD [OF f]
  have "mem_used_at t (mem_next t p) \<noteq> 0" if "p \<in> B" "p < 10240" "mem_used_at t p = 0" for p
    using F(10) [OF that(1,2)] nx pv [OF that(1,2)] that(3) by (cases "p = b") auto
  with F show ?thesis by (auto simp: heap_ok_def usage_def)
qed

lemma plug_backward_ok:
  assumes f: "freeing B b t" and nx: "mem_used_at t (mem_next t b) \<noteq> 0"
  obtains B' where "heap_ok B' (plug_backward b t)" "kept B t B' (plug_backward b t)"
proof -
  note F = freeingD [OF f] and D = linkedD [OF freeingD(1) [OF f]]
  let ?p = "mem_prev t b"
  have uniq: "p = ?p" if "p \<in> B" "p < 10240" "mem_next t p = b" for p
    using D(9) [OF that(1,2)] that(3) F(4) by simp
  show ?thesis
  proof (cases "?p \<noteq> b \<and> mem_used_at t ?p = 0")
    case False
    then have "plug_backward b t = t" by (auto simp: plug_backward_def Let_def)
    moreover have "heap_ok B t"
    proof (rule freeing_heap_ok [OF f nx])
      fix p assume p: "p \<in> B" "p < 10240" "mem_next t p = b"
      with D(8) [OF p(1,2)] uniq [OF p] False show "mem_used_at t p \<noteq> 0" by auto
    qed
    ultimately show ?thesis by (intro that [of B]) (simp_all add: kept_refl)
  next
    case True
    then have "b \<noteq> 0" using D(6) by metis
    with linked_prev [OF F(1,3)] F(4) have p: "?p \<in> B" "?p < b" "mem_next t ?p = b" by auto
    have pl: "?p < 10240" using p F(4) by simp
    have lp: "lfree t \<le> ?p" using F(9) [OF p(1)] True by (meson leI)
    then have e: "plug_backward b t = unlink ?p b t"
      using True p by (simp add: plug_backward_def unlink_def Let_def)
    note h = unlink_hdr [OF F(1) p(1) pl p(3) [symmetric]]
    have b: "b \<noteq> 10240" using F(4) by simp
    have "usage (B - {b}) (mem_next (unlink ?p b t)) (mem_used_at (unlink ?p b t)) (lfree (unlink ?p b t))"
      unfolding usage_def
    proof (intro conjI ballI impI)
      fix q assume q: "q \<in> B - {b}" "q < MEM_SIZE_ALIGNED \<and> mem_used_at (unlink ?p b t) q = 0"
      show "mem_used_at (unlink ?p b t) (mem_next (unlink ?p b t) q) \<noteq> 0"
      proof (cases "q = ?p")
        case True
        then show ?thesis using nx h(2) [OF b] h(4) [OF b D(7) [OF F(3,4)]] by simp
      next
        case False
        then have "mem_next t q \<noteq> b" using uniq q by auto
        with False q show ?thesis using F(10) [of q] h(3,4) [OF b] D(7) [of q] by auto
      qed
    qed (use F h(4,7) [OF b] D(2) lp p b in auto)
    then have "heap_ok (B - {b}) (unlink ?p b t)"
      using h(1,8) [OF b] F(2) by (simp add: heap_ok_def)
    with e unlink_kept [OF F(1) p(1) pl p(3) [symmetric] b] True F(5)
    show ?thesis by (intro that [of "B - {b}"]) simp_all
  qed
qed

text \<open>\<open>mem_free\<close> of an allocated block succeeds, keeps the heap well formed, and removes that
  block, and only that block, from the allocated ones.\<close>

lemma mem_free_step:
  assumes ok: "heap_ok B s" and b: "b \<in> B" "b < 10240" "mem_used_at s b \<noteq> 0"
  obtains t where "mem_free (Some (int (b + 8))) s = plug_holes b t" "freeing B b t"
    "\<And>q. q \<in> B \<Longrightarrow> q \<noteq> b \<Longrightarrow> mem_used_at t q = mem_used_at s q"
    "\<And>q. q \<in> B \<Longrightarrow> mem_next t q = mem_next s q"
    "\<And>a. (\<forall>q\<in>B. a < q \<or> q + 8 \<le> a) \<Longrightarrow> ram t a = ram s a"
proof -
  have B: "linked B (mem_next s) (mem_prev s)" and re: "ram_end s = 10240"
    and u: "usage B (mem_next s) (mem_used_at s) (lfree s)" using ok by (simp_all add: heap_ok_def)
  note D = linkedD [OF B]
  define s1 where "s1 = set_used b 0 s"
  define s2 where "s2 = (if b < lfree s then s1\<lparr>lfree := b\<rparr> else s1)"
  define t where "t = stats_dec_used (sub16 (mem_next s2 b) b) s2"
  have lf1: "lfree s1 = lfree s" by (simp add: s1_def mem_access)
  have b4: "int (b + 8) mod 4 = 0" and bend: "b + 8 < 10240"
    using D(4) [OF b(1)] D(8) [OF b(1,2)] D(3) [OF D(7) [OF b(1,2)]] by presburger+
  have eq: "mem_free (Some (int (b + 8))) s = plug_holes b t"
    using b4 bend re b(3) lf1 unfolding mem_free_def mem_struct_of_def s2_def t_def s1_def
    by (simp add: Let_def nat_add_distrib)
  have ap: "apart q b" if "q \<in> B" "q \<noteq> b" for q using linked_apart [OF B that(1) b(1) that(2)] .
  have t: "mem_next t = mem_next s1" "mem_prev t = mem_prev s1" "mem_used_at t = mem_used_at s1"
    "ram_end t = 10240" "lfree t = (if b < lfree s then b else lfree s)" "ram t = ram s1"
    using re by (simp_all add: t_def s2_def lf1 mem_access) (simp add: s1_def mem_access)
  have N: "mem_next s1 q = mem_next s q" "mem_prev s1 q = mem_prev s q" if "q \<in> B" for q
    using ap [OF that] by (cases "q = b"; simp add: s1_def mem_access)+
  have U: "mem_used_at s1 q = (if q = b then 0 else mem_used_at s q)" if "q \<in> B" for q
    using ap [OF that] by (simp add: s1_def mem_access)
  have "freeing B b t"
    unfolding freeing_def
  proof (intro conjI ballI impI)
    show "linked B (mem_next t) (mem_prev t)" using linked_cong [OF B N] t by simp
    show "mem_used_at t (mem_next t p) \<noteq> 0" if p: "p \<in> B"
      "p < 10240 \<and> p \<noteq> b \<and> mem_next t p \<noteq> b \<and> mem_used_at t p = 0" for p
      using u p N(1) [OF p(1)] U [OF p(1)] U [OF D(7), of p] t(1,3) by (auto simp: usage_def)
  qed (use u b t U D(2) in \<open>auto simp: usage_def split: if_splits\<close>)
  then show ?thesis
    by (rule that [OF eq]) (use t N U b(1) in \<open>auto simp: s1_def set_used_def\<close>)
qed

lemma mem_live_block:
  assumes "heap_ok B s" "mem_live s a = Some n"
  obtains b where "b \<in> B" "b < 10240" "mem_used_at s b \<noteq> 0" "a = b + 8" "n = mem_next s b - a"
  using assms(2) by (auto simp: mem_live_iff [OF assms(1)])

lemma live_elsewhere:
  assumes ok: "heap_ok B s" and ok': "heap_ok B' s'"
    and old: "\<And>c. c \<in> B \<Longrightarrow> c \<noteq> b \<Longrightarrow> mem_used_at s c \<noteq> 0 \<Longrightarrow>
      c \<in> B' \<and> mem_next s' c = mem_next s c \<and> mem_used_at s' c = mem_used_at s c"
    and new: "\<And>c. c \<in> B' \<Longrightarrow> c \<noteq> b \<Longrightarrow> mem_used_at s' c \<noteq> 0 \<Longrightarrow> c \<in> B \<and> mem_used_at s c \<noteq> 0"
    and p: "p \<noteq> b + 8"
  shows "mem_live s' p = mem_live s p"
proof -
  have "mem_live s' p = Some m \<longleftrightarrow> mem_live s p = Some m" for m
  proof
    assume "mem_live s' p = Some m"
    then obtain c where c: "c \<in> B'" "c < 10240" "mem_used_at s' c \<noteq> 0" "p = c + 8" "m = mem_next s' c - p"
      by (rule mem_live_block [OF ok'])
    then have "c \<noteq> b" using p by auto
    from new [OF c(1) this c(3)] old [of c] this c show "mem_live s p = Some m"
      by (auto simp: mem_live_iff [OF ok])
  next
    assume "mem_live s p = Some m"
    then obtain c where c: "c \<in> B" "c < 10240" "mem_used_at s c \<noteq> 0" "p = c + 8" "m = mem_next s c - p"
      by (rule mem_live_block [OF ok])
    then have "c \<noteq> b" using p by auto
    from old [OF c(1) this c(3)] c show "mem_live s' p = Some m"
      by (auto simp: mem_live_iff [OF ok'])
  qed
  then show ?thesis by (metis option.exhaust)
qed

definition free_post :: "nat \<Rightarrow> mem_state \<Rightarrow> mem_state \<Rightarrow> bool" where
  "free_post a s s' \<longleftrightarrow> mem_inv s' \<and> mem_live s' = (mem_live s)(a := None) \<and>
     (\<forall>q m i. mem_live s q = Some m \<and> i < m \<longrightarrow> ram s' (q + i) = ram s (q + i))"

lemma mem_free_spec:
  assumes inv: "mem_inv s" and live: "mem_live s a = Some n"
  shows "\<exists>s'. mem_free (Some (int a)) s = Some s' \<and> free_post a s s'"
proof -
  define B where "B = mem_blocks s"
  have ok: "heap_ok B s" using inv by (simp add: mem_inv_def B_def)
  then have B: "linked B (mem_next s) (mem_prev s)" by (simp add: heap_ok_def)
  obtain b where b: "b \<in> B" "b < 10240" "mem_used_at s b \<noteq> 0" "a = b + 8"
    using mem_live_block [OF ok live] .
  obtain t where eq: "mem_free (Some (int (b + 8))) s = plug_holes b t" and f: "freeing B b t"
    and U: "\<And>q. q \<in> B \<Longrightarrow> q \<noteq> b \<Longrightarrow> mem_used_at t q = mem_used_at s q"
    and N: "\<And>q. q \<in> B \<Longrightarrow> mem_next t q = mem_next s q"
    and R: "\<And>a. (\<forall>q\<in>B. a < q \<or> q + 8 \<le> a) \<Longrightarrow> ram t a = ram s a"
    by (rule mem_free_step [OF ok b(1-3)]) blast
  obtain B1 where f1: "freeing B1 b (plug_forward b t)" "kept B t B1 (plug_forward b t)"
    "mem_used_at (plug_forward b t) (mem_next (plug_forward b t) b) \<noteq> 0"
    using plug_forward_ok [OF f] .
  define s' where "s' = plug_backward b (plug_forward b t)"
  obtain B2 where ok': "heap_ok B2 s'" and k2: "kept B1 (plug_forward b t) B2 s'"
    using plug_backward_ok [OF f1(1,3)] unfolding s'_def .
  note k = kept_trans [OF f1(2) k2, unfolded kept_def]
  note F = freeingD [OF f]
  have res: "mem_free (Some (int a)) s = Some s'"
    unfolding b(4) eq
    using F(2,4,5) linkedD(3) [OF F(1) linkedD(7) [OF F(1,3,4)]] by (simp add: plug_holes_def s'_def)
  have K: "c \<in> B2 \<and> mem_next s' c = mem_next s c \<and> mem_used_at s' c = mem_used_at s c"
    if c: "c \<in> B" "c \<noteq> b" "mem_used_at s c \<noteq> 0" for c
  proof -
    have "c \<in> B2" using k U [OF c(1,2)] c by (metis DiffI)
    then show ?thesis using k U [OF c(1,2)] N [OF c(1)] c(3) by auto
  qed
  have K2: "c \<in> B \<and> c \<noteq> b \<and> mem_used_at s c \<noteq> 0" if c: "c \<in> B2" "mem_used_at s' c \<noteq> 0" for c
    using k U [of c] F(5) c by (cases "c = b") auto
  have "mem_live s' p = mem_live s p" if "p \<noteq> a" for p
    using K K2 that b(4) by (intro live_elsewhere [OF ok ok', of b]) blast+
  moreover have "mem_live s' a = None"
    using K2 [of b] b(4) heap_ok_blocks [OF ok'] by (auto simp: mem_live_def)
  ultimately have "mem_live s' = (mem_live s)(a := None)" by (intro ext) simp
  moreover have "ram s' (q + i) = ram s (q + i)"
    if l: "mem_live s q = Some m" and i: "i < m" for q m i
  proof -
    obtain c where c: "c \<in> B" "c < 10240" "q = c + 8" "m = mem_next s c - q"
      using mem_live_block [OF ok l] .
    with i have out: "\<forall>x\<in>B. q + i < x \<or> x + 8 \<le> q + i" by (intro data_outside_structs [OF B c(1,2)]) auto
    with k R [OF out] show ?thesis by simp
  qed
  ultimately show ?thesis using res heap_ok_mem_inv [OF ok'] by (auto simp: free_post_def)
qed

lemma mem_init_hdr:
  "mem_next (mem_init s) 0 = 10240" "mem_prev (mem_init s) 0 = 0" "mem_used_at (mem_init s) 0 = 0"
  "mem_next (mem_init s) 10240 = 10240" "mem_used_at (mem_init s) 10240 = 1"
  "lfree (mem_init s) = 0" "ram_end (mem_init s) = 10240"
  by (simp_all add: mem_init_def Let_def mem_access apart_def mem_next_def mem_prev_def mem_used_at_def
      set_next_def set_prev_def set_used_def u16_id)

lemma mem_init_heap_ok: "heap_ok {0, 10240} (mem_init s)"
  by (auto simp: heap_ok_def linked_def usage_def mem_init_hdr)

section \<open>Shrinking\<close>

text \<open>The writes with which \<open>mem_trim\<close> puts a free struct at \<open>r\<close> between \<open>b\<close> and \<open>x\<close>.\<close>

definition put_struct :: "nat \<Rightarrow> nat \<Rightarrow> nat \<Rightarrow> mem_state \<Rightarrow> mem_state" where
  "put_struct b r x s =
     (let t = set_next b r (set_prev r b (set_next r x (set_used r 0 s)))
      in if x \<noteq> MEM_SIZE_ALIGNED then set_prev x r t else t)"

lemma put_struct_hdr:
  assumes sep0: "\<forall>p\<in>C. \<forall>q\<in>C. p \<noteq> q \<longrightarrow> apart p q" "\<forall>q\<in>C. apart q r"
    and mem: "b \<in> C" "x \<in> C" "b \<noteq> x" and lt: "b < 65536" "r < 65536" "x < 65536"
    and s': "s' = put_struct b r x s"
  shows "mem_next s' r = x" "mem_next s' b = r" "mem_prev s' r = b"
    "x \<noteq> 10240 \<Longrightarrow> mem_prev s' x = r" "mem_used_at s' r = 0"
    "lfree s' = lfree s" "ram_end s' = ram_end s"
    "\<And>q. q \<in> C \<Longrightarrow> q \<noteq> b \<Longrightarrow> mem_next s' q = mem_next s q"
    "\<And>q. q \<in> C \<Longrightarrow> q \<noteq> x \<Longrightarrow> mem_prev s' q = mem_prev s q"
    "\<And>q. q \<in> C \<Longrightarrow> mem_used_at s' q = mem_used_at s q"
    "\<And>a. (\<forall>q\<in>C. a < q \<or> q + 8 \<le> a) \<Longrightarrow> a < r \<or> r + 8 \<le> a \<Longrightarrow> ram s' a = ram s a"
proof -
  define t where "t = set_next b r (set_prev r b (set_next r x (set_used r 0 s)))"
  have sep: "apart p q" if "p \<in> C" "q \<in> C" "p \<noteq> q" for p q using sep0(1) that by blast
  have sepr: "apart q r" if "q \<in> C" for q using sep0(2) that by blast
  note sep = sep sepr
  have ap: "apart b r" "apart r b" "apart r x" "apart b x" "apart x b"
    using sep mem apart_sym by blast+
  have tr: "mem_next t r = x" "mem_next t b = r" "mem_prev t r = b" "mem_used_at t r = 0"
      "lfree t = lfree s" "ram_end t = ram_end s" "mem_prev t b = mem_prev s b"
      "mem_used_at t b = mem_used_at s b"
    using ap(1,2) lt by (simp_all add: t_def mem_access u16_id)
  have tq: "mem_next t q = mem_next s q" "mem_used_at t q = mem_used_at s q"
      "mem_prev t q = mem_prev s q" if "q \<in> C" "q \<noteq> b" for q
    using sep(2) [OF that(1)] sep(1) [OF that(1) mem(1) that(2)] by (simp_all add: t_def mem_access)
  have e: "s' = (if x = 10240 then t else set_prev x r t)"
    by (simp add: s' put_struct_def t_def Let_def)
  show "mem_next s' r = x" "mem_next s' b = r" "mem_prev s' r = b" "mem_used_at s' r = 0"
    "lfree s' = lfree s" "ram_end s' = ram_end s"
    using ap tr by (simp_all add: e mem_access)
  show "mem_prev s' x = r" if "x \<noteq> 10240" using lt that by (simp add: e mem_access u16_id)
  show "mem_next s' q = mem_next s q" if "q \<in> C" "q \<noteq> b" for q
    using tq [OF that] sep(1) [OF that(1) mem(2)] by (cases "q = x") (auto simp: e mem_access)
  show "mem_used_at s' q = mem_used_at s q" if "q \<in> C" for q
    using tq [OF that] tr(8) sep(1) [OF that mem(2)] mem(3) ap
    by (cases "q = x"; cases "q = b") (auto simp: e mem_access)
  show "mem_prev s' q = mem_prev s q" if "q \<in> C" "q \<noteq> x" for q
    using tq [OF that(1)] tr(7) sep(1) [OF that(1) mem(2) that(2)]
    by (cases "q = b") (auto simp: e mem_access)
  show "ram s' a = ram s a" if "\<forall>q\<in>C. a < q \<or> q + 8 \<le> a" "a < r \<or> r + 8 \<le> a" for a
  proof -
    have "a < b \<or> b + 8 \<le> a" "a < x \<or> x + 8 \<le> a" using that(1) mem by blast+
    with that(2) show ?thesis
      by (auto simp: e t_def mem_access set_next_def set_prev_def set_used_def)
  qed
qed

lemma put_struct_ok:
  assumes ok: "heap_ok B s" and b: "b \<in> B" "b < 10240" "mem_used_at s b \<noteq> 0"
    and C: "C \<subseteq> B" "\<And>q. q \<in> B \<Longrightarrow> q \<notin> C \<Longrightarrow> mem_used_at s q = 0"
    and L: "linked C N P" "N b = x" "\<And>q. q \<in> C \<Longrightarrow> q \<noteq> b \<Longrightarrow> N q = mem_next s q"
      "\<And>q. q \<in> C \<Longrightarrow> q \<noteq> x \<Longrightarrow> P q = mem_prev s q"
    and r: "b + 20 \<le> r" "r + 20 \<le> x" "r mod 4 = 0" and x: "mem_used_at s x \<noteq> 0"
    and lf: "lf = r \<or> lf = lfree s \<and> lf < r \<and> lf \<in> C" "\<And>p. p \<in> C \<Longrightarrow> p < lf \<Longrightarrow> mem_used_at s p \<noteq> 0"
    and s': "s' = put_struct b r x (s\<lparr>lfree := lf\<rparr>)"
  shows "heap_ok (insert r C) s'" "mem_next s' b = r" "mem_used_at s' r = 0"
    "\<And>q. q \<in> C \<Longrightarrow> mem_used_at s' q = mem_used_at s q"
    "\<And>q. q \<in> C \<Longrightarrow> q \<noteq> b \<Longrightarrow> mem_next s' q = mem_next s q"
    "\<And>a. (\<forall>q\<in>C. a < q \<or> q + 8 \<le> a) \<Longrightarrow> a < r \<or> r + 8 \<le> a \<Longrightarrow> ram s' a = ram s a"
proof -
  note D = linkedD [OF L(1)]
  have bC: "b \<in> C" using C(2) [OF b(1)] b(3) by blast
  have xC: "x \<in> C" "x \<le> 10240" using D(3,7) bC b(2) L(2) by auto
  have bet: "q \<le> b \<or> x \<le> q" if "q \<in> C" for q using D(10) [OF bC b(2) that] L(2) by simp
  have ap: "\<forall>q\<in>C. apart q r" using bet r by (fastforce simp: apart_def)
  have sep: "\<forall>p\<in>C. \<forall>q\<in>C. p \<noteq> q \<longrightarrow> apart p q" using linked_apart [OF L(1)] by blast
  have lt: "b \<noteq> x" "b < 65536" "r < 65536" "x < 65536" using r xC by simp_all
  note h = put_struct_hdr [OF sep ap bC xC(1) lt s', unfolded hdr_frame]
  show N': "mem_next s' b = r" by (rule h(2))
  have U1: "mem_used_at s' r = 0" by (rule h(5))
  have U2: "mem_used_at s' q = mem_used_at s q" if "q \<in> C" for q by (rule h(10) [OF that])
  have U3: "mem_next s' q = mem_next s q" if "q \<in> C" "q \<noteq> b" for q by (rule h(8) [OF that])
  note U' = U1 U2 U3
  show "mem_used_at s' r = 0" by (rule U1)
  show "mem_used_at s' q = mem_used_at s q" if "q \<in> C" for q by (rule U2 [OF that])
  show "mem_next s' q = mem_next s q" if "q \<in> C" "q \<noteq> b" for q by (rule U3 [OF that])
  show "ram s' a = ram s a" if "\<forall>q\<in>C. a < q \<or> q + 8 \<le> a" "a < r \<or> r + 8 \<le> a" for a
    using h(11) [OF that] by simp
  have "linked (insert r C) (mem_next s') (mem_prev s')"
  proof (rule linked_split [OF L(1) bC b(2) r(1) _ r(3)], unfold L(2))
    show "r + 20 \<le> x" by (rule r(2))
    show "mem_next s' q = N q" if "q \<in> C" "q \<noteq> b" for q using h(8) [OF that] L(3) [OF that] by simp
    show "mem_prev s' q = P q" if "q \<in> C" "q \<noteq> x" for q using h(9) [OF that] L(4) [OF that] by simp
  qed (use h(1-4) in simp_all)
  moreover have "usage (insert r C) (mem_next s') (mem_used_at s') (lfree s')"
  proof -
    have us: "usage B (mem_next s) (mem_used_at s) (lfree s)" using ok by (simp add: heap_ok_def)
    have "mem_used_at s' (mem_next s' p) \<noteq> 0"
      if p: "p \<in> C" "p < 10240" "mem_used_at s' p = 0" for p
    proof -
      have "p \<noteq> b" using p b(3) U'(2) [OF bC] by auto
      moreover have "mem_next s p \<in> C" using D(7) [OF p(1,2)] L(3) [OF p(1) \<open>p \<noteq> b\<close>] by simp
      ultimately show ?thesis
        using us p C(1) U'(2) [of "mem_next s p"] U'(2) [OF p(1)] U'(3) [OF p(1)] by (auto simp: usage_def)
    qed
    moreover have "mem_used_at s' lf = 0"
      using lf(1) us U'(1,2) r xC by (auto simp: usage_def)
    moreover have "mem_used_at s' 10240 \<noteq> 0" using us U'(2) [OF D(2)] by (simp add: usage_def)
    moreover have "mem_used_at s' (mem_next s' r) \<noteq> 0" using h(1) x U'(2) [OF xC(1)] by simp
    moreover have "mem_used_at s' p \<noteq> 0" if "p \<in> insert r C" "p < lf" for p
      using that lf U'(2) [of p] by auto
    moreover have "lf \<in> insert r C" using lf(1) by auto
    ultimately show ?thesis unfolding usage_def mem_consts h(6) by auto
  qed
  moreover have "ram_end s' = 10240" using h(7) ok by (simp add: heap_ok_def)
  ultimately show "heap_ok (insert r C) s'" by (simp add: heap_ok_def)
qed

text \<open>\<open>mem_trim\<close> on an allocated block, with the rounding and the pointer arithmetic done.\<close>

definition trim_to :: "nat \<Rightarrow> nat \<Rightarrow> mem_state \<Rightarrow> mem_state" where
  "trim_to b k s =
     (let n = mem_next s b - (b + SIZEOF_STRUCT_MEM); x = mem_next s b; r = b + SIZEOF_STRUCT_MEM + k in
     if k = n then s
     else if mem_used_at s x = 0 then
       stats_dec_used (n - k)
         (put_struct b r (mem_next s x) (s\<lparr>lfree := if lfree s = x then r else lfree s\<rparr>))
     else if k + SIZEOF_STRUCT_MEM + MIN_SIZE_ALIGNED \<le> n then
       stats_dec_used (n - k) (put_struct b r x (s\<lparr>lfree := if r < lfree s then r else lfree s\<rparr>))
     else s)"

lemma put_struct_next:
  assumes "apart b r" "b < 65536" "r < 65536" "x < 65536"
  shows "mem_next (set_next b r (set_prev r b (set_next r x (set_used r 0 s)))) r = x"
  using assms by (simp add: mem_access u16_id apart_sym)

lemma mem_trim_unfold:
  assumes ok: "heap_ok B s" and b: "b \<in> B" "b < 10240"
    and k: "k = mem_round newsize" "b + 8 + k \<le> mem_next s b" "12 \<le> k"
  shows "mem_trim (int (b + 8)) newsize s = Some (Some (int (b + 8)), trim_to b k s)"
proof -
  have B: "linked B (mem_next s) (mem_prev s)" and re: "ram_end s = 10240"
    using ok by (simp_all add: heap_ok_def)
  note D = linkedD [OF B]
  have x: "mem_next s b \<le> 10240" "b + 20 \<le> mem_next s b" using D(3,7,8) b by auto
  have sub: "sub16 (mem_next s b) (b + 8) = mem_next s b - (b + 8)"
    using x by (intro sub16_id) linarith+
  obtain r where r: "b + 8 + k = r" by blast
  have ur: "u16 r = r" using x k(2) r by (intro u16_id) linarith
  have st: "mem_struct_of (int (b + 8)) = Some b" by (simp add: mem_struct_of_def nat_add_distrib)
  have rng: "0 \<le> int (b + 8)" "int (b + 8) < int (ram_end s)" using x re by simp_all
  have kk: "(if u16 (LWIP_MEM_ALIGN_SIZE newsize) < 12 then 12
     else u16 (LWIP_MEM_ALIGN_SIZE newsize)) = k" by (simp add: k(1) mem_round_def Let_def)
  have le: "k \<le> mem_next s b - (b + 8)" "\<not> 10240 < k" using k(2) x by simp_all
  have ap: "apart b r" by (simp add: apart_def r [symmetric])
  have nx: "mem_next (set_next b r (set_prev r b (set_next r y (set_used r 0 t)))) r = y"
    if "y < 65536" for y t
    using that x k(2) ap r by (intro put_struct_next) simp_all
  have ups: "(if c then s\<lparr>lfree := l\<rparr> else s) = s\<lparr>lfree := if c then l else lfree s\<rparr>" for c l by simp
  have prevb: "mem_next (set_used r 0 (s\<lparr>lfree := l\<rparr>)) b = mem_next s b" for l
    using ap by (simp add: mem_access apart_sym)
  show ?thesis
    unfolding mem_trim_def trim_to_def put_struct_def Let_def mem_consts kk r ups prevb
    using rng le by (simp add: st [unfolded of_nat_add of_nat_numeral] sub r ur nx prevb
      if_distrib [of "\<lambda>t. Some (q, t)" for q] cong: if_cong split del: if_split)
qed

definition trim_post :: "nat \<Rightarrow> nat \<Rightarrow> nat \<Rightarrow> mem_state \<Rightarrow> mem_state \<Rightarrow> bool" where
  "trim_post a k n s s' \<longleftrightarrow> mem_inv s' \<and> (\<exists>n'. k \<le> n' \<and> n' \<le> n \<and>
     mem_live s' = (mem_live s)(a \<mapsto> n') \<and>
     (\<forall>q m i. mem_live s' q = Some m \<and> i < m \<longrightarrow> ram s' (q + i) = ram s (q + i)))"

lemma trim_post_same:
  assumes "mem_inv s" "mem_live s a = Some n" "k \<le> n"
  shows "trim_post a k n s s"
  using assms by (auto simp: trim_post_def fun_upd_idem)

lemma mem_walk_cong: "mem_next t = mem_next s \<Longrightarrow> mem_walk t p = mem_walk s p"
proof (induction s p rule: mem_walk.induct)
  case (1 s p)
  then show ?case by (simp add: mem_walk.simps [of t p] mem_walk.simps [of s p])
qed

lemma trim_post_stats: "trim_post a k n s (stats_dec_used y s') = trim_post a k n s s'"
proof -
  have "mem_walk (stats_dec_used y s') 0 = mem_walk s' 0" by (intro mem_walk_cong) (simp add: mem_access)
  moreover from this have "mem_live (stats_dec_used y s') q = mem_live s' q" for q
    by (simp add: mem_live_def mem_blocks_def mem_access)
  ultimately show ?thesis
    by (simp add: trim_post_def mem_inv_def mem_blocks_def heap_ok_def mem_access fun_eq_iff)
qed

lemma put_struct_trim_post:
  assumes ok: "heap_ok B s" and b: "b \<in> B" "b < 10240" "mem_used_at s b \<noteq> 0"
    and C: "C \<subseteq> B" "\<And>q. q \<in> B \<Longrightarrow> q \<notin> C \<Longrightarrow> mem_used_at s q = 0"
    and r: "r = b + 8 + k" "12 \<le> k" "r < mem_next s b"
    and ok': "heap_ok (insert r C) s'" and h: "mem_next s' b = r" "mem_used_at s' r = 0"
    "\<And>q. q \<in> C \<Longrightarrow> mem_used_at s' q = mem_used_at s q"
    "\<And>q. q \<in> C \<Longrightarrow> q \<noteq> b \<Longrightarrow> mem_next s' q = mem_next s q"
    "\<And>a. (\<forall>q\<in>C. a < q \<or> q + 8 \<le> a) \<Longrightarrow> a < r \<or> r + 8 \<le> a \<Longrightarrow> ram s' a = ram s a"
  shows "trim_post (b + 8) k (mem_next s b - (b + 8)) s s'"
proof -
  have bC: "b \<in> C" using C(2) [OF b(1)] b(3) by blast
  have "mem_live s' (b + 8) = Some k"
    using bC b h(1) h(3) [OF bC] r(1) by (auto simp: mem_live_iff [OF ok'])
  moreover have "mem_live s' p = mem_live s p" if "p \<noteq> b + 8" for p
  proof (rule live_elsewhere [OF ok ok' _ _ that])
    show "c \<in> insert r C \<and> mem_next s' c = mem_next s c \<and> mem_used_at s' c = mem_used_at s c"
      if "c \<in> B" "c \<noteq> b" "mem_used_at s c \<noteq> 0" for c
      using C(2) [of c] that h(3,4) [of c] by auto
    show "c \<in> B \<and> mem_used_at s c \<noteq> 0" if "c \<in> insert r C" "mem_used_at s' c \<noteq> 0" for c
      using that h(2,3) C(1) by auto
  qed
  ultimately have live: "mem_live s' = (mem_live s)(b + 8 \<mapsto> k)" by (intro ext) simp
  have "ram s' (q + i) = ram s (q + i)" if l: "mem_live s' q = Some m" and i: "i < m" for q m i
  proof -
    obtain c where c: "c \<in> insert r C" "c < 10240" "q = c + 8" "m = mem_next s' c - q"
      using mem_live_block [OF ok' l] .
    have "linked (insert r C) (mem_next s') (mem_prev s')" using ok' by (simp add: heap_ok_def)
    with c i have "\<forall>x\<in>insert r C. q + i < x \<or> x + 8 \<le> q + i"
      by (intro data_outside_structs [OF _ c(1,2)]) auto
    then show ?thesis by (intro h(5)) auto
  qed
  then show ?thesis
    using live heap_ok_mem_inv [OF ok'] r unfolding trim_post_def by (intro conjI exI [of _ k]) auto
qed

lemma trim_move:
  assumes ok: "heap_ok B s" and b: "b \<in> B" "b < 10240" "mem_used_at s b \<noteq> 0"
    and x: "x = mem_next s b" "mem_used_at s x = 0"
    and r: "r = b + 8 + k" "12 \<le> k" "r < x" "r mod 4 = 0"
    and lf: "lf = (if lfree s = x then r else lfree s)"
  shows "trim_post (b + 8) k (x - (b + 8)) s (put_struct b r (mem_next s x) (s\<lparr>lfree := lf\<rparr>))"
proof -
  have B: "linked B (mem_next s) (mem_prev s)" and us: "usage B (mem_next s) (mem_used_at s) (lfree s)"
    using ok by (simp_all add: heap_ok_def)
  note D = linkedD [OF B]
  have xB: "x \<in> B" "x \<noteq> 10240" "x \<le> 10240" using D(3,7) b x us by (auto simp: usage_def)
  then have nx: "x + 20 \<le> mem_next s x" "mem_next s x \<in> B" "mem_used_at s (mem_next s x) \<noteq> 0"
    using D(7,8) [OF xB(1)] us x(2) by (auto simp: usage_def)
  define y where "y = mem_next s x"
  define N where "N = (mem_next s)(b := y)"
  define P where "P = (mem_prev s)(y := b)"
  have L: "linked (B - {x}) N P"
    by (rule linked_merge [OF B b(1,2) x(1) xB(2)]) (auto simp: N_def P_def y_def)
  have lfle: "lfree s \<le> x" using us x(2) xB(1) by (fastforce simp: usage_def)
  have lfb: "lfree s \<noteq> b" using us b by (auto simp: usage_def)
  have lfB: "lfree s \<in> B" using us by (simp add: usage_def)
  have lf1: "lf = r \<or> lf = lfree s \<and> lf < r \<and> lf \<in> B - {x}"
    using D(10) [OF b(1,2) lfB] lfle lfb lfB lf r x by (auto split: if_splits)
  have used: "mem_used_at s p \<noteq> 0" if "p \<in> B - {x}" "p < lf" for p
    using that us D(10) [OF b(1,2), of p] b(3) x r lf by (cases "p = b") (auto simp: usage_def split: if_splits)
  have un: "mem_used_at s q = 0" if "q \<in> B" "q \<notin> B - {x}" for q using that x(2) by blast
  have pre: "N b = y" "\<And>q. q \<in> B - {x} \<Longrightarrow> q \<noteq> b \<Longrightarrow> N q = mem_next s q"
      "\<And>q. q \<in> B - {x} \<Longrightarrow> q \<noteq> y \<Longrightarrow> P q = mem_prev s q"
      "b + 20 \<le> r" "r + 20 \<le> y" "mem_used_at s y \<noteq> 0"
    using nx r by (auto simp: N_def P_def y_def)
  note h = put_struct_ok [OF ok b Diff_subset [of B "{x}"] un L pre(1-5) r(4) pre(6) lf1 used refl]
  have "trim_post (b + 8) k (mem_next s b - (b + 8)) s (put_struct b r y (s\<lparr>lfree := lf\<rparr>))"
    by (rule put_struct_trim_post [OF ok b Diff_subset [of B "{x}"] _ r(1,2) r(3) [unfolded x(1)]])
      (use un h in \<open>simp_all only: simp_thms not_False_eq_True\<close>)
  then show ?thesis by (simp add: y_def x(1))
qed

lemma trim_split:
  assumes ok: "heap_ok B s" and b: "b \<in> B" "b < 10240" "mem_used_at s b \<noteq> 0"
    and x: "x = mem_next s b" "mem_used_at s x \<noteq> 0"
    and r: "r = b + 8 + k" "12 \<le> k" "r + 20 \<le> x" "r mod 4 = 0"
    and lf: "lf = (if r < lfree s then r else lfree s)"
  shows "trim_post (b + 8) k (x - (b + 8)) s (put_struct b r x (s\<lparr>lfree := lf\<rparr>))"
proof -
  have B: "linked B (mem_next s) (mem_prev s)" and us: "usage B (mem_next s) (mem_used_at s) (lfree s)"
    using ok by (simp_all add: heap_ok_def)
  note D = linkedD [OF B]
  have lfB: "lfree s \<in> B" using us by (simp add: usage_def)
  have lf1: "lf = r \<or> lf = lfree s \<and> lf < r \<and> lf \<in> B"
    using lf lfB by auto
  have used: "mem_used_at s p \<noteq> 0" if "p \<in> B" "p < lf" for p
    using that us lf by (auto simp: usage_def split: if_splits)
  have un: "mem_used_at s q = 0" if "q \<in> B" "q \<notin> B" for q using that by blast
  have r': "b + 20 \<le> r" "r < mem_next s b" using r x by simp_all
  note P = put_struct_ok [OF ok b order_refl un B x(1) [symmetric] refl refl r'(1) r(3,4) x(2) lf1 used refl]
  show ?thesis
    unfolding x(1)
    by (rule put_struct_trim_post [OF ok b order_refl un r(1,2) r'(2)])
      (use P in \<open>simp_all add: x(1)\<close>)
qed

lemma mem_trim_spec:
  assumes inv: "mem_inv s" and live: "mem_live s a = Some n"
    and sz: "newsize < 65536" "mem_round newsize \<le> n"
  shows "\<exists>s'. mem_trim (int a) newsize s = Some (Some (int a), s') \<and>
    trim_post a (mem_round newsize) n s s'"
proof -
  define B where "B = mem_blocks s"
  define k where "k = mem_round newsize"
  have ok: "heap_ok B s" using inv by (simp add: mem_inv_def B_def)
  then have B: "linked B (mem_next s) (mem_prev s)" by (simp add: heap_ok_def)
  obtain b where b: "b \<in> B" "b < 10240" "mem_used_at s b \<noteq> 0" and a: "a = b + 8" "n = mem_next s b - a"
    using mem_live_block [OF ok live] .
  note D = linkedD [OF B]
  have x: "b + 20 \<le> mem_next s b" using D(8) b by auto
  have k: "12 \<le> k" "k mod 4 = 0" "k \<le> n" "b + 8 + k \<le> mem_next s b"
    using mem_round_props [OF sz(1)] sz(2) a x by (simp_all add: k_def)
  have r4: "(b + 8 + k) mod 4 = 0" using D(4) [OF b(1)] k(2) by presburger
  have eq: "mem_trim (int a) newsize s = Some (Some (int a), trim_to b k s)"
    unfolding a(1) by (rule mem_trim_unfold [OF ok b(1,2) k_def k(4,1)])
  have same: "trim_post a k n s s" by (rule trim_post_same [OF inv live k(3)])
  have post: "trim_post a k n s (trim_to b k s)"
  proof (cases "k = n \<or> mem_used_at s (mem_next s b) \<noteq> 0 \<and> n < k + 20")
    case True
    then have "trim_to b k s = s" using a by (auto simp: trim_to_def Let_def)
    with same show ?thesis by simp
  next
    case False
    then have *: "k < n" "b + 8 + k < mem_next s b" using k(3) a x by auto
    show ?thesis
    proof (cases "mem_used_at s (mem_next s b) = 0")
      case True
      then show ?thesis
        using * trim_move [OF ok b refl True refl k(1) *(2) r4 refl] a
        by (simp add: trim_to_def Let_def trim_post_stats)
    next
      case F: False
      then have **: "b + 8 + k + 20 \<le> mem_next s b" "k + 20 \<le> mem_next s b - (b + 8)" using False a x by auto
      show ?thesis
        using * ** F trim_split [OF ok b refl F refl k(1) **(1) r4 refl] a
        by (simp add: trim_to_def Let_def trim_post_stats)
    qed
  qed
  then show ?thesis using eq by (auto simp: k_def)
qed

section \<open>The heap as an allocator\<close>

lemma store_data:
  assumes inv: "mem_inv s" and live: "mem_live s a = Some n"
    and f: "\<And>j. j < a \<or> a + n \<le> j \<Longrightarrow> f j = ram s j"
  shows "mem_inv (s\<lparr>ram := f\<rparr>)" "mem_live (s\<lparr>ram := f\<rparr>) = mem_live s"
proof -
  define B where "B = mem_blocks s"
  define t where "t = s\<lparr>ram := f\<rparr>"
  have ok: "heap_ok B s" using inv by (simp add: mem_inv_def B_def)
  then have B: "linked B (mem_next s) (mem_prev s)" by (simp add: heap_ok_def)
  obtain b where b: "b \<in> B" "b < 10240" "a = b + 8" "n = mem_next s b - a"
    using mem_live_block [OF ok live] .
  have out: "q + 8 \<le> a \<or> a + n \<le> q" if "q \<in> B" for q
    using linkedD(10) [OF B b(1,2) that] linked_sep [OF B that b(1)] linkedD(8) [OF B b(1,2)] b by auto
  have h: "mem_next t q = mem_next s q" "mem_prev t q = mem_prev s q" "mem_used_at t q = mem_used_at s q"
    if "q \<in> B" for q
    using out [OF that] f by (auto simp: t_def mem_next_def mem_prev_def mem_used_at_def get_u16_def)
  have lf: "lfree t = lfree s" "ram_end t = ram_end s" by (simp_all add: t_def)
  have "linked B (mem_next t) (mem_prev t)" by (rule linked_cong [OF B]) (simp_all add: h)
  moreover have "usage B (mem_next t) (mem_used_at t) (lfree t)"
    using ok linkedD(2,7) [OF B] lf by (auto simp: heap_ok_def usage_def h)
  ultimately have ok': "heap_ok B t" using ok lf by (simp add: heap_ok_def)
  show "mem_inv (s\<lparr>ram := f\<rparr>)" using heap_ok_mem_inv [OF ok'] by (simp add: t_def)
  show "mem_live (s\<lparr>ram := f\<rparr>) = mem_live s"
    by (rule map_eqI) (auto simp: mem_live_iff [OF ok] mem_live_iff [OF ok', unfolded t_def] h [unfolded t_def])
qed

lemma live_bounds:
  assumes "mem_inv s" "mem_live s a = Some n"
  shows "a mod 4 = 0" "8 \<le> a" "12 \<le> n" "a + n \<le> 10240"
proof -
  have ok: "heap_ok (mem_blocks s) s" using assms(1) by (simp add: mem_inv_def)
  then have B: "linked (mem_blocks s) (mem_next s) (mem_prev s)" by (simp add: heap_ok_def)
  obtain b where b: "b \<in> mem_blocks s" "b < 10240" "a = b + 8" "n = mem_next s b - a"
    using mem_live_block [OF ok assms(2)] .
  have "a mod 4 = 0" using linkedD(4) [OF B b(1)] b(3) by presburger
  moreover have "8 \<le> a" "12 \<le> n" "a + n \<le> 10240"
    using linkedD(8) [OF B b(1,2)] linkedD(3) [OF B linkedD(7) [OF B b(1,2)]] b by simp_all
  ultimately show "a mod 4 = 0" "8 \<le> a" "12 \<le> n" "a + n \<le> 10240" by simp_all
qed

lemma live_disjoint:
  assumes inv: "mem_inv s" and live: "mem_live s a = Some n" "mem_live s c = Some m" and ne: "a \<noteq> c"
  shows "a + n + 8 \<le> c \<or> c + m + 8 \<le> a"
proof -
  have ok: "heap_ok (mem_blocks s) s" using inv by (simp add: mem_inv_def)
  then have B: "linked (mem_blocks s) (mem_next s) (mem_prev s)" by (simp add: heap_ok_def)
  from mem_live_block [OF ok live(1)] obtain b where
    b: "b \<in> mem_blocks s" "b < 10240" "a = b + 8" "n = mem_next s b - a" by blast
  from mem_live_block [OF ok live(2)] obtain d where
    d: "d \<in> mem_blocks s" "d < 10240" "c = d + 8" "m = mem_next s d - c" by blast
  show ?thesis
    using linkedD(10) [OF B b(1,2) d(1)] linkedD(10) [OF B d(1,2) b(1)]
      linkedD(8) [OF B b(1,2)] linkedD(8) [OF B d(1,2)] b d ne by auto
qed

datatype heap_op = Malloc nat | Free nat | Trim nat nat | Store nat nat u8_t

fun heap_step :: "heap_op \<Rightarrow> mem_state \<Rightarrow> mem_state option" where
  "heap_step (Malloc n) s = map_option snd (mem_malloc n s)"
| "heap_step (Free a) s = mem_free (Some (int a)) s"
| "heap_step (Trim a n) s = map_option snd (mem_trim (int a) n s)"
| "heap_step (Store a i v) s = Some (s\<lparr>ram := (ram s)(a + i := v)\<rparr>)"

fun heap_legal :: "heap_op \<Rightarrow> mem_state \<Rightarrow> bool" where
  "heap_legal (Malloc n) s \<longleftrightarrow> n < 65536"
| "heap_legal (Free a) s \<longleftrightarrow> mem_live s a \<noteq> None"
| "heap_legal (Trim a n) s \<longleftrightarrow>
     n < 65536 \<and> (case mem_live s a of None \<Rightarrow> False | Some m \<Rightarrow> mem_round n \<le> m)"
| "heap_legal (Store a i v) s \<longleftrightarrow> (case mem_live s a of None \<Rightarrow> False | Some m \<Rightarrow> i < m)"

fun heap_owner :: "heap_op \<Rightarrow> nat option" where
  "heap_owner (Malloc n) = None"
| "heap_owner (Free a) = Some a"
| "heap_owner (Trim a n) = Some a"
| "heap_owner (Store a i v) = Some a"

lemma heap_step_spec:
  assumes inv: "mem_inv s" and legal: "heap_legal x s"
  shows "\<exists>t. heap_step x s = Some t \<and> mem_inv t \<and>
    (\<forall>a n. heap_owner x \<noteq> Some a \<and> mem_live s a = Some n \<longrightarrow>
       mem_live t a = Some n \<and> (\<forall>i<n. ram t (a + i) = ram s (a + i)))"
proof (cases x)
  case (Malloc n)
  show ?thesis
  proof (cases "n = 0")
    case True
    then show ?thesis using Malloc inv by (simp add: mem_malloc_def)
  next
    case False
    then obtain r t where t: "mem_malloc n s = Some (r, t)" "malloc_post n s r t"
      using mem_malloc_spec [OF inv, of n] legal Malloc by auto
    then show ?thesis
      using Malloc by (cases r) (auto simp: malloc_post_def)
  qed
next
  case (Free c)
  then obtain m where "mem_live s c = Some m" using legal by auto
  from mem_free_spec [OF inv this] show ?thesis using Free by (auto simp: free_post_def)
next
  case (Trim c k)
  then obtain m where m: "mem_live s c = Some m" "mem_round k \<le> m" "k < 65536"
    using legal by (auto split: option.splits)
  from mem_trim_spec [OF inv m(1,3,2)] show ?thesis using Trim by (auto simp: trim_post_def)
next
  case (Store c i v)
  then obtain m where m: "mem_live s c = Some m" "i < m" using legal by (auto split: option.splits)
  have "ram t (a + j) = ram s (a + j)"
    if "a \<noteq> c" "mem_live s a = Some n" "j < n" "t = s\<lparr>ram := (ram s)(c + i := v)\<rparr>" for a n j t
    using live_disjoint [OF inv that(2) m(1) that(1)] that m(2) by auto
  moreover have "mem_inv (s\<lparr>ram := (ram s)(c + i := v)\<rparr>)"
    "mem_live (s\<lparr>ram := (ram s)(c + i := v)\<rparr>) = mem_live s"
    using m(2) by (auto intro: store_data [OF inv m(1)])
  ultimately show ?thesis using Store by simp
qed

interpretation heap: allocator mem_inv heap_legal heap_step mem_live "\<lambda>s a i. ram s (a + i)" heap_owner
proof unfold_locales
  show "\<exists>t. heap_step x s = Some t \<and> mem_inv t" if "mem_inv s" "heap_legal x s" for s x
    using heap_step_spec [OF that] by blast
  show "mem_live t a = Some n \<and> (\<forall>i<n. ram t (a + i) = ram s (a + i))"
    if "mem_inv s" "heap_legal x s" "heap_step x s = Some t" "heap_owner x \<noteq> Some a"
      "mem_live s a = Some n" for s x t a n
    using heap_step_spec [OF that(1,2)] that(3-5) by auto
qed

text \<open>Whether a request fits depends on the allocated blocks only.\<close>

lemma mem_room_iff:
  assumes inv: "mem_inv s"
  shows "(\<exists>b\<in>mem_blocks s. b < 10240 \<and> fits s k b) \<longleftrightarrow> (\<exists>x. x + 8 + k \<le> 10240 \<and> (\<forall>a n. mem_live s a = Some n \<longrightarrow> a + n \<le> x \<or> x + 16 + k \<le> a))"
proof -
  define B where "B = mem_blocks s"
  have ok: "heap_ok B s" using inv by (simp add: mem_inv_def B_def)
  then have B: "linked B (mem_next s) (mem_prev s)" and U: "usage B (mem_next s) (mem_used_at s) (lfree s)" by (simp_all add: heap_ok_def)
  note L = mem_live_iff [OF ok]
  show ?thesis unfolding B_def [symmetric]
  proof
    assume "\<exists>b\<in>B. b < 10240 \<and> fits s k b"
    then obtain b where b: "b \<in> B" "b < 10240" "mem_used_at s b = 0" "b + 8 + k \<le> mem_next s b" by (auto simp: fits_def)
    have "a + n \<le> b \<or> b + 16 + k \<le> a" if H: "mem_live s a = Some n" for a n
    proof -
      obtain c where c: "c \<in> B" "c < 10240" "mem_used_at s c \<noteq> 0" "a = c + 8" "n = mem_next s c - a" using H by (auto simp: L)
      then have "c \<noteq> b" using b(3) by auto
      then have "mem_next s c \<le> b \<or> mem_next s b \<le> c" using linkedD(10) [OF B c(1,2) b(1)] linkedD(10) [OF B b(1,2) c(1)] by auto
      then show ?thesis using b(4) c(4,5) linkedD(8) [OF B c(1,2)] by auto
    qed
    moreover have "mem_next s b \<le> 10240" by (rule linkedD(3) [OF B linkedD(7) [OF B b(1,2)]])
    ultimately show "\<exists>x. x + 8 + k \<le> 10240 \<and> (\<forall>a n. mem_live s a = Some n \<longrightarrow> a + n \<le> x \<or> x + 16 + k \<le> a)" using b(4) by (intro exI [of _ b]) auto
  next
    assume "\<exists>x. x + 8 + k \<le> 10240 \<and> (\<forall>a n. mem_live s a = Some n \<longrightarrow> a + n \<le> x \<or> x + 16 + k \<le> a)"
    then obtain x where x: "x + 8 + k \<le> 10240" "\<And>a n. mem_live s a = Some n \<Longrightarrow> a + n \<le> x \<or> x + 16 + k \<le> a" by blast
    have off: "mem_next s c \<le> x \<or> x + 8 + k \<le> c" if c: "c \<in> B" "c < 10240" "mem_used_at s c \<noteq> 0" for c
    proof -
      have "mem_live s (c + 8) = Some (mem_next s c - (c + 8))" using c by (auto simp: L)
      then show ?thesis using x(2) [of "c + 8"] linkedD(8) [OF B c(1,2)] by auto
    qed
    let ?b = "Max {b \<in> B. b \<le> x}"
    have fin: "finite {b \<in> B. b \<le> x}" and ne: "{b \<in> B. b \<le> x} \<noteq> {}" using linked_finite [OF B] linkedD(1) [OF B] by auto
    have b: "?b \<in> B" "?b \<le> x" "?b < 10240" using Max_in [OF fin ne] x(1) by auto
    have nb: "x < mem_next s ?b"
    proof (rule ccontr)
      assume "\<not> x < mem_next s ?b"
      then have "mem_next s ?b \<le> ?b" using linkedD(7) [OF B b(1,3)] by (intro Max_ge [OF fin]) simp
      then show False using linkedD(8) [OF B b(1,3)] by simp
    qed
    then have free: "mem_used_at s ?b = 0" using off [OF b(1,3)] b(2) by force
    have "x + 8 + k \<le> mem_next s ?b"
    proof (cases "mem_next s ?b < 10240")
      case True
      have "mem_used_at s (mem_next s ?b) \<noteq> 0" using U b(1,3) free by (auto simp: usage_def)
      then show ?thesis using off [OF linkedD(7) [OF B b(1,3)] True] linkedD(8) [OF B linkedD(7) [OF B b(1,3)] True] nb by auto
    qed (use x(1) in simp)
    then show "\<exists>b\<in>B. b < 10240 \<and> fits s k b" using b free by (intro bexI [of _ ?b]) (auto simp: fits_def)
  qed
qed

section \<open>Properties\<close>

text \<open>The heap before \<open>mem_init\<close>: static storage, all zero.\<close>

definition mem_zero :: mem_state where
  "mem_zero = \<lparr>ram = \<lambda>_. 0, ram_end = 0, lfree = 0, mem_avail = 0, mem_used = 0, mem_max = 0,
     mem_err = 0, mem_illegal = 0\<rparr>"

lemma mem_init_inv: "mem_inv (mem_init s)"
  by (rule heap_ok_mem_inv [OF mem_init_heap_ok])

text \<open>C1: After \<open>mem_init\<close>, a sequence of \<open>mem_malloc\<close>, \<open>mem_free\<close>, \<open>mem_trim\<close> and stores in
  which every free, trim and store addresses an allocated block (and no trim grows a
  block) runs to its end: no loop runs forever and no assertion fails.  In the state reached the
  list of structs is intact with no two free neighbours, every block is aligned,
  lies inside the heap, and two blocks are separated by the header of the later one.\<close>

theorem heap_run_safe:
  assumes "lawful heap_legal heap_step xs (mem_init s)"
  shows "\<exists>t. run heap_step xs (mem_init s) = Some t \<and> mem_inv t \<and>
    (\<forall>a n. mem_live t a = Some n \<longrightarrow> a mod MEM_ALIGNMENT = 0 \<and> SIZEOF_STRUCT_MEM \<le> a \<and> a + n \<le> MEM_SIZE_ALIGNED) \<and>
    (\<forall>a n c m. mem_live t a = Some n \<and> mem_live t c = Some m \<and> a < c \<longrightarrow> a + n + SIZEOF_STRUCT_MEM \<le> c)"
proof -
  obtain t where t: "run heap_step xs (mem_init s) = Some t" "mem_inv t"
    using heap.run_ok [OF mem_init_inv assms] by blast
  moreover have "a + n + 8 \<le> c" if "mem_live t a = Some n" "mem_live t c = Some m" "a < c" for a n c m
    using live_disjoint [OF t(2) that(1,2)] that(3) by auto
  ultimately show ?thesis using live_bounds [OF t(2)] by auto
qed

lemma mem_malloc_init:
  assumes "0 < sz" "sz \<le> 10000"
  shows "\<exists>n t. mem_malloc sz (mem_init s) = Some (Some 8, t) \<and> mem_inv t \<and> mem_live t = [8 \<mapsto> n] \<and>
    sz \<le> n \<and> mem_round sz \<le> n \<and> n < mem_round sz + 20"
proof -
  have b: "mem_blocks (mem_init s) = {0, 10240}" by (rule heap_ok_blocks [OF mem_init_heap_ok])
  note h = mem_init_hdr [of s]
  have live: "mem_live (mem_init s) = (\<lambda>_. None)"
    using b h by (auto simp: mem_live_def fun_eq_iff)
  have "mem_round sz \<le> 10000 + 3" using assms by (auto simp: mem_round_def Let_def align_size u16_id)
  then have fit: "fits (mem_init s) (mem_round sz) 0" using h by (simp add: fits_def)
  obtain r t where rt: "mem_malloc sz (mem_init s) = Some (r, t)" "malloc_post sz (mem_init s) r t"
    using mem_malloc_spec [OF mem_init_inv, of sz s] assms by auto
  have "sz \<le> mem_round sz" using assms by (intro mem_round_props(3)) simp_all
  then show ?thesis using rt fit b live by (cases r) (auto simp: malloc_post_def fits_def)
qed

theorem heap_run_safe_witness:
  "\<exists>t. run heap_step [Malloc 100, Free 8, Malloc 50] (mem_init mem_zero) = Some t \<and> mem_inv t"
proof -
  obtain n t where "mem_malloc 100 (mem_init mem_zero) = Some (Some 8, t)" "mem_live t = [8 \<mapsto> n]"
    using mem_malloc_init [of 100 mem_zero] by auto
  then have "lawful heap_legal heap_step [Malloc 100, Free 8, Malloc 50] (mem_init mem_zero)"
    by (simp split: option.split)
  from heap_run_safe [OF this] show ?thesis by blast
qed

text \<open>C2: An operation never disturbs a block it does not work on.  In a run of legal
  heap operations none of which frees, trims or stores into the block at \<open>a\<close>, the block stays
  allocated at its size and every byte of it keeps its value, although the headers of the
  neighbouring structs are rewritten in the same memory.\<close>

theorem heap_isolation:
  assumes "mem_inv s" "lawful heap_legal heap_step xs s" "mem_live s a = Some n"
    and "\<forall>x\<in>set xs. heap_owner x \<noteq> Some a"
  shows "\<exists>t. run heap_step xs s = Some t \<and> mem_live t a = Some n \<and> (\<forall>i<n. ram t (a + i) = ram s (a + i))"
  using heap.isolation [OF assms] by blast

theorem heap_isolation_witness:
  "\<exists>s t n. mem_malloc 100 (mem_init mem_zero) = Some (Some 8, s) \<and> 100 \<le> n \<and>
     run heap_step [Malloc 50, Malloc 5000] s = Some t \<and> mem_live t 8 = Some n"
proof -
  obtain n s where s: "mem_malloc 100 (mem_init mem_zero) = Some (Some 8, s)" "mem_live s = [8 \<mapsto> n]"
    "mem_inv s" "100 \<le> n"
    using mem_malloc_init [of 100 mem_zero] by auto
  have "lawful heap_legal heap_step [Malloc 50, Malloc 5000] s" by (simp split: option.split)
  from heap_isolation [OF s(3) this, of 8 n] s show ?thesis by auto
qed

text \<open>C3: \<open>mem_malloc\<close> is first fit.  On an intact heap it always returns; a request is
  rounded up to the alignment and to 12 bytes.  It returns NULL only if no free block can
  hold the rounded request, and then the heap is unchanged but for the statistics.
  Otherwise it returns the data of the lowest free block that can hold it, aligned, with
  less than 20 bytes beyond the rounded request, and the allocated blocks are the old
  ones and this one.  The bytes of the blocks allocated before are untouched.\<close>

theorem mem_malloc_first_fit:
  assumes "mem_inv s" "0 < sz" "sz < 65536"
  shows "\<exists>r s'. mem_malloc sz s = Some (r, s') \<and> mem_inv s' \<and>
     (\<forall>q m i. mem_live s q = Some m \<and> i < m \<longrightarrow> ram s' (q + i) = ram s (q + i)) \<and>
     (case r of
        None \<Rightarrow> ram s' = ram s \<and> mem_live s' = mem_live s \<and>
          (\<forall>b\<in>mem_blocks s. b < MEM_SIZE_ALIGNED \<longrightarrow> \<not> fits s (mem_round sz) b)
      | Some p \<Rightarrow> \<exists>b\<in>mem_blocks s. \<exists>n. p = int (b + SIZEOF_STRUCT_MEM) \<and> b mod MEM_ALIGNMENT = 0 \<and>
          mem_round sz \<le> n \<and> n < mem_round sz + SIZEOF_STRUCT_MEM + MIN_SIZE_ALIGNED \<and>
          fits s (mem_round sz) b \<and> (\<forall>q\<in>mem_blocks s. q < b \<longrightarrow> \<not> fits s (mem_round sz) q) \<and>
          mem_live s (b + SIZEOF_STRUCT_MEM) = None \<and>
          mem_live s' = (mem_live s)(b + SIZEOF_STRUCT_MEM \<mapsto> n))"
proof -
  obtain r s' where "mem_malloc sz s = Some (r, s')" "malloc_post sz s r s'"
    using mem_malloc_spec [OF assms] by blast
  then show ?thesis by (cases r) (auto simp: malloc_post_def)
qed

theorem mem_malloc_first_fit_witness:
  "\<exists>r s'. mem_malloc 100 (mem_init mem_zero) = Some (r, s') \<and> mem_inv s' \<and> mem_round 100 = 100"
  using mem_malloc_first_fit [OF mem_init_inv, of 100 mem_zero]
  by (auto simp: mem_round_def align_size u16_id)





text \<open>\<open>mem_calloc\<close> whose product does not exceed 65532 returns NULL with the heap unchanged, or
  a fresh block of at least \<open>count * size\<close> bytes, all of them zero, with no other block
  changed.\<close>

theorem mem_calloc_zeroes:
  assumes inv: "mem_inv s" and sz: "0 < count * sz" "count * sz \<le> 65532"
  shows "\<exists>r s'. mem_calloc count sz s = Some (r, s') \<and> mem_inv s' \<and>
     (case r of
        None \<Rightarrow> mem_live s' = mem_live s \<and> ram s' = ram s
      | Some p \<Rightarrow> \<exists>a n. p = int a \<and> count * sz \<le> n \<and> mem_live s a = None \<and>
          mem_live s' = (mem_live s)(a \<mapsto> n) \<and> (\<forall>i<count * sz. ram s' (a + i) = 0) \<and>
          (\<forall>q m i. mem_live s q = Some m \<and> i < m \<longrightarrow> ram s' (q + i) = ram s (q + i)))"
proof -
  have u: "u16 (count * sz) = count * sz" using sz by (intro u16_id) simp
  have le: "count * sz \<le> mem_round (count * sz)" using sz by (intro mem_round_props(3)) simp_all
  obtain r t where t: "mem_malloc (count * sz) s = Some (r, t)" "malloc_post (count * sz) s r t"
    using mem_malloc_spec [OF inv sz(1)] sz(2) by auto
  show ?thesis
  proof (cases r)
    case None
    then show ?thesis using t by (auto simp: mem_calloc_def u malloc_post_def)
  next
    case (Some p)
    then obtain b n where b: "p = int (b + 8)" "mem_round (count * sz) \<le> n" "mem_live s (b + 8) = None"
      "mem_live t = (mem_live s)(b + 8 \<mapsto> n)" "mem_inv t"
      and keep: "\<And>q m i. mem_live s q = Some m \<Longrightarrow> i < m \<Longrightarrow> ram t (q + i) = ram s (q + i)"
      using t(2) by (auto simp: malloc_post_def)
    define f where "f = (\<lambda>i. if p \<le> int i \<and> int i < p + int (count * sz) then 0 else ram t i)"
    have live: "mem_live t (b + 8) = Some n" using b(4) by simp
    have out: "f j = ram t j" if "j < b + 8 \<or> b + 8 + n \<le> j" for j
    proof -
      have "\<not> (b + 8 \<le> j \<and> j < b + 8 + count * sz)" using that b le by linarith
      then have "\<not> (p \<le> int j \<and> int j < p + int (count * sz))" unfolding b(1) by linarith
      then show ?thesis unfolding f_def by (rule if_not_P)
    qed
    note st = store_data [OF b(5) live out]
    have "f (b + 8 + i) = 0" if "i < count * sz" for i using that b(1) by (simp add: f_def del: of_nat_mult)
    moreover have "f (q + i) = ram s (q + i)" if "mem_live s q = Some m" "i < m" for q m i
    proof -
      have "q \<noteq> b + 8" "mem_live t q = Some m" using that b(3,4) by auto
      from live_disjoint [OF b(5) this(2) live this(1)] that(2) have "f (q + i) = ram t (q + i)"
        by (intro out) auto
      then show ?thesis using keep [OF that] by simp
    qed
    moreover have "mem_calloc count sz s = Some (Some p, t\<lparr>ram := f\<rparr>)"
      using t(1) Some by (simp add: mem_calloc_def u f_def)
    ultimately show ?thesis using st b le
      by (intro exI [of _ "Some p"] exI [of _ "t\<lparr>ram := f\<rparr>"])
        (simp, intro exI [of _ "b + 8"] conjI exI [of _ n], simp_all)
  qed
qed

theorem mem_calloc_zeroes_witness:
  "\<exists>r s'. mem_calloc 5 20 (mem_init mem_zero) = Some (r, s') \<and> mem_inv s'"
  using mem_calloc_zeroes [OF mem_init_inv, of 5 20 mem_zero] by auto

text \<open>C34: The rounding in \<open>mem_malloc\<close> is done in \<open>mem_size_t\<close>, which is 16 bits wide.  A request of 65533
  to 65535 bytes wraps to 0 before the test against the heap size: on every initialised heap
  the call succeeds with a block of less than 32 bytes.\<close>

theorem mem_malloc_wraps:
  assumes "65532 < sz" "sz < 65536"
  shows "\<exists>s' n. mem_malloc sz (mem_init s) = Some (Some (int SIZEOF_STRUCT_MEM), s') \<and>
     mem_live s' SIZEOF_STRUCT_MEM = Some n \<and> n < 32"
proof -
  have "(sz + 3) div 4 = 16384" using assms by simp
  then have r: "mem_round sz = 12" using assms by (simp add: mem_round_def align_size u16_def)
  have r12: "mem_round 12 = 12" by (simp add: mem_round_def align_size u16_def)
  have "mem_malloc sz (mem_init s) = mem_malloc 12 (mem_init s)"
    using r r12 assms by (simp add: mem_malloc_unfold)
  with r12 show ?thesis using mem_malloc_init [of 12 s] by auto
qed

theorem mem_malloc_wraps_witness:
  "\<exists>s' n. mem_malloc 65535 (mem_init mem_zero) = Some (Some (int SIZEOF_STRUCT_MEM), s') \<and>
     mem_live s' SIZEOF_STRUCT_MEM = Some n \<and> n < 32"
  using mem_malloc_wraps [of 65535 mem_zero] by simp

text \<open>C35: \<open>mem_calloc\<close> passes \<open>count * size\<close> truncated to 16 bits to \<open>mem_malloc\<close> but clears the full product.
  When the product exceeds 65535 and its low 16 bits are a request that fits, the call clears
  the heap beyond the block, the struct at its end included: the heap invariant is lost.\<close>

theorem mem_calloc_overruns:
  assumes "65536 \<le> count * sz" "0 < (count * sz) mod 65536" "(count * sz) mod 65536 \<le> 10000"
  shows "\<exists>s'. mem_calloc count sz (mem_init s) = Some (Some (int SIZEOF_STRUCT_MEM), s') \<and>
     mem_used_at s' MEM_SIZE_ALIGNED = 0 \<and> \<not> mem_inv s'"
proof -
  obtain t where t: "mem_malloc (u16 (count * sz)) (mem_init s) = Some (Some 8, t)"
    using mem_malloc_init [of "u16 (count * sz)" s] assms(2,3) unfolding u16_def by auto
  define s' where "s' = t\<lparr>ram := (\<lambda>i. if 8 \<le> int i \<and> int i < 8 + int (count * sz) then 0 else ram t i)\<rparr>"
  have "mem_calloc count sz (mem_init s) = Some (Some 8, s')" using t by (simp add: mem_calloc_def s'_def)
  moreover have u: "mem_used_at s' 10240 = 0"
    using assms(1) by (simp add: mem_used_at_def s'_def del: of_nat_mult)
  moreover have "\<not> mem_inv s'" using u by (simp add: mem_inv_def heap_ok_def usage_def)
  ultimately show ?thesis by simp
qed

theorem mem_calloc_overruns_witness:
  "\<exists>s'. mem_calloc 256 257 (mem_init mem_zero) = Some (Some (int SIZEOF_STRUCT_MEM), s') \<and>
     mem_used_at s' MEM_SIZE_ALIGNED = 0 \<and> \<not> mem_inv s'"
  using mem_calloc_overruns [of 256 257 mem_zero] by simp

end
