(* ===== verification/Memp.thy ===== *)
theory Memp
  imports Mem
begin

text \<open>
  The pools of \<open>src/lwip/src/core/memp.c\<close> with \<open>MEMP_MEM_MALLOC\<close>, \<open>MEMP_OVERFLOW_CHECK\<close> and
  \<open>MEMP_SANITY_CHECK\<close> 0 and \<open>MEMP_STATS\<close> 1.  An element is named by its byte offset from the aligned base of its
  pool.  \<open>MEMP_SIZE\<close> is 0: the link field of a free element is the memory its user writes while
  it is allocated, so the invariant says nothing of the links of allocated elements.
  The element sizes depend on the layout of structs and are a parameter.
\<close>

section \<open>Descriptors and operations\<close>

record memp_desc =
  desc_size :: nat
  desc_num :: nat

record memp_pool =
  tab :: "nat option"
  link :: "nat \<Rightarrow> nat option"
  pool_avail :: nat
  pool_used :: nat
  pool_max :: nat
  pool_err :: nat

text \<open>\<open>LWIP_MEMPOOL_DECLARE\<close>: the element size is aligned.\<close>

definition mempool_desc :: "nat \<Rightarrow> nat \<Rightarrow> memp_desc" where
  "mempool_desc num sz = \<lparr>desc_size = LWIP_MEM_ALIGN_SIZE sz, desc_num = num\<rparr>"

text \<open>The loop of \<open>memp_init_pool\<close>, \<open>k\<close> elements to go, the next one at \<open>memp\<close>.\<close>

fun memp_init_loop :: "memp_desc \<Rightarrow> nat \<Rightarrow> nat \<Rightarrow> memp_pool \<Rightarrow> memp_pool" where
  "memp_init_loop d 0 memp p = p"
| "memp_init_loop d (Suc k) memp p =
     memp_init_loop d k (memp + desc_size d)
       (p\<lparr>link := (link p)(memp := tab p), tab := Some memp\<rparr>)"

definition memp_init_pool :: "memp_desc \<Rightarrow> memp_pool \<Rightarrow> memp_pool" where
  "memp_init_pool d p =
     (let p = memp_init_loop d (desc_num d) 0 (p\<lparr>tab := None\<rparr>)
      in p\<lparr>pool_avail := u16 (desc_num d)\<rparr>)"

definition do_memp_malloc_pool :: "memp_pool \<Rightarrow> (nat option \<times> memp_pool) option" where
  "do_memp_malloc_pool p =
     (case tab p of
        Some memp \<Rightarrow> do {
          let p = p\<lparr>tab := link p memp\<rparr>;
          lwip_assert (memp mod MEM_ALIGNMENT = 0);
          let p = p\<lparr>pool_used := u16 (pool_used p + 1)\<rparr>;
          let p = (if pool_max p < pool_used p then p\<lparr>pool_max := pool_used p\<rparr> else p);
          Some (Some memp, p) }
      | None \<Rightarrow> Some (None, p\<lparr>pool_err := u16 (pool_err p + 1)\<rparr>))"

definition do_memp_free_pool :: "nat \<Rightarrow> memp_pool \<Rightarrow> memp_pool option" where
  "do_memp_free_pool memp p = do {
     lwip_assert (memp mod MEM_ALIGNMENT = 0);
     let p = p\<lparr>pool_used := sub16 (pool_used p) 1\<rparr>;
     let p = p\<lparr>link := (link p)(memp := tab p)\<rparr>;
     Some (p\<lparr>tab := Some memp\<rparr>) }"

text \<open>\<open>memp_malloc_pool\<close> and \<open>memp_free_pool\<close>: the descriptor (and with it the pool) may be NULL.\<close>

definition memp_malloc_pool :: "memp_pool option \<Rightarrow> (nat option \<times> memp_pool option) option" where
  "memp_malloc_pool desc = do {
     lwip_assert (desc \<noteq> None);
     case desc of
       None \<Rightarrow> Some (None, None)
     | Some p \<Rightarrow> do { (m, p) \<leftarrow> do_memp_malloc_pool p; Some (m, Some p) } }"

definition memp_free_pool :: "memp_pool option \<Rightarrow> nat option \<Rightarrow> memp_pool option option" where
  "memp_free_pool desc mem = do {
     lwip_assert (desc \<noteq> None);
     case (desc, mem) of
       (Some p, Some m) \<Rightarrow> do { p \<leftarrow> do_memp_free_pool m p; Some (Some p) }
     | _ \<Rightarrow> Some desc }"

text \<open>The table \<open>memp_pools\<close>: the pools of \<open>memp_std.h\<close> in this configuration, in order.\<close>

datatype memp_t = MEMP_RAW_PCB | MEMP_UDP_PCB | MEMP_TCP_PCB | MEMP_TCP_PCB_LISTEN | MEMP_TCP_SEG
  | MEMP_REASSDATA | MEMP_FRAG_PBUF | MEMP_NETBUF | MEMP_NETCONN | MEMP_TCPIP_MSG_API
  | MEMP_TCPIP_MSG_INPKT | MEMP_ARP_QUEUE | MEMP_IGMP_GROUP | MEMP_SYS_TIMEOUT | MEMP_NETDB
  | MEMP_PBUF | MEMP_PBUF_POOL

fun memp_num :: "memp_t \<Rightarrow> nat" where
  "memp_num MEMP_RAW_PCB = 3"
| "memp_num MEMP_UDP_PCB = 4"
| "memp_num MEMP_TCP_PCB = 5"
| "memp_num MEMP_TCP_PCB_LISTEN = 8"
| "memp_num MEMP_TCP_SEG = 16"
| "memp_num MEMP_REASSDATA = 10"
| "memp_num MEMP_FRAG_PBUF = 15"
| "memp_num MEMP_NETBUF = 2"
| "memp_num MEMP_NETCONN = 10"
| "memp_num MEMP_TCPIP_MSG_API = 16"
| "memp_num MEMP_TCPIP_MSG_INPKT = 16"
| "memp_num MEMP_ARP_QUEUE = 30"
| "memp_num MEMP_IGMP_GROUP = 8"
| "memp_num MEMP_SYS_TIMEOUT = 15"
| "memp_num MEMP_NETDB = 1"
| "memp_num MEMP_PBUF = 16"
| "memp_num MEMP_PBUF_POOL = 160"

definition memp_types :: "memp_t list" where
  "memp_types = [MEMP_RAW_PCB, MEMP_UDP_PCB, MEMP_TCP_PCB, MEMP_TCP_PCB_LISTEN, MEMP_TCP_SEG,
     MEMP_REASSDATA, MEMP_FRAG_PBUF, MEMP_NETBUF, MEMP_NETCONN, MEMP_TCPIP_MSG_API,
     MEMP_TCPIP_MSG_INPKT, MEMP_ARP_QUEUE, MEMP_IGMP_GROUP, MEMP_SYS_TIMEOUT, MEMP_NETDB,
     MEMP_PBUF, MEMP_PBUF_POOL]"

type_synonym memps = "memp_t \<Rightarrow> memp_pool"

definition memp_pools :: "(memp_t \<Rightarrow> nat) \<Rightarrow> memp_t \<Rightarrow> memp_desc" where
  "memp_pools szof t = mempool_desc (memp_num t) (szof t)"

definition memp_init :: "(memp_t \<Rightarrow> nat) \<Rightarrow> memps \<Rightarrow> memps" where
  "memp_init szof ps = fold (\<lambda>t ps. ps(t := memp_init_pool (memp_pools szof t) (ps t))) memp_types ps"

text \<open>The pool number is an enumeration value: the test \<open>type < MEMP_MAX\<close> holds of every
  constructor.\<close>

definition memp_malloc :: "memp_t \<Rightarrow> memps \<Rightarrow> (nat option \<times> memps) option" where
  "memp_malloc t ps = do {
     (m, p) \<leftarrow> do_memp_malloc_pool (ps t);
     Some (m, ps(t := p)) }"

definition memp_free :: "memp_t \<Rightarrow> nat option \<Rightarrow> memps \<Rightarrow> memps option" where
  "memp_free t mem ps =
     (case mem of
        None \<Rightarrow> Some ps
      | Some m \<Rightarrow> do {
          p \<leftarrow> do_memp_free_pool m (ps t);
          Some (ps(t := p)) })"

section \<open>The invariant of a pool\<close>

definition elems :: "memp_desc \<Rightarrow> nat set" where
  "elems d = (\<lambda>i. i * desc_size d) ` {..<desc_num d}"

definition desc_ok :: "memp_desc \<Rightarrow> bool" where
  "desc_ok d \<longleftrightarrow> 0 < desc_size d \<and> desc_size d mod MEM_ALIGNMENT = 0 \<and> desc_num d < 65536"

text \<open>The free list, read off by following the links at most \<open>desc_num\<close> times.\<close>

fun free_list :: "nat \<Rightarrow> (nat \<Rightarrow> nat option) \<Rightarrow> nat option \<Rightarrow> nat list" where
  "free_list 0 nx p = []"
| "free_list (Suc k) nx p = (case p of None \<Rightarrow> [] | Some x \<Rightarrow> x # free_list k nx (nx x))"

definition pool_free :: "memp_desc \<Rightarrow> memp_pool \<Rightarrow> nat list" where
  "pool_free d p = free_list (desc_num d) (link p) (tab p)"

definition pool_live :: "memp_desc \<Rightarrow> memp_pool \<Rightarrow> nat set" where
  "pool_live d p = elems d - set (pool_free d p)"

definition pool_inv :: "memp_desc \<Rightarrow> memp_pool \<Rightarrow> bool" where
  "pool_inv d p \<longleftrightarrow> chain (link p) (tab p) (pool_free d p) \<and> set (pool_free d p) \<subseteq> elems d \<and>
     pool_used p = card (pool_live d p)"

lemma elems_finite [simp]: "finite (elems d)"
  by (simp add: elems_def)

lemma elems_card: "desc_ok d \<Longrightarrow> card (elems d) = desc_num d"
  unfolding elems_def by (subst card_image) (auto simp: inj_on_def desc_ok_def)

lemma elems_aligned: "desc_ok d \<Longrightarrow> e \<in> elems d \<Longrightarrow> e mod 4 = 0"
  by (auto simp: elems_def desc_ok_def mod_0_imp_dvd)

lemma free_list_chain: "chain nx p xs \<Longrightarrow> length xs \<le> k \<Longrightarrow> free_list k nx p = xs"
proof (induction xs arbitrary: p k)
  case Nil
  then show ?case by (cases k) auto
next
  case (Cons x xs)
  then show ?case by (cases k) auto
qed

text \<open>A list of distinct elements has at most \<open>desc_num\<close> members, so the bound of
  \<open>free_list\<close> loses nothing.\<close>

lemma pool_free_eq:
  assumes d: "desc_ok d" and c: "chain (link p) (tab p) xs" and s: "set xs \<subseteq> elems d"
  shows "pool_free d p = xs"
proof -
  have "length xs = card (set xs)" using chain_distinct [OF c] by (simp add: distinct_card)
  also have "\<dots> \<le> card (elems d)" by (rule card_mono [OF elems_finite s])
  finally show ?thesis using free_list_chain [OF c] by (simp add: pool_free_def elems_card [OF d])
qed

lemma pool_invI:
  assumes "desc_ok d" "chain (link p) (tab p) xs" "set xs \<subseteq> elems d" "pool_used p = card (elems d - set xs)"
  shows "pool_inv d p" "pool_live d p = elems d - set xs"
  using assms pool_free_eq [OF assms(1-3)] by (simp_all add: pool_inv_def pool_live_def)

lemma pool_live_card:
  assumes "desc_ok d" "pool_inv d p"
  shows "card (pool_live d p) \<le> desc_num d" "finite (pool_live d p)"
  using card_mono [OF elems_finite, of "pool_live d p" d] elems_card [OF assms(1)]
  by (auto simp: pool_live_def)

section \<open>The operations keep it\<close>

lemma memp_init_loop_chain:
  assumes "chain (link p) (tab p) xs" "\<forall>x\<in>set xs. x < m" "0 < desc_size d"
  shows "chain (link (memp_init_loop d k m p)) (tab (memp_init_loop d k m p))
      (rev (map (\<lambda>i. m + i * desc_size d) [0..<k]) @ xs) \<and>
    pool_used (memp_init_loop d k m p) = pool_used p"
  using assms
proof (induction d k m p arbitrary: xs rule: memp_init_loop.induct)
  case (2 d k m p)
  let ?p = "p\<lparr>link := (link p)(m := tab p), tab := Some m\<rparr>"
  have "chain (link ?p) (tab ?p) (m # xs)" using 2(2,3) by auto
  moreover have "\<forall>x\<in>set (m # xs). x < m + desc_size d" using 2(3,4) by force
  moreover have "map (\<lambda>i. m + i * desc_size d) [0..<Suc k]
      = m # map (\<lambda>i. m + desc_size d + i * desc_size d) [0..<k]"
    by (simp add: upt_conv_Cons map_Suc_upt [symmetric] del: upt_Suc)
  ultimately show ?case using 2(1) [of "m # xs"] 2(4) by (simp del: upt_Suc fun_upd_apply)
qed simp

lemma memp_init_pool_inv:
  assumes d: "desc_ok d" and u: "pool_used p = 0"
  shows "pool_inv d (memp_init_pool d p)" "pool_live d (memp_init_pool d p) = {}"
proof -
  let ?xs = "rev (map (\<lambda>i. 0 + i * desc_size d) [0..<desc_num d]) @ []"
  let ?p = "memp_init_loop d (desc_num d) 0 (p\<lparr>tab := None\<rparr>)"
  have *: "chain (link ?p) (tab ?p) ?xs \<and> pool_used ?p = pool_used (p\<lparr>tab := None\<rparr>)"
    by (rule memp_init_loop_chain) (use d in \<open>simp_all add: desc_ok_def\<close>)
  have "set ?xs = elems d" by (simp add: elems_def atLeast_upt)
  with * u pool_invI [OF d, of "memp_init_pool d p" ?xs]
  show "pool_inv d (memp_init_pool d p)" "pool_live d (memp_init_pool d p) = {}"
    by (simp_all add: memp_init_pool_def)
qed

lemma do_memp_malloc_pool_spec:
  assumes d: "desc_ok d" and inv: "pool_inv d p"
  shows "\<exists>r q. do_memp_malloc_pool p = Some (r, q) \<and> pool_inv d q \<and>
    (case r of
       None \<Rightarrow> pool_live d p = elems d \<and> pool_live d q = pool_live d p
     | Some m \<Rightarrow> m \<in> elems d \<and> m \<notin> pool_live d p \<and> pool_live d q = insert m (pool_live d p))"
proof -
  define xs where "xs = pool_free d p"
  have c: "chain (link p) (tab p) xs" and s: "set xs \<subseteq> elems d" and u: "pool_used p = card (elems d - set xs)"
    using inv by (simp_all add: pool_inv_def pool_live_def xs_def)
  have live: "pool_live d p = elems d - set xs" by (simp add: pool_live_def xs_def)
  show ?thesis
  proof (cases xs)
    case Nil
    then have "tab p = None" using c by simp
    moreover have "pool_inv d (p\<lparr>pool_err := e\<rparr>)" "pool_live d (p\<lparr>pool_err := e\<rparr>) = pool_live d p" for e
      using inv by (simp_all add: pool_inv_def pool_live_def pool_free_def)
    ultimately show ?thesis using live Nil by (simp add: do_memp_malloc_pool_def)
  next
    case (Cons m ys)
    have m: "m \<in> elems d" "tab p = Some m" "chain (link p) (link p m) ys" "m \<notin> set ys"
      using c s Cons chain_distinct [OF c] by auto
    have eq: "elems d - set ys = insert m (elems d - set xs)" using m(1,4) Cons by auto
    have card: "card (elems d - set ys) = pool_used p + 1"
      unfolding eq u using Cons by (subst card_insert_disjoint) auto
    have "card (elems d - set ys) \<le> desc_num d"
      unfolding elems_card [OF d, symmetric] by (rule card_mono) auto
    with card d have "u16 (pool_used p + 1) = pool_used p + 1" by (intro u16_id) (simp add: desc_ok_def)
    moreover note m(2) elems_aligned [OF d m(1)]
    ultimately obtain q where q: "do_memp_malloc_pool p = Some (Some m, q)" "link q = link p"
      "tab q = link p m" "pool_used q = pool_used p + 1"
      by (auto simp: do_memp_malloc_pool_def Let_def)
    have "chain (link q) (tab q) ys" "set ys \<subseteq> elems d" "pool_used q = card (elems d - set ys)"
      using q m s Cons card by simp_all
    note pool_invI [OF d this]
    then show ?thesis using q(1) eq live m(1) Cons by auto
  qed
qed

lemma do_memp_free_pool_spec:
  assumes d: "desc_ok d" and inv: "pool_inv d p" and m: "m \<in> pool_live d p"
  shows "\<exists>q. do_memp_free_pool m p = Some q \<and> pool_inv d q \<and> pool_live d q = pool_live d p - {m}"
proof -
  define xs where "xs = pool_free d p"
  have c: "chain (link p) (tab p) xs" and s: "set xs \<subseteq> elems d" and u: "pool_used p = card (elems d - set xs)"
    using inv by (simp_all add: pool_inv_def pool_live_def xs_def)
  have live: "pool_live d p = elems d - set xs" by (simp add: pool_live_def xs_def)
  have mE: "m \<in> elems d" "m \<notin> set xs" using m live by auto
  have "elems d - set (m # xs) = (elems d - set xs) - {m}" by auto
  then have card: "card (elems d - set (m # xs)) = pool_used p - 1"
    using mE unfolding u by (simp add: card_Diff_singleton)
  have pos: "0 < pool_used p" unfolding u using mE by (subst card_gt_0_iff) auto
  have "pool_used p \<le> desc_num d" unfolding u elems_card [OF d, symmetric] by (rule card_mono) auto
  then have "sub16 (pool_used p) 1 = pool_used p - 1"
    using pos d by (intro sub16_id) (simp_all add: desc_ok_def)
  moreover note elems_aligned [OF d mE(1)]
  ultimately obtain q where q: "do_memp_free_pool m p = Some q" "link q = (link p)(m := tab p)"
    "tab q = Some m" "pool_used q = pool_used p - 1"
    by (auto simp: do_memp_free_pool_def Let_def)
  have "chain (link q) (tab q) (m # xs)" "set (m # xs) \<subseteq> elems d"
    "pool_used q = card (elems d - set (m # xs))"
    using q c s mE card by simp_all
  note pool_invI [OF d this]
  then show ?thesis using q(1) live by auto
qed

section \<open>Pools as an interface\<close>

text \<open>What users of a pool rely on: elements handed out are fresh, allocation fails only when
  all elements are in use, and released elements can be handed out again.\<close>

locale element_pool =
  fixes inv :: "'p \<Rightarrow> bool" and live :: "'p \<Rightarrow> 'a set" and cap :: nat
    and alloc :: "'p \<Rightarrow> ('a option \<times> 'p) option" and release :: "'a \<Rightarrow> 'p \<Rightarrow> 'p option"
  assumes live_cap: "inv p \<Longrightarrow> finite (live p) \<and> card (live p) \<le> cap"
    and alloc_law: "inv p \<Longrightarrow> \<exists>r q. alloc p = Some (r, q) \<and> inv q \<and>
      (case r of None \<Rightarrow> card (live p) = cap \<and> live q = live p
       | Some a \<Rightarrow> a \<notin> live p \<and> live q = insert a (live p))"
    and release_law: "inv p \<Longrightarrow> a \<in> live p \<Longrightarrow> \<exists>q. release a p = Some q \<and> inv q \<and> live q = live p - {a}"
begin

lemma alloc_succeeds:
  assumes "inv p" "card (live p) < cap"
  shows "\<exists>a q. alloc p = Some (Some a, q) \<and> inv q \<and> a \<notin> live p \<and> live q = insert a (live p)"
  using alloc_law [OF assms(1)] assms(2) by (auto split: option.splits)

lemma alloc_fails:
  assumes "inv p" "card (live p) = cap"
  shows "\<exists>q. alloc p = Some (None, q) \<and> inv q \<and> live q = live p"
proof -
  obtain r q where r: "alloc p = Some (r, q)" "inv q" "case r of None \<Rightarrow> card (live p) = cap \<and> live q = live p
       | Some a \<Rightarrow> a \<notin> live p \<and> live q = insert a (live p)"
    using alloc_law [OF assms(1)] by blast
  then show ?thesis using live_cap [OF assms(1)] live_cap [OF r(2)] assms(2) by (cases r) auto
qed

lemma release_alloc:
  assumes "inv p" "a \<in> live p"
  shows "\<exists>q b r. release a p = Some q \<and> alloc q = Some (Some b, r) \<and> inv r \<and>
    b \<notin> live p - {a} \<and> live r = insert b (live p - {a})"
proof -
  obtain q where q: "release a p = Some q" "inv q" "live q = live p - {a}"
    using release_law [OF assms] by blast
  have "card (live q) < card (live p)"
    unfolding q(3) using live_cap [OF assms(1)] assms(2) by (intro card_Diff1_less) simp_all
  with alloc_succeeds [OF q(2)] live_cap [OF assms(1)] q show ?thesis by auto
qed

end

text \<open>The pool of each type implements it.\<close>

definition szof_ok :: "(memp_t \<Rightarrow> nat) \<Rightarrow> bool" where
  "szof_ok szof \<longleftrightarrow> (\<forall>t\<in>set memp_types. 0 < szof t \<and> szof t \<le> 65532)"

lemma memp_types_all: "t \<in> set memp_types"
  by (cases t) (simp_all add: memp_types_def)

lemma memp_types_distinct: "distinct memp_types"
  by (simp add: memp_types_def)

lemma memp_num_bound: "memp_num t \<le> 160"
  by (cases t) simp_all

lemma memp_pools_ok: "szof_ok szof \<Longrightarrow> desc_ok (memp_pools szof t)"
  using memp_types_all [of t] memp_num_bound [of t]
  by (auto simp: szof_ok_def desc_ok_def memp_pools_def mempool_desc_def align_size dest!: bspec [of _ _ t])

definition memps_inv :: "(memp_t \<Rightarrow> nat) \<Rightarrow> memps \<Rightarrow> bool" where
  "memps_inv szof ps \<longleftrightarrow> szof_ok szof \<and> (\<forall>t. pool_inv (memp_pools szof t) (ps t))"

definition memp_live :: "(memp_t \<Rightarrow> nat) \<Rightarrow> memps \<Rightarrow> memp_t \<Rightarrow> nat set" where
  "memp_live szof ps t = pool_live (memp_pools szof t) (ps t)"

lemma memp_malloc_spec:
  assumes inv: "memps_inv szof ps"
  shows "\<exists>r qs. memp_malloc t ps = Some (r, qs) \<and> memps_inv szof qs \<and>
    (\<forall>t'. t' \<noteq> t \<longrightarrow> qs t' = ps t') \<and>
    (case r of
       None \<Rightarrow> card (memp_live szof ps t) = memp_num t \<and> memp_live szof qs t = memp_live szof ps t
     | Some m \<Rightarrow> m \<in> elems (memp_pools szof t) \<and> m \<notin> memp_live szof ps t \<and>
         memp_live szof qs t = insert m (memp_live szof ps t))"
proof -
  have d: "desc_ok (memp_pools szof t)" using inv memp_pools_ok by (simp add: memps_inv_def)
  have i: "pool_inv (memp_pools szof t) (ps t)" using inv by (simp add: memps_inv_def)
  obtain r q where q: "do_memp_malloc_pool (ps t) = Some (r, q)" "pool_inv (memp_pools szof t) q"
    "case r of
       None \<Rightarrow> pool_live (memp_pools szof t) (ps t) = elems (memp_pools szof t) \<and>
         pool_live (memp_pools szof t) q = pool_live (memp_pools szof t) (ps t)
     | Some m \<Rightarrow> m \<in> elems (memp_pools szof t) \<and> m \<notin> pool_live (memp_pools szof t) (ps t) \<and>
         pool_live (memp_pools szof t) q = insert m (pool_live (memp_pools szof t) (ps t))"
    using do_memp_malloc_pool_spec [OF d i] by blast
  then show ?thesis using inv elems_card [OF d]
    by (cases r) (auto simp: memp_malloc_def memps_inv_def memp_live_def memp_pools_def mempool_desc_def)
qed

lemma memp_free_spec:
  assumes inv: "memps_inv szof ps" and m: "m \<in> memp_live szof ps t"
  shows "\<exists>qs. memp_free t (Some m) ps = Some qs \<and> memps_inv szof qs \<and> (\<forall>t'. t' \<noteq> t \<longrightarrow> qs t' = ps t') \<and>
    memp_live szof qs t = memp_live szof ps t - {m}"
proof -
  have d: "desc_ok (memp_pools szof t)" and i: "pool_inv (memp_pools szof t) (ps t)"
    using inv memp_pools_ok by (simp_all add: memps_inv_def)
  obtain q where "do_memp_free_pool m (ps t) = Some q" "pool_inv (memp_pools szof t) q"
    "pool_live (memp_pools szof t) q = pool_live (memp_pools szof t) (ps t) - {m}"
    using do_memp_free_pool_spec [OF d i] m by (auto simp: memp_live_def)
  then show ?thesis using inv by (auto simp: memp_free_def memps_inv_def memp_live_def)
qed

interpretation memp: element_pool "memps_inv szof" "\<lambda>ps. memp_live szof ps t" "memp_num t"
  "memp_malloc t" "\<lambda>m. memp_free t (Some m)" for szof t
proof unfold_locales
  show "finite (memp_live szof p t) \<and> card (memp_live szof p t) \<le> memp_num t"
    if "memps_inv szof p" for p
    using pool_live_card [OF memp_pools_ok, of szof t "p t"] that
    by (simp add: memps_inv_def memp_live_def memp_pools_def mempool_desc_def)
  show "\<exists>r q. memp_malloc t p = Some (r, q) \<and> memps_inv szof q \<and>
      (case r of None \<Rightarrow> card (memp_live szof p t) = memp_num t \<and> memp_live szof q t = memp_live szof p t
       | Some a \<Rightarrow> a \<notin> memp_live szof p t \<and> memp_live szof q t = insert a (memp_live szof p t))"
    if inv: "memps_inv szof p" for p
  proof -
    obtain r q where *: "memp_malloc t p = Some (r, q)" "memps_inv szof q" "case r of
       None \<Rightarrow> card (memp_live szof p t) = memp_num t \<and> memp_live szof q t = memp_live szof p t
     | Some m \<Rightarrow> m \<in> elems (memp_pools szof t) \<and> m \<notin> memp_live szof p t \<and>
         memp_live szof q t = insert m (memp_live szof p t)"
      using memp_malloc_spec [OF inv, of t] by blast
    then show ?thesis by (cases r) auto
  qed
  show "\<exists>q. memp_free t (Some a) p = Some q \<and> memps_inv szof q \<and> memp_live szof q t = memp_live szof p t - {a}"
    if "memps_inv szof p" "a \<in> memp_live szof p t" for p a
    using memp_free_spec [OF that] by blast
qed

section \<open>Runs over all pools\<close>

text \<open>The user of an element may write to it, link field included.\<close>

datatype memp_op = Get memp_t | Put memp_t nat | Scribble memp_t nat "nat option"

fun memp_step :: "memp_op \<Rightarrow> memps \<Rightarrow> memps option" where
  "memp_step (Get t) ps = map_option snd (memp_malloc t ps)"
| "memp_step (Put t m) ps = memp_free t (Some m) ps"
| "memp_step (Scribble t m v) ps = Some (ps(t := (ps t)\<lparr>link := (link (ps t))(m := v)\<rparr>))"

fun memp_legal :: "(memp_t \<Rightarrow> nat) \<Rightarrow> memp_op \<Rightarrow> memps \<Rightarrow> bool" where
  "memp_legal szof (Get t) ps \<longleftrightarrow> True"
| "memp_legal szof (Put t m) ps \<longleftrightarrow> m \<in> memp_live szof ps t"
| "memp_legal szof (Scribble t m v) ps \<longleftrightarrow> m \<in> memp_live szof ps t"

lemma scribble_inv:
  assumes inv: "memps_inv szof ps" and m: "m \<in> memp_live szof ps t"
  shows "memps_inv szof (ps(t := (ps t)\<lparr>link := (link (ps t))(m := v)\<rparr>))"
proof -
  let ?d = "memp_pools szof t" and ?p = "(ps t)\<lparr>link := (link (ps t))(m := v)\<rparr>"
  let ?xs = "pool_free ?d (ps t)"
  have d: "desc_ok ?d" and i: "pool_inv ?d (ps t)" using inv memp_pools_ok by (simp_all add: memps_inv_def)
  have "m \<notin> set ?xs" using m by (simp add: memp_live_def pool_live_def)
  then have "pool_inv ?d ?p"
    using i by (intro pool_invI [OF d, of ?p ?xs]) (simp_all add: pool_inv_def pool_live_def)
  then show ?thesis using inv by (simp add: memps_inv_def)
qed

interpretation memp_sys: stepper "memps_inv szof" "memp_legal szof" memp_step for szof
proof
  show "\<exists>t. memp_step x s = Some t \<and> memps_inv szof t" if "memps_inv szof s" "memp_legal szof x s" for s x
  proof (cases x)
    case (Get k)
    then show ?thesis using memp_malloc_spec [OF that(1), of k] by auto
  next
    case (Put k m)
    then show ?thesis using memp_free_spec [OF that(1), of m k] that(2) by auto
  next
    case (Scribble k m v)
    then show ?thesis using scribble_inv [OF that(1), of m k v] that(2) by simp
  qed
qed

lemma memp_init_at: "memp_init szof ps t = memp_init_pool (memp_pools szof t) (ps t)"
proof -
  have "fold (\<lambda>t ps. ps(t := f t (ps t))) ts ps t = (if t \<in> set ts then f t (ps t) else ps t)"
    if "distinct ts" for ts :: "memp_t list" and f and ps :: memps and t
    using that by (induction ts arbitrary: ps) auto
  from this [OF memp_types_distinct, of "\<lambda>t. memp_init_pool (memp_pools szof t)" ps t] show ?thesis
    using memp_types_all [of t] by (simp add: memp_init_def)
qed

lemma memp_init_inv:
  assumes "szof_ok szof" "\<forall>t. pool_used (ps t) = 0"
  shows "memps_inv szof (memp_init szof ps)" "memp_live szof (memp_init szof ps) t = {}"
  using assms memp_init_pool_inv [OF memp_pools_ok]
  by (auto simp: memps_inv_def memp_live_def memp_init_at)

section \<open>Properties\<close>

text \<open>Static storage before \<open>memp_init\<close>, and element sizes for the witnesses.\<close>

definition memps_zero :: memps where
  "memps_zero = (\<lambda>_. \<lparr>tab = None, link = \<lambda>_. None, pool_avail = 0, pool_used = 0, pool_max = 0, pool_err = 0\<rparr>)"

definition szof_32 :: "memp_t \<Rightarrow> nat" where
  "szof_32 t = 32"

lemma memps_zero_inv: "memps_inv szof_32 (memp_init szof_32 memps_zero)"
  by (rule memp_init_inv) (simp_all add: szof_ok_def szof_32_def memps_zero_def)

text \<open>C6: After \<open>memp_init\<close> every sequence of \<open>memp_malloc\<close>, \<open>memp_free\<close> of elements in use and writes by
  users to their elements (the link field of the free list included) runs without an
  assertion failure.  In the state reached every pool's free list is acyclic and consists of
  elements of the pool, and the counter of used elements is exact and at most the pool's size.\<close>

theorem memp_run_safe:
  assumes "szof_ok szof" "\<forall>t. pool_used (ps t) = 0"
    and "lawful (memp_legal szof) memp_step xs (memp_init szof ps)"
  shows "\<exists>qs. run memp_step xs (memp_init szof ps) = Some qs \<and>
    (\<forall>t. chain (link (qs t)) (tab (qs t)) (pool_free (memp_pools szof t) (qs t)) \<and>
       set (pool_free (memp_pools szof t) (qs t)) \<subseteq> elems (memp_pools szof t) \<and>
       pool_used (qs t) = card (memp_live szof qs t) \<and> pool_used (qs t) \<le> memp_num t)"
proof -
  obtain qs where qs: "run memp_step xs (memp_init szof ps) = Some qs" "memps_inv szof qs"
    using memp_sys.run_ok [OF memp_init_inv(1) [OF assms(1,2)] assms(3)] by blast
  then show ?thesis using memp.live_cap [OF qs(2)]
    by (auto simp: memps_inv_def pool_inv_def memp_live_def)
qed

text \<open>C7: \<open>memp_malloc\<close> fails exactly when all elements of its pool are in use, else it returns an element
  of the pool that nobody holds; the other pools are not touched.  A \<open>memp_free\<close> makes a
  following \<open>memp_malloc\<close> succeed.\<close>

theorem memp_malloc_exact:
  assumes "memps_inv szof ps"
  shows "(card (memp_live szof ps t) = memp_num t \<longrightarrow> (\<exists>qs. memp_malloc t ps = Some (None, qs))) \<and>
    (card (memp_live szof ps t) < memp_num t \<longrightarrow>
       (\<exists>m qs. memp_malloc t ps = Some (Some m, qs) \<and> m \<in> elems (memp_pools szof t) \<and> m \<notin> memp_live szof ps t \<and>
          memp_live szof qs t = insert m (memp_live szof ps t) \<and> (\<forall>t'. t' \<noteq> t \<longrightarrow> qs t' = ps t'))) \<and>
    (\<forall>a\<in>memp_live szof ps t. \<exists>qs b rs. memp_free t (Some a) ps = Some qs \<and>
       memp_malloc t qs = Some (Some b, rs) \<and> b \<notin> memp_live szof ps t - {a})"
proof (intro conjI impI ballI)
  assume "card (memp_live szof ps t) = memp_num t"
  then show "\<exists>qs. memp_malloc t ps = Some (None, qs)" using memp.alloc_fails [OF assms] by blast
next
  assume *: "card (memp_live szof ps t) < memp_num t"
  obtain r qs where "memp_malloc t ps = Some (r, qs)" "\<forall>t'. t' \<noteq> t \<longrightarrow> qs t' = ps t'" "case r of
       None \<Rightarrow> card (memp_live szof ps t) = memp_num t \<and> memp_live szof qs t = memp_live szof ps t
     | Some m \<Rightarrow> m \<in> elems (memp_pools szof t) \<and> m \<notin> memp_live szof ps t \<and>
         memp_live szof qs t = insert m (memp_live szof ps t)"
    using memp_malloc_spec [OF assms, of t] by blast
  then show "\<exists>m qs. memp_malloc t ps = Some (Some m, qs) \<and> m \<in> elems (memp_pools szof t) \<and> m \<notin> memp_live szof ps t \<and>
          memp_live szof qs t = insert m (memp_live szof ps t) \<and> (\<forall>t'. t' \<noteq> t \<longrightarrow> qs t' = ps t')"
    using * by (cases r) auto
next
  fix a assume "a \<in> memp_live szof ps t"
  then show "\<exists>qs b rs. memp_free t (Some a) ps = Some qs \<and>
       memp_malloc t qs = Some (Some b, rs) \<and> b \<notin> memp_live szof ps t - {a}"
    using memp.release_alloc [OF assms] by blast
qed

theorem memp_run_safe_witness:
  "\<exists>qs. run memp_step [Get MEMP_PBUF, Get MEMP_PBUF, Get MEMP_TCP_PCB] (memp_init szof_32 memps_zero) = Some qs \<and>
     pool_used (qs MEMP_PBUF) \<le> 16"
proof -
  have "lawful (memp_legal szof_32) memp_step [Get MEMP_PBUF, Get MEMP_PBUF, Get MEMP_TCP_PCB]
    (memp_init szof_32 memps_zero)" by (simp split: option.split)
  moreover have "szof_ok szof_32" "\<forall>t. pool_used (memps_zero t) = 0"
    by (simp_all add: szof_ok_def szof_32_def memps_zero_def)
  ultimately obtain qs where "run memp_step [Get MEMP_PBUF, Get MEMP_PBUF, Get MEMP_TCP_PCB]
      (memp_init szof_32 memps_zero) = Some qs" "\<forall>t. pool_used (qs t) \<le> memp_num t"
    using memp_run_safe [of szof_32 memps_zero] by blast
  moreover from this(2) have "pool_used (qs MEMP_PBUF) \<le> memp_num MEMP_PBUF" by blast
  ultimately show ?thesis by auto
qed

theorem memp_malloc_exact_witness:
  "\<exists>m qs. memp_malloc MEMP_NETDB (memp_init szof_32 memps_zero) = Some (Some m, qs)"
  using memp_malloc_exact [OF memps_zero_inv, of MEMP_NETDB]
    memp_init_inv(2) [of szof_32 memps_zero MEMP_NETDB]
  by (auto simp: szof_ok_def szof_32_def memps_zero_def)

end
