(* ===== verification/Timeouts.thy ===== *)
theory Timeouts
  imports Memp
begin

text \<open>
  The timer list of \<open>src/lwip/src/core/timeouts.c\<close>.  A \<open>struct sys_timeo\<close> is an element of the
  pool \<open>MEMP_SYS_TIMEOUT\<close> and is named by its offset there; the list links elements with times
  relative to the predecessor, the first relative to \<open>timeouts_last_time\<close>.  Times are 32-bit
  words.  \<open>sys_now()\<close> reads the field \<open>clock\<close>, which the environment advances.  Callback functions
  other than the two of this file are named by numbers, and what they do is a
  parameter of the operations that call them.
\<close>

section \<open>State and operations\<close>

datatype sys_timeout_handler = Cyclic_Timer | Tcpip_Tcp_Timer | Callback nat

record sys_timeo =
  to_next :: "nat option"
  to_time :: u32_t
  to_h :: "sys_timeout_handler option"
  to_arg :: nat

record timeouts =
  next_timeout :: "nat option"
  timeouts_last_time :: u32_t
  timeo :: "nat \<Rightarrow> sys_timeo"
  tm_pools :: memps
  tcpip_tcp_timer_active :: bool
  tcp_pcbs :: bool
  clock :: u32_t

definition sys_now :: "'z timeouts_scheme \<Rightarrow> u32_t" where
  "sys_now s = clock s"

definition set_time :: "nat \<Rightarrow> u32_t \<Rightarrow> 'z timeouts_scheme \<Rightarrow> 'z timeouts_scheme" where
  "set_time t v s = s\<lparr>timeo := (timeo s)(t := (timeo s t)\<lparr>to_time := v\<rparr>)\<rparr>"

definition set_tnext :: "nat \<Rightarrow> nat option \<Rightarrow> 'z timeouts_scheme \<Rightarrow> 'z timeouts_scheme" where
  "set_tnext t v s = s\<lparr>timeo := (timeo s)(t := (timeo s t)\<lparr>to_next := v\<rparr>)\<rparr>"

text \<open>The loop of \<open>sys_timeout\<close> that looks for the place of the new element.\<close>

partial_function (option) sys_timeout_loop ::
  "nat \<Rightarrow> u32_t \<Rightarrow> nat option \<Rightarrow> 'z timeouts_scheme \<Rightarrow> 'z timeouts_scheme option" where
  "sys_timeout_loop timeout msecs p s =
     (case p of
        None \<Rightarrow> Some s
      | Some t \<Rightarrow>
          let s = set_time timeout (to_time (timeo s timeout) - to_time (timeo s t)) s in
          case to_next (timeo s t) of
            None \<Rightarrow>
              let s = (if msecs < to_time (timeo s timeout)
                       then set_time timeout (msecs + to_time (timeo s (the (next_timeout s)))) s else s);
                  s = set_tnext timeout (to_next (timeo s t)) s
              in Some (set_tnext t (Some timeout) s)
          | Some n \<Rightarrow>
              if to_time (timeo s timeout) < to_time (timeo s n) then
                let s = set_time n (to_time (timeo s n) - to_time (timeo s timeout)) s;
                    s = set_tnext timeout (to_next (timeo s t)) s
                in Some (set_tnext t (Some timeout) s)
              else sys_timeout_loop timeout msecs (to_next (timeo s t)) s)"

definition sys_timeout :: "u32_t \<Rightarrow> sys_timeout_handler option \<Rightarrow> nat \<Rightarrow> 'z timeouts_scheme \<Rightarrow> 'z timeouts_scheme option" where
  "sys_timeout msecs handler arg s = do {
     (m, ps) \<leftarrow> memp_malloc MEMP_SYS_TIMEOUT (tm_pools s);
     let s = s\<lparr>tm_pools := ps\<rparr>;
     case m of
       None \<Rightarrow> do { lwip_assert (m \<noteq> None); Some s }
     | Some timeout \<Rightarrow>
         let now = sys_now s;
             diff = (if next_timeout s = None then 0 else now - timeouts_last_time s);
             s = (if next_timeout s = None then s\<lparr>timeouts_last_time := now\<rparr> else s);
             s = s\<lparr>timeo := (timeo s)(timeout :=
                   \<lparr>to_next = None, to_time = msecs + diff, to_h = handler, to_arg = arg\<rparr>)\<rparr>
         in case next_timeout s of
              None \<Rightarrow> Some (s\<lparr>next_timeout := Some timeout\<rparr>)
            | Some n \<Rightarrow>
                if msecs < to_time (timeo s n) then
                  let s = set_time n (to_time (timeo s n) - msecs) s;
                      s = set_tnext timeout (next_timeout s) s
                  in Some (s\<lparr>next_timeout := Some timeout\<rparr>)
                else sys_timeout_loop timeout msecs (next_timeout s) s }"

text \<open>The loop of \<open>sys_untimeout\<close>.\<close>

partial_function (option) sys_untimeout_loop ::
  "sys_timeout_handler option \<Rightarrow> nat \<Rightarrow> nat option \<Rightarrow> nat option \<Rightarrow> 'z timeouts_scheme \<Rightarrow> 'z timeouts_scheme option" where
  "sys_untimeout_loop handler arg prev p s =
     (case p of
        None \<Rightarrow> Some s
      | Some t \<Rightarrow>
          if to_h (timeo s t) = handler \<and> to_arg (timeo s t) = arg then
            let s = (case prev of
                       None \<Rightarrow> s\<lparr>next_timeout := to_next (timeo s t)\<rparr>
                     | Some q \<Rightarrow> set_tnext q (to_next (timeo s t)) s);
                s = (case to_next (timeo s t) of
                       None \<Rightarrow> s
                     | Some n \<Rightarrow> set_time n (to_time (timeo s n) + to_time (timeo s t)) s)
            in map_option (\<lambda>ps. s\<lparr>tm_pools := ps\<rparr>) (memp_free MEMP_SYS_TIMEOUT (Some t) (tm_pools s))
          else sys_untimeout_loop handler arg (Some t) (to_next (timeo s t)) s)"

definition sys_untimeout :: "sys_timeout_handler option \<Rightarrow> nat \<Rightarrow> 'z timeouts_scheme \<Rightarrow> 'z timeouts_scheme option" where
  "sys_untimeout handler arg s =
     (if next_timeout s = None then Some s else sys_untimeout_loop handler arg None (next_timeout s) s)"

text \<open>The table of cyclic timers (\<open>tcp_tmr\<close>, \<open>ip_reass_tmr\<close>, \<open>etharp_tmr\<close>, \<open>igmp_tmr\<close>, \<open>dns_tmr\<close>).\<close>

definition lwip_cyclic_timers :: "u32_t list" where
  "lwip_cyclic_timers = [250, 1000, 1000, 100, 1000]"

definition tcpip_tcp_timer :: "('z timeouts_scheme \<Rightarrow> 'z timeouts_scheme option) \<Rightarrow> 'z timeouts_scheme \<Rightarrow> 'z timeouts_scheme option" where
  "tcpip_tcp_timer tcp_tmr s = do {
     s \<leftarrow> tcp_tmr s;
     if tcp_pcbs s then sys_timeout (lwip_cyclic_timers ! 0) (Some Tcpip_Tcp_Timer) 0 s
     else Some (s\<lparr>tcpip_tcp_timer_active := False\<rparr>) }"

definition tcp_timer_needed :: "'z timeouts_scheme \<Rightarrow> 'z timeouts_scheme option" where
  "tcp_timer_needed s =
     (if \<not> tcpip_tcp_timer_active s \<and> tcp_pcbs s then
        sys_timeout (lwip_cyclic_timers ! 0) (Some Tcpip_Tcp_Timer) 0 (s\<lparr>tcpip_tcp_timer_active := True\<rparr>)
      else Some s)"

text \<open>The argument of a cyclic timer is the index of its table entry.\<close>

definition cyclic_timer :: "(nat \<Rightarrow> 'z timeouts_scheme \<Rightarrow> 'z timeouts_scheme option) \<Rightarrow> nat \<Rightarrow> 'z timeouts_scheme \<Rightarrow> 'z timeouts_scheme option" where
  "cyclic_timer tmr i s = do {
     s \<leftarrow> tmr i s;
     sys_timeout (lwip_cyclic_timers ! i) (Some Cyclic_Timer) i s }"

text \<open>\<open>nows i\<close> is the time at which the loop body for \<open>i\<close> reads the clock.\<close>

fun sys_timeouts_init_loop :: "(nat \<Rightarrow> u32_t) \<Rightarrow> nat list \<Rightarrow> 'z timeouts_scheme \<Rightarrow> 'z timeouts_scheme option" where
  "sys_timeouts_init_loop nows [] s = Some s"
| "sys_timeouts_init_loop nows (i # is) s = do {
     s \<leftarrow> sys_timeout (lwip_cyclic_timers ! i) (Some Cyclic_Timer) i (s\<lparr>clock := nows i\<rparr>);
     sys_timeouts_init_loop nows is s }"

definition sys_timeouts_init :: "(nat \<Rightarrow> u32_t) \<Rightarrow> 'z timeouts_scheme \<Rightarrow> 'z timeouts_scheme option" where
  "sys_timeouts_init nows s = do {
     s \<leftarrow> sys_timeouts_init_loop nows [1..<length lwip_cyclic_timers] s;
     let s = s\<lparr>clock := nows (length lwip_cyclic_timers)\<rparr>;
     Some (s\<lparr>timeouts_last_time := sys_now s\<rparr>) }"

text \<open>The do-while loop of \<open>sys_check_timeouts\<close>; \<open>call\<close> is the effect of the callbacks.\<close>

type_synonym 'z handler_effect = "sys_timeout_handler \<Rightarrow> nat \<Rightarrow> 'z timeouts_scheme \<Rightarrow> 'z timeouts_scheme option"

partial_function (option) sys_check_loop ::
  "'z handler_effect \<Rightarrow> u32_t \<Rightarrow> 'z timeouts_scheme \<Rightarrow> 'z timeouts_scheme option" where
  "sys_check_loop call diff s =
     (case next_timeout s of
        None \<Rightarrow> Some s
      | Some t \<Rightarrow>
          if to_time (timeo s t) \<le> diff then do {
            let s = s\<lparr>timeouts_last_time := timeouts_last_time s + to_time (timeo s t)\<rparr>;
            let diff = diff - to_time (timeo s t);
            let s = s\<lparr>next_timeout := to_next (timeo s t)\<rparr>;
            let handler = to_h (timeo s t);
            let arg = to_arg (timeo s t);
            ps \<leftarrow> memp_free MEMP_SYS_TIMEOUT (Some t) (tm_pools s);
            let s = s\<lparr>tm_pools := ps\<rparr>;
            s \<leftarrow> (case handler of None \<Rightarrow> Some s | Some h \<Rightarrow> call h arg s);
            sys_check_loop call diff s }
          else Some s)"

definition sys_check_timeouts :: "'z handler_effect \<Rightarrow> 'z timeouts_scheme \<Rightarrow> 'z timeouts_scheme option" where
  "sys_check_timeouts call s =
     (if next_timeout s \<noteq> None then sys_check_loop call (sys_now s - timeouts_last_time s) s else Some s)"

text \<open>The callbacks of this file; \<open>user\<close> are the others.\<close>

fun run_handler :: "(nat \<Rightarrow> 'z timeouts_scheme \<Rightarrow> 'z timeouts_scheme option) \<Rightarrow> (nat \<Rightarrow> nat \<Rightarrow> 'z timeouts_scheme \<Rightarrow> 'z timeouts_scheme option) \<Rightarrow> 'z handler_effect" where
  "run_handler tmr user Cyclic_Timer arg s = cyclic_timer tmr arg s"
| "run_handler tmr user Tcpip_Tcp_Timer arg s = tcpip_tcp_timer (tmr 0) s"
| "run_handler tmr user (Callback n) arg s = user n arg s"

definition sys_restart_timeouts :: "'z timeouts_scheme \<Rightarrow> 'z timeouts_scheme" where
  "sys_restart_timeouts s = s\<lparr>timeouts_last_time := sys_now s\<rparr>"

definition sys_timeouts_sleeptime :: "'z timeouts_scheme \<Rightarrow> u32_t" where
  "sys_timeouts_sleeptime s =
     (case next_timeout s of
        None \<Rightarrow> 0xffffffff
      | Some t \<Rightarrow>
          let diff = sys_now s - timeouts_last_time s in
          if to_time (timeo s t) < diff then 0 else to_time (timeo s t) - diff)"

text \<open>\<open>fetch ms\<close> is \<open>sys_arch_mbox_fetch\<close>: the message, or None after \<open>ms\<close> milliseconds (0 waits
  forever).\<close>

partial_function (option) sys_timeouts_mbox_fetch ::
  "'z handler_effect \<Rightarrow> (u32_t \<Rightarrow> 'z timeouts_scheme \<Rightarrow> ('m option \<times> 'z timeouts_scheme) option) \<Rightarrow> 'z timeouts_scheme \<Rightarrow> ('m option \<times> 'z timeouts_scheme) option" where
  "sys_timeouts_mbox_fetch call fetch s =
     (if next_timeout s = None then fetch 0 s
      else
        let sleeptime = sys_timeouts_sleeptime s in
        if sleeptime = 0 then do {
          s \<leftarrow> sys_check_timeouts call s;
          sys_timeouts_mbox_fetch call fetch s }
        else do {
          (m, s) \<leftarrow> fetch sleeptime s;
          (case m of
             Some m \<Rightarrow> Some (Some m, s)
           | None \<Rightarrow> do {
               s \<leftarrow> sys_check_timeouts call s;
               sys_timeouts_mbox_fetch call fetch s }) })"

section \<open>The list it stands for\<close>

text \<open>The elements in list order, and each with its relative time and callback.\<close>

definition tm_link :: "'z timeouts_scheme \<Rightarrow> nat \<Rightarrow> nat option" where
  "tm_link s t = to_next (timeo s t)"

definition tm_nodes :: "'z timeouts_scheme \<Rightarrow> nat list" where
  "tm_nodes s = free_list (memp_num MEMP_SYS_TIMEOUT) (tm_link s) (next_timeout s)"

type_synonym timer = "u32_t \<times> sys_timeout_handler option \<times> nat"

definition tm_entry :: "'z timeouts_scheme \<Rightarrow> nat \<Rightarrow> timer" where
  "tm_entry s t = (to_time (timeo s t), to_h (timeo s t), to_arg (timeo s t))"

definition tm_list :: "'z timeouts_scheme \<Rightarrow> timer list" where
  "tm_list s = map (tm_entry s) (tm_nodes s)"

text \<open>The list is acyclic and holds every element in use of the pool: none leaks.\<close>

definition tm_inv :: "(memp_t \<Rightarrow> nat) \<Rightarrow> 'z timeouts_scheme \<Rightarrow> bool" where
  "tm_inv szof s \<longleftrightarrow> memps_inv szof (tm_pools s) \<and> chain (tm_link s) (next_timeout s) (tm_nodes s) \<and>
     set (tm_nodes s) = memp_live szof (tm_pools s) MEMP_SYS_TIMEOUT"

lemma tm_nodes_eq:
  assumes "memps_inv szof (tm_pools s)" "chain (tm_link s) (next_timeout s) xs"
    "set xs = memp_live szof (tm_pools s) MEMP_SYS_TIMEOUT"
  shows "tm_nodes s = xs"
proof -
  have "length xs = card (set xs)" using chain_distinct [OF assms(2)] by (simp add: distinct_card)
  also have "\<dots> \<le> memp_num MEMP_SYS_TIMEOUT"
    using memp.live_cap [OF assms(1), of MEMP_SYS_TIMEOUT] assms(3) by metis
  finally show ?thesis unfolding tm_nodes_def by (rule free_list_chain [OF assms(2)])
qed

lemma tm_invI:
  assumes "memps_inv szof (tm_pools s)" "chain (tm_link s) (next_timeout s) xs"
    "set xs = memp_live szof (tm_pools s) MEMP_SYS_TIMEOUT"
  shows "tm_inv szof s" "tm_nodes s = xs" "tm_list s = map (tm_entry s) xs"
  using assms tm_nodes_eq [OF assms] by (simp_all add: tm_inv_def tm_list_def)

lemma tm_link_simps [simp]:
  "tm_link (set_time t v s) = tm_link s"
  "tm_link (set_tnext t p s) = (tm_link s)(t := p)"
  "tm_link (s\<lparr>tm_pools := ps\<rparr>) = tm_link s"
  "tm_link (s\<lparr>next_timeout := p\<rparr>) = tm_link s"
  "tm_link (s\<lparr>timeouts_last_time := w\<rparr>) = tm_link s"
  "tm_link (s\<lparr>clock := w\<rparr>) = tm_link s"
  by (auto simp: tm_link_def set_time_def set_tnext_def fun_eq_iff)

section \<open>Inserting, on lists\<close>

text \<open>What \<open>sys_timeout\<close> does to the list: \<open>w\<close> is the time still to be distributed, \<open>first\<close> the time of
  the first element.\<close>

fun put_after :: "u32_t \<Rightarrow> u32_t \<Rightarrow> u32_t \<Rightarrow> 'e \<Rightarrow> (u32_t \<times> 'e) list \<Rightarrow> (u32_t \<times> 'e) list" where
  "put_after msecs first w e [] = []"
| "put_after msecs first w e [(t, d)] =
     [(t, d), (if msecs < w - t then msecs + first else w - t, e)]"
| "put_after msecs first w e ((t, d) # (t', d') # r) =
     (if w - t < t' then (t, d) # (w - t, e) # (t' - (w - t), d') # r
      else (t, d) # put_after msecs first (w - t) e ((t', d') # r))"

fun add_timer :: "u32_t \<Rightarrow> u32_t \<Rightarrow> 'e \<Rightarrow> (u32_t \<times> 'e) list \<Rightarrow> (u32_t \<times> 'e) list" where
  "add_timer msecs diff e [] = [(msecs, e)]"
| "add_timer msecs diff e ((t, d) # r) =
     (if msecs < t then (msecs + diff, e) # (t - msecs, d) # r
      else put_after msecs t (msecs + diff) e ((t, d) # r))"

definition frame :: "nat set \<Rightarrow> 'z timeouts_scheme \<Rightarrow> 'z timeouts_scheme \<Rightarrow> bool" where
  "frame A s s' \<longleftrightarrow> (\<exists>m. s' = s\<lparr>timeo := m\<rparr> \<and> (\<forall>u. u \<notin> A \<longrightarrow> m u = timeo s u))"

lemma frameD:
  assumes "frame A s s'"
  shows "next_timeout s' = next_timeout s" "tm_pools s' = tm_pools s"
    "timeouts_last_time s' = timeouts_last_time s" "clock s' = clock s"
    "tcpip_tcp_timer_active s' = tcpip_tcp_timer_active s" "tcp_pcbs s' = tcp_pcbs s"
    "\<And>u. u \<notin> A \<Longrightarrow> timeo s' u = timeo s u" "timeouts.more s' = timeouts.more s"
  using assms by (auto simp: frame_def)

lemma frame_trans: "frame A s t \<Longrightarrow> frame A t u \<Longrightarrow> frame A s u"
  by (auto simp: frame_def)

lemma frame_mono: "frame A s t \<Longrightarrow> A \<subseteq> B \<Longrightarrow> frame B s t"
  by (auto simp: frame_def)

lemma frame_set: "t \<in> A \<Longrightarrow> frame A s (set_time t v s)" "t \<in> A \<Longrightarrow> frame A s (set_tnext t p s)"
  unfolding frame_def set_time_def set_tnext_def
  by (rule exI [of _ "(timeo s)(t := (timeo s t)\<lparr>to_time := v\<rparr>)"], simp)
    (rule exI [of _ "(timeo s)(t := (timeo s t)\<lparr>to_next := p\<rparr>)"], simp)

definition timer_placed :: "nat \<Rightarrow> u32_t \<Rightarrow> nat \<Rightarrow> nat list \<Rightarrow> 'z timeouts_scheme \<Rightarrow> 'z timeouts_scheme \<Rightarrow> bool" where
  "timer_placed timeout msecs t ys s s' \<longleftrightarrow> frame (insert timeout (set (t # ys))) s s' \<and>
     (\<exists>ys'. chain (tm_link s') (Some t) (t # ys') \<and> set (t # ys') = insert timeout (set (t # ys)) \<and>
       map (tm_entry s') (t # ys') =
         put_after msecs (to_time (timeo s (the (next_timeout s)))) (to_time (timeo s timeout))
           (to_h (timeo s timeout), to_arg (timeo s timeout)) (map (tm_entry s) (t # ys)))"

lemma tm_entry_set [simp]:
  "tm_entry (set_tnext t p s) = tm_entry s"
  "tm_entry (set_time t v s) u = (if u = t then (v, snd (tm_entry s t)) else tm_entry s u)"
  by (auto simp: tm_entry_def set_time_def set_tnext_def fun_eq_iff)

lemma timeo_set [simp]:
  "to_time (timeo (set_tnext t p s) u) = to_time (timeo s u)"
  "to_time (timeo (set_time t v s) u) = (if u = t then v else to_time (timeo s u))"
  "to_next (timeo (set_time t v s) u) = to_next (timeo s u)"
  "to_next (timeo (set_tnext t p s) u) = (if u = t then p else to_next (timeo s u))"
  "to_h (timeo (set_time t v s) u) = to_h (timeo s u)"
  "to_arg (timeo (set_time t v s) u) = to_arg (timeo s u)"
  "next_timeout (set_time t v s) = next_timeout s"
  "next_timeout (set_tnext t p s) = next_timeout s"
  by (auto simp: set_time_def set_tnext_def)

lemma sys_timeout_loop_spec:
  assumes "chain (tm_link s) (Some t) (t # ys)" "timeout \<notin> set (t # ys)" "distinct (t # ys)"
    and "the (next_timeout s) \<noteq> timeout"
  shows "\<exists>s'. sys_timeout_loop timeout msecs (Some t) s = Some s' \<and> timer_placed timeout msecs t ys s s'"
  using assms
proof (induction ys arbitrary: t s)
  case Nil
  let ?w = "to_time (timeo s timeout) - to_time (timeo s t)"
  let ?s1 = "set_time timeout ?w s"
  let ?s2 = "if msecs < ?w then set_time timeout (msecs + to_time (timeo s (the (next_timeout s)))) ?s1 else ?s1"
  let ?s' = "set_tnext t (Some timeout) (set_tnext timeout None ?s2)"
  have nt: "to_next (timeo s t) = None" using Nil by (simp add: tm_link_def)
  have ne: "t \<noteq> timeout" using Nil by simp
  have "sys_timeout_loop timeout msecs (Some t) s = Some ?s'"
    using nt ne Nil(4) by (subst sys_timeout_loop.simps) (simp add: Let_def)
  moreover have "frame (insert timeout (set [t])) s ?s'"
    by (auto intro!: frame_trans [OF _ frame_set(2)] frame_trans [OF _ frame_set(1)] frame_set)
  moreover have "chain (tm_link ?s') (Some t) [t, timeout]" using ne by simp
  moreover have "map (tm_entry ?s') [t, timeout] =
         put_after msecs (to_time (timeo s (the (next_timeout s)))) (to_time (timeo s timeout))
           (to_h (timeo s timeout), to_arg (timeo s timeout)) (map (tm_entry s) [t])"
    using ne by (simp add: tm_entry_def)
  ultimately show ?case unfolding timer_placed_def by (intro exI conjI) (assumption | force)+
next
  case (Cons n ys)
  let ?w = "to_time (timeo s timeout) - to_time (timeo s t)"
  let ?s1 = "set_time timeout ?w s"
  have nt: "to_next (timeo s t) = Some n" and cn: "chain (tm_link s) (Some n) (n # ys)"
    using Cons(2) tm_link_def [of s t] by simp_all
  have ne: "t \<noteq> timeout" "n \<noteq> timeout" "t \<noteq> n" "timeout \<notin> set ys" "t \<notin> set ys" "n \<notin> set ys"
    using Cons(3,4) by auto
  have en: "tm_entry s u = (to_time (timeo s u), snd (tm_entry s u))" for u by (simp add: tm_entry_def)
  show ?case
  proof (cases "?w < to_time (timeo s n)")
    case True
    let ?s' = "set_tnext t (Some timeout) (set_tnext timeout (Some n) (set_time n (to_time (timeo s n) - ?w) ?s1))"
    have "sys_timeout_loop timeout msecs (Some t) s = Some ?s'"
      using nt ne True by (subst sys_timeout_loop.simps) (simp add: Let_def)
    moreover have "frame (insert timeout (set (t # n # ys))) s ?s'"
      by (auto intro!: frame_trans [OF _ frame_set(2)] frame_trans [OF _ frame_set(1)] frame_set)
    moreover have "chain (tm_link ?s') (Some t) (t # timeout # n # ys)" using ne cn by simp
    moreover have "map (tm_entry ?s') (t # timeout # n # ys) =
         put_after msecs (to_time (timeo s (the (next_timeout s)))) (to_time (timeo s timeout))
           (to_h (timeo s timeout), to_arg (timeo s timeout)) (map (tm_entry s) (t # n # ys))"
      using ne True by (auto simp: tm_entry_def)
    ultimately show ?thesis unfolding timer_placed_def by (intro exI conjI) (assumption | force)+
  next
    case False
    obtain s' where s': "sys_timeout_loop timeout msecs (Some n) ?s1 = Some s'" "timer_placed timeout msecs n ys ?s1 s'"
      using Cons(1) [of ?s1 n] cn ne Cons(4,5) by auto
    then obtain ys' where ys': "frame (insert timeout (set (n # ys))) ?s1 s'"
      "chain (tm_link s') (Some n) (n # ys')" "set (n # ys') = insert timeout (set (n # ys))"
      "map (tm_entry s') (n # ys') = put_after msecs (to_time (timeo s (the (next_timeout s)))) ?w
         (to_h (timeo s timeout), to_arg (timeo s timeout)) (map (tm_entry ?s1) (n # ys))"
      using Cons(5) unfolding timer_placed_def by auto
    have eq: "sys_timeout_loop timeout msecs (Some t) s = Some s'"
      using nt ne False s'(1) by (subst sys_timeout_loop.simps) (simp add: Let_def)
    have tt: "timeo s' t = timeo s t" using frameD(7) [OF ys'(1), of t] ne by (simp add: set_time_def)
    have "frame (insert timeout (set (t # n # ys))) s s'"
      by (rule frame_trans [OF frame_set(1) frame_mono [OF ys'(1)]]) auto
    moreover have "chain (tm_link s') (Some t) (t # n # ys')"
      using ys'(2) tt nt by (simp add: tm_link_def)
    moreover have "set (t # n # ys') = insert timeout (set (t # n # ys))" using ys'(3) by auto
    moreover have es: "map (tm_entry ?s1) (n # ys) = map (tm_entry s) (n # ys)" using ne by auto
    have "map (tm_entry s') (t # n # ys') =
         put_after msecs (to_time (timeo s (the (next_timeout s)))) (to_time (timeo s timeout))
           (to_h (timeo s timeout), to_arg (timeo s timeout)) (map (tm_entry s) (t # n # ys))"
      using ys'(4) [unfolded es] False tt by (simp add: tm_entry_def)
    ultimately show ?thesis using eq unfolding timer_placed_def by blast
  qed
qed

lemma tm_invD:
  assumes "tm_inv szof s"
  shows "memps_inv szof (tm_pools s)" "chain (tm_link s) (next_timeout s) (tm_nodes s)"
    "set (tm_nodes s) = memp_live szof (tm_pools s) MEMP_SYS_TIMEOUT" "distinct (tm_nodes s)"
  using assms chain_distinct by (auto simp: tm_inv_def)

definition tm_diff :: "'z timeouts_scheme \<Rightarrow> u32_t" where
  "tm_diff s = sys_now s - timeouts_last_time s"

lemma sys_timeout_spec:
  assumes inv: "tm_inv szof s" and room: "length (tm_list s) < 15"
  shows "\<exists>s'. sys_timeout msecs h arg s = Some s' \<and> tm_inv szof s' \<and>
    tm_list s' = add_timer msecs (tm_diff s) (h, arg) (tm_list s) \<and> clock s' = clock s \<and>
    timeouts_last_time s' = (if next_timeout s = None then sys_now s else timeouts_last_time s) \<and>
    tcpip_tcp_timer_active s' = tcpip_tcp_timer_active s \<and> tcp_pcbs s' = tcp_pcbs s \<and>
    timeouts.more s' = timeouts.more s"
proof -
  note I = tm_invD [OF inv]
  let ?live = "memp_live szof (tm_pools s) MEMP_SYS_TIMEOUT"
  have "card ?live < memp_num MEMP_SYS_TIMEOUT"
    using room distinct_card [OF I(4)] by (simp add: tm_list_def I(3))
  from memp.alloc_succeeds [OF I(1) this] obtain m ps where
    m: "memp_malloc MEMP_SYS_TIMEOUT (tm_pools s) = Some (Some m, ps)" "memps_inv szof ps"
      "m \<notin> ?live" "memp_live szof ps MEMP_SYS_TIMEOUT = insert m ?live" by blast
  have mn: "m \<notin> set (tm_nodes s)" using m(3) I(3) by simp
  define s0 where "s0 = s\<lparr>tm_pools := ps, timeo := (timeo s)(m :=
    \<lparr>to_next = None, to_time = msecs + tm_diff s, to_h = h, to_arg = arg\<rparr>)\<rparr>"
  have e0: "map (tm_entry s0) xs = map (tm_entry s) xs" "chain (tm_link s0) p xs = chain (tm_link s) p xs"
    if "m \<notin> set xs" for xs p
    using that by (auto simp: s0_def tm_entry_def tm_link_def intro!: chain_cong)
  show ?thesis
  proof (cases "next_timeout s")
    case None
    then have nil: "tm_nodes s = []" using I(2) by simp
    let ?s' = "s\<lparr>tm_pools := ps, timeouts_last_time := sys_now s, timeo := (timeo s)(m :=
      \<lparr>to_next = None, to_time = msecs, to_h = h, to_arg = arg\<rparr>), next_timeout := Some m\<rparr>"
    have c: "chain (tm_link ?s') (next_timeout ?s') [m]" by (simp add: tm_link_def)
    have "sys_timeout msecs h arg s = Some ?s'"
      using None m(1) by (simp add: sys_timeout_def sys_now_def)
    moreover note tm_invI [of szof ?s', OF _ c]
    ultimately show ?thesis using m nil I(3) None by (simp add: tm_entry_def tm_list_def)
  next
    case (Some n)
    then obtain ys where xs: "tm_nodes s = n # ys" using I(2) by (auto simp: chain_Some)
    have n0: "timeo s0 n = timeo s n" "timeo s0 m = \<lparr>to_next = None, to_time = msecs + tm_diff s, to_h = h, to_arg = arg\<rparr>"
      "next_timeout s0 = Some n" using mn xs Some by (auto simp: s0_def)
    have ch: "chain (tm_link s0) (Some n) (n # ys)" using e0(2) [OF mn, of "Some n"] I(2) Some xs by simp
    have unf: "sys_timeout msecs h arg s = (if msecs < to_time (timeo s n) then
        Some ((set_tnext m (Some n) (set_time n (to_time (timeo s n) - msecs) s0))\<lparr>next_timeout := Some m\<rparr>)
        else sys_timeout_loop m msecs (Some n) s0)"
      using Some m(1) n0 mn xs
      by (simp add: sys_timeout_def Let_def s0_def tm_diff_def sys_now_def set_time_def set_tnext_def)
    have fr: "frame A s0 s' \<Longrightarrow> tm_pools s' = ps \<and> clock s' = clock s \<and> next_timeout s' = Some n \<and>
        timeouts_last_time s' = timeouts_last_time s \<and>
        tcpip_tcp_timer_active s' = tcpip_tcp_timer_active s \<and> tcp_pcbs s' = tcp_pcbs s \<and>
        timeouts.more s' = timeouts.more s" for A s'
      using frameD [of A s0 s'] Some by (simp add: s0_def)
    show ?thesis
    proof (cases "msecs < to_time (timeo s n)")
      case True
      let ?s1 = "set_tnext m (Some n) (set_time n (to_time (timeo s n) - msecs) s0)"
      let ?s' = "?s1\<lparr>next_timeout := Some m\<rparr>"
      have f: "frame (insert m (set (n # ys))) s0 ?s1"
        by (auto intro!: frame_trans [OF _ frame_set(2)] frame_trans [OF _ frame_set(1)] frame_set)
      have c: "chain (tm_link ?s') (next_timeout ?s') (m # n # ys)" using ch mn xs by simp
      have "map (tm_entry ?s') (m # n # ys) = add_timer msecs (tm_diff s) (h, arg) (map (tm_entry s0) (n # ys))"
        using mn xs n0 True I(4) by (auto simp: tm_entry_def set_time_def set_tnext_def)
      then have "map (tm_entry ?s') (m # n # ys) = add_timer msecs (tm_diff s) (h, arg) (tm_list s)"
        by (simp only: tm_list_def e0(1) [OF mn, unfolded xs] xs)
      moreover note tm_invI [of szof ?s', OF _ c] fr [OF f]
      moreover have "sys_timeout msecs h arg s = Some ?s'" using unf True by simp
      ultimately show ?thesis using m xs I(3) Some by auto
    next
      case False
      obtain s' where s': "sys_timeout_loop m msecs (Some n) s0 = Some s'" "timer_placed m msecs n ys s0 s'"
        using sys_timeout_loop_spec [OF ch, of m msecs] mn xs I(4) n0 by auto
      then obtain ys' where ys': "frame (insert m (set (n # ys))) s0 s'" "chain (tm_link s') (Some n) (n # ys')"
        "set (n # ys') = insert m (set (n # ys))"
        "map (tm_entry s') (n # ys') = put_after msecs (to_time (timeo s n)) (msecs + tm_diff s) (h, arg)
          (map (tm_entry s0) (n # ys))"
        using n0 unfolding timer_placed_def by auto
      have "map (tm_entry s') (n # ys') = add_timer msecs (tm_diff s) (h, arg) (tm_list s)"
        using ys'(4) [unfolded e0(1) [OF mn, unfolded xs]] xs False by (simp add: tm_list_def tm_entry_def)
      moreover note fr' = fr [OF ys'(1)]
      moreover have "tm_inv szof s' \<and> tm_list s' = map (tm_entry s') (n # ys')"
        using tm_invI [of szof s' "n # ys'"] ys'(2,3) fr' m(2,4) xs I(3) by simp
      ultimately show ?thesis using s'(1) unf False Some by simp
    qed
  qed
qed

section \<open>Deadlines\<close>

text \<open>The absolute time, modulo $2^{32}$, at which each timer of the list is due.\<close>

fun deadlines :: "u32_t \<Rightarrow> (u32_t \<times> 'e) list \<Rightarrow> (u32_t \<times> 'e) list" where
  "deadlines base [] = []"
| "deadlines base ((t, e) # r) = (base + t, e) # deadlines (base + t) r"

definition tm_deadlines :: "'z timeouts_scheme \<Rightarrow> timer list" where
  "tm_deadlines s = deadlines (timeouts_last_time s) (tm_list s)"

definition delay :: "u32_t \<Rightarrow> (u32_t \<times> 'e) list \<Rightarrow> (u32_t \<times> 'e) list" where
  "delay d xs = map (\<lambda>(t, e). (t + d, e)) xs"

lemma deadlines_delay: "deadlines (base + d) xs = delay d (deadlines base xs)"
  by (induction base xs rule: deadlines.induct) (auto simp: delay_def algebra_simps)

lemma deadlines_append:
  "deadlines base (xs @ ys) = deadlines base xs @ deadlines (base + sum_list (map fst xs)) ys"
  by (induction base xs rule: deadlines.induct) (auto simp: algebra_simps)

text \<open>The time after which the last timer of a list is due, not reduced modulo $2^{32}$.\<close>

definition span :: "(u32_t \<times> 'e) list \<Rightarrow> nat" where
  "span xs = sum_list (map (unat \<circ> fst) xs)"

lemma span_simps [simp]: "span [] = 0" "span ((t, e) # r) = unat t + span r"
  by (simp_all add: span_def)

text \<open>Where \<open>put_after\<close> puts the new timer: after \<open>us\<close>, either at the end or before a timer that is
  due later.\<close>

lemma put_after_split:
  assumes "xs \<noteq> []"
  shows "put_after msecs first w e xs =
      xs @ [(let v = w - sum_list (map fst xs) in if msecs < v then msecs + first else v, e)] \<and>
      (fst (hd xs) \<le> w \<longrightarrow> span xs \<le> unat w) \<or>
    (\<exists>us t d vs v. xs = us @ (t, d) # vs \<and> us \<noteq> [] \<and> v = w - sum_list (map fst us) \<and>
      (fst (hd xs) \<le> w \<longrightarrow> span us \<le> unat w \<and> unat w < span us + unat t) \<and>
      put_after msecs first w e xs = us @ (v, e) # (t - v, d) # vs)"
  using assms
proof (induction msecs first w e xs rule: put_after.induct)
  case (2 msecs first w e t d)
  show ?case by (rule disjI1) (simp add: word_le_nat_alt Let_def)
next
  case (3 msecs first w e t d t' d' r)
  have sub: "t \<le> w \<Longrightarrow> unat w = unat t + unat (w - t)"
    by (simp add: unat_sub word_le_nat_alt)
  show ?case
  proof (cases "w - t < t'")
    case True
    then have "t \<le> w \<Longrightarrow> unat w < unat t + unat t'" using sub by (simp add: word_less_nat_alt)
    with True show ?thesis by (intro disjI2 exI [of _ "[(t, d)]"]) (auto simp: word_le_nat_alt)
  next
    case False
    then have ge: "t' \<le> w - t" by simp
    from 3(1) [OF False list.distinct(2)] show ?thesis
    proof (elim disjE exE conjE)
      fix us x y vs v
      assume *: "(t', d') # r = us @ (x, y) # vs" "us \<noteq> []" "v = w - t - sum_list (map fst us)"
        "fst (hd ((t', d') # r)) \<le> w - t \<longrightarrow> span us \<le> unat (w - t) \<and> unat (w - t) < span us + unat x"
        "put_after msecs first (w - t) e ((t', d') # r) = us @ (v, e) # (x - v, y) # vs"
      have "put_after msecs first w e ((t, d) # (t', d') # r) = ((t, d) # us) @ (v, e) # (x - v, y) # vs"
        using False *(5) by simp
      moreover have "(t, d) # (t', d') # r = ((t, d) # us) @ (x, y) # vs" using *(1) by simp
      moreover have "v = w - sum_list (map fst ((t, d) # us))" using *(3) by (simp add: diff_diff_eq)
      moreover have "t \<le> w \<longrightarrow> span ((t, d) # us) \<le> unat w \<and> unat w < span ((t, d) # us) + unat x"
        using *(4) ge sub by simp
      ultimately show ?thesis by (intro disjI2 exI conjI) (assumption | simp)+
    qed (use False ge sub in \<open>simp_all add: diff_diff_eq add.assoc\<close>)
  qed
qed simp

lemma deadlines_Nil [simp]: "deadlines base xs = [] \<longleftrightarrow> xs = []"
  by (cases xs) auto

lemma put_after_deadlines:
  assumes "xs \<noteq> []"
  shows "\<exists>us vs D. xs = us @ vs \<and> us \<noteq> [] \<and>
    deadlines base (put_after msecs first w e xs) =
      deadlines base us @ (D, e) # deadlines (base + sum_list (map fst us)) vs \<and>
    (D = base + w \<or> vs = [] \<and> msecs < w - sum_list (map fst us) \<and> D = base + sum_list (map fst us) + msecs + first) \<and>
    (fst (hd xs) \<le> w \<longrightarrow> span us \<le> unat w \<and> (vs \<noteq> [] \<longrightarrow> unat w < span us + unat (fst (hd vs))))"
  using put_after_split [OF assms, of msecs first w e]
proof (elim disjE exE conjE)
  assume last: "put_after msecs first w e xs =
      xs @ [(let v = w - sum_list (map fst xs) in if msecs < v then msecs + first else v, e)]"
    "fst (hd xs) \<le> w \<longrightarrow> span xs \<le> unat w"
  show ?thesis
    by (rule exI [of _ xs], rule exI [of _ "[]"])
      (use assms last(2) in \<open>auto simp: last(1) deadlines_append Let_def algebra_simps\<close>)
next
  fix us t d vs v
  assume mid: "xs = us @ (t, d) # vs" "us \<noteq> []" "v = w - sum_list (map fst us)"
      "fst (hd xs) \<le> w \<longrightarrow> span us \<le> unat w \<and> unat w < span us + unat t"
      "put_after msecs first w e xs = us @ (v, e) # (t - v, d) # vs"
  have "deadlines base (put_after msecs first w e xs) =
      deadlines base us @ (base + w, e) # deadlines (base + sum_list (map fst us)) ((t, d) # vs)"
    unfolding mid(5) by (simp add: deadlines_append mid(3) add.assoc add.commute [of t])
  with mid(1,2,4) show ?thesis by (intro exI [of _ us] exI [of _ "(t, d) # vs"] exI [of _ "base + w"]) simp
qed

section \<open>Removing\<close>

fun del_timer :: "'e \<Rightarrow> (u32_t \<times> 'e) list \<Rightarrow> (u32_t \<times> 'e) list" where
  "del_timer e [] = []"
| "del_timer e ((t, d) # r) =
     (if d = e then (case r of [] \<Rightarrow> [] | (t', d') # r' \<Rightarrow> (t' + t, d') # r')
      else (t, d) # del_timer e r)"

fun remove_first :: "('a \<Rightarrow> bool) \<Rightarrow> 'a list \<Rightarrow> 'a list" where
  "remove_first P [] = []"
| "remove_first P (x # xs) = (if P x then xs else x # remove_first P xs)"

lemma del_timer_deadlines:
  "deadlines base (del_timer e xs) = remove_first (\<lambda>(_, d). d = e) (deadlines base xs)"
  by (induction e xs arbitrary: base rule: del_timer.induct)
    (auto simp: algebra_simps split: list.split)

text \<open>The loop at element \<open>t\<close> of the list \<open>us @ t # ys\<close>.\<close>

lemma sys_untimeout_loop_spec:
  assumes inv: "memps_inv szof (tm_pools s)"
    and ch: "chain (tm_link s) (next_timeout s) (us @ ys)"
    and set: "set (us @ ys) = memp_live szof (tm_pools s) MEMP_SYS_TIMEOUT"
    and prev: "prev = (if us = [] then None else Some (List.last us))"
    and p: "p = (case ys of [] \<Rightarrow> None | y # _ \<Rightarrow> Some y)"
  shows "\<exists>s'. sys_untimeout_loop h arg prev p s = Some s' \<and> tm_inv szof s' \<and>
    tm_list s' = map (tm_entry s) us @ del_timer (h, arg) (map (tm_entry s) ys) \<and>
    clock s' = clock s \<and> timeouts_last_time s' = timeouts_last_time s"
  using ch set prev p
proof (induction ys arbitrary: us prev p)
  case Nil
  then show ?case
    using tm_invI [OF inv, of us] by (simp add: sys_untimeout_loop.simps)
next
  case (Cons t ys)
  have d: "distinct (us @ t # ys)" by (rule chain_distinct [OF Cons(2)])
  have nx: "to_next (timeo s t) = (case ys of [] \<Rightarrow> None | y # _ \<Rightarrow> Some y)"
    using chain_suffix [OF Cons(2)] by (cases ys) (auto simp: tm_link_def)
  show ?case
  proof (cases "to_h (timeo s t) = h \<and> to_arg (timeo s t) = arg")
    case False
    have "sys_untimeout_loop h arg prev p s = sys_untimeout_loop h arg (Some t) (to_next (timeo s t)) s"
      using False by (subst sys_untimeout_loop.simps) (auto simp: Cons(5))
    moreover have "del_timer (h, arg) (map (tm_entry s) (t # ys)) = tm_entry s t # del_timer (h, arg) (map (tm_entry s) ys)"
      using False by (auto simp: tm_entry_def)
    ultimately show ?thesis
      using Cons(1) [of "us @ [t]" "Some t" "to_next (timeo s t)"] Cons(2,3) nx by auto
  next
    case True
    define s1 where "s1 = (case prev of None \<Rightarrow> s\<lparr>next_timeout := to_next (timeo s t)\<rparr>
      | Some q \<Rightarrow> set_tnext q (to_next (timeo s t)) s)"
    define s2 where "s2 = (case ys of [] \<Rightarrow> s1 | n # _ \<Rightarrow> set_time n (to_time (timeo s n) + to_time (timeo s t)) s1)"
    have tl: "us \<noteq> [] \<Longrightarrow> t \<noteq> List.last us" using d by auto
    have "chain (tm_link s1) (next_timeout s1) (us @ ys)"
    proof (cases "us = []")
      case True
      then show ?thesis using Cons(2,4) by (simp add: s1_def tm_link_def [symmetric])
    next
      case False
      then show ?thesis using chain_remove [OF Cons(2) False] Cons(4) tm_link_def [of s t] by (simp add: s1_def)
    qed
    then have c2: "chain (tm_link s2) (next_timeout s2) (us @ ys)" by (cases ys) (simp_all add: s2_def)
    have s1: "tm_entry s1 = tm_entry s" "tm_pools s1 = tm_pools s" "timeo s1 t = timeo s t" "clock s1 = clock s"
        "timeouts_last_time s1 = timeouts_last_time s" "\<And>u. to_time (timeo s1 u) = to_time (timeo s u)"
      using tl Cons(4) by (auto simp: s1_def tm_entry_def fun_eq_iff set_tnext_def)
    have s2: "tm_pools s2 = tm_pools s" "clock s2 = clock s" "timeouts_last_time s2 = timeouts_last_time s"
      using s1 by (simp_all add: s2_def set_time_def split: list.split)
    have e2: "map (tm_entry s2) (us @ ys) = map (tm_entry s) us @ del_timer (h, arg) (map (tm_entry s) (t # ys))"
    proof (cases ys)
      case (Cons n r)
      have "tm_entry s t = (to_time (timeo s t), h, arg)" using True by (simp add: tm_entry_def)
      moreover obtain e where e: "tm_entry s n = (to_time (timeo s n), e)" by (simp add: tm_entry_def)
      ultimately have "del_timer (h, arg) (map (tm_entry s) (t # ys)) =
          (to_time (timeo s n) + to_time (timeo s t), e) # map (tm_entry s) r"
        using Cons by simp
      moreover have "n \<notin> set us" "n \<notin> set r" using d Cons by auto
      ultimately show ?thesis using Cons e by (auto simp: s2_def s1(1))
    qed (use True in \<open>simp add: s2_def s1(1) tm_entry_def [of s t]\<close>)
    have "t \<in> memp_live szof (tm_pools s) MEMP_SYS_TIMEOUT" using Cons(3) by auto
    from memp_free_spec [OF inv this] obtain ps where ps: "memp_free MEMP_SYS_TIMEOUT (Some t) (tm_pools s) = Some ps"
      "memps_inv szof ps" "memp_live szof ps MEMP_SYS_TIMEOUT = memp_live szof (tm_pools s) MEMP_SYS_TIMEOUT - {t}"
      by blast
    let ?s' = "s2\<lparr>tm_pools := ps\<rparr>"
    have s2': "(case to_next (timeo s1 t) of None \<Rightarrow> s1
        | Some n \<Rightarrow> set_time n (to_time (timeo s1 n) + to_time (timeo s1 t)) s1) = s2"
      by (simp add: s1 nx s2_def split: list.split)
    have "sys_untimeout_loop h arg prev p s = Some ?s'"
      by (subst sys_untimeout_loop.simps)
        (simp add: Cons(5) True Let_def s1_def [symmetric] s2' s2(1) ps(1))
    moreover have "set (us @ ys) = memp_live szof ps MEMP_SYS_TIMEOUT" using Cons(3) ps(3) d by auto
    with tm_invI [of szof ?s' "us @ ys"] c2 ps(2)
    have "tm_inv szof ?s'" "tm_list ?s' = map (tm_entry ?s') (us @ ys)" by simp_all
    moreover have "tm_entry ?s' = tm_entry s2" by (simp add: tm_entry_def fun_eq_iff)
    ultimately show ?thesis using e2 s2 by simp
  qed
qed

lemma sys_untimeout_spec:
  assumes inv: "tm_inv szof s"
  shows "\<exists>s'. sys_untimeout h arg s = Some s' \<and> tm_inv szof s' \<and>
    tm_list s' = del_timer (h, arg) (tm_list s) \<and> clock s' = clock s \<and> timeouts_last_time s' = timeouts_last_time s"
proof (cases "next_timeout s")
  case None
  then show ?thesis using inv tm_invD(2) [OF inv] by (simp add: sys_untimeout_def tm_list_def)
next
  case (Some n)
  note I = tm_invD [OF inv]
  obtain ys where ys: "tm_nodes s = n # ys" using I(2) Some by (auto simp: chain_Some)
  have "\<exists>s'. sys_untimeout_loop h arg None (Some n) s = Some s' \<and> tm_inv szof s' \<and>
    tm_list s' = map (tm_entry s) [] @ del_timer (h, arg) (map (tm_entry s) (n # ys)) \<and>
    clock s' = clock s \<and> timeouts_last_time s' = timeouts_last_time s"
    by (rule sys_untimeout_loop_spec [OF I(1)]) (use I(2,3) ys in simp_all)
  then show ?thesis using Some ys by (simp add: sys_untimeout_def tm_list_def)
qed

section \<open>Expiry\<close>

text \<open>The timers that have expired when \<open>diff\<close> milliseconds have passed, and the others.\<close>

fun expired :: "u32_t \<Rightarrow> (u32_t \<times> 'e) list \<Rightarrow> (u32_t \<times> 'e) list" where
  "expired diff [] = []"
| "expired diff ((t, e) # r) = (if t \<le> diff then (t, e) # expired (diff - t) r else [])"

fun pending :: "u32_t \<Rightarrow> (u32_t \<times> 'e) list \<Rightarrow> (u32_t \<times> 'e) list" where
  "pending diff [] = []"
| "pending diff ((t, e) # r) = (if t \<le> diff then pending (diff - t) r else (t, e) # r)"

lemma expired_pending: "expired diff xs @ pending diff xs = xs"
  by (induction diff xs rule: expired.induct) auto

text \<open>Callbacks that leave the timers alone: \<open>f h arg\<close> is what they do to the rest of the system.\<close>

definition leaves_timers :: "(sys_timeout_handler \<Rightarrow> nat \<Rightarrow> 'z \<Rightarrow> 'z) \<Rightarrow> 'z handler_effect \<Rightarrow> bool" where
  "leaves_timers f call \<longleftrightarrow> (\<forall>h arg s. call h arg s = Some (s\<lparr>timeouts.more := f h arg (timeouts.more s)\<rparr>))"

definition fire :: "(sys_timeout_handler \<Rightarrow> nat \<Rightarrow> 'z \<Rightarrow> 'z) \<Rightarrow> timer \<Rightarrow> 'z \<Rightarrow> 'z" where
  "fire f x z = (case x of (_, None, _) \<Rightarrow> z | (_, Some h, arg) \<Rightarrow> f h arg z)"

text \<open>One round of the loop.\<close>

lemma sys_check_step:
  assumes inv: "tm_inv szof s" and n: "tm_nodes s = t # ys"
    and due: "to_time (timeo s t) \<le> diff"
  shows "\<exists>ps. sys_check_loop call diff s = (case to_h (timeo s t) of
        None \<Rightarrow> Some (s\<lparr>timeouts_last_time := timeouts_last_time s + to_time (timeo s t),
          next_timeout := to_next (timeo s t), tm_pools := ps\<rparr>)
      | Some h \<Rightarrow> call h (to_arg (timeo s t)) (s\<lparr>timeouts_last_time := timeouts_last_time s + to_time (timeo s t),
          next_timeout := to_next (timeo s t), tm_pools := ps\<rparr>)) \<bind> sys_check_loop call (diff - to_time (timeo s t)) \<and>
    tm_inv szof (s\<lparr>timeouts_last_time := timeouts_last_time s + to_time (timeo s t),
          next_timeout := to_next (timeo s t), tm_pools := ps\<rparr>) \<and>
    tm_list (s\<lparr>timeouts_last_time := timeouts_last_time s + to_time (timeo s t),
          next_timeout := to_next (timeo s t), tm_pools := ps\<rparr>) = map (tm_entry s) ys"
proof -
  note I = tm_invD [OF inv]
  have nx: "next_timeout s = Some t" "chain (tm_link s) (to_next (timeo s t)) ys"
    using I(2) n tm_link_def [of s t] by simp_all
  have "t \<in> memp_live szof (tm_pools s) MEMP_SYS_TIMEOUT" using I(3) n by auto
  from memp_free_spec [OF I(1) this] obtain ps where
    ps: "memp_free MEMP_SYS_TIMEOUT (Some t) (tm_pools s) = Some ps" "memps_inv szof ps"
      "memp_live szof ps MEMP_SYS_TIMEOUT = memp_live szof (tm_pools s) MEMP_SYS_TIMEOUT - {t}" by blast
  define s1 where "s1 = s\<lparr>timeouts_last_time := timeouts_last_time s + to_time (timeo s t),
          next_timeout := to_next (timeo s t), tm_pools := ps\<rparr>"
  have "set ys = memp_live szof ps MEMP_SYS_TIMEOUT" using I(3,4) n ps(3) by auto
  with tm_invI [of szof s1 ys] ps(2) nx(2) have "tm_inv szof s1" "tm_list s1 = map (tm_entry s1) ys"
    by (simp_all add: s1_def)
  moreover have "tm_entry s1 = tm_entry s" by (simp add: s1_def tm_entry_def fun_eq_iff)
  moreover have "sys_check_loop call diff s = (case to_h (timeo s t) of None \<Rightarrow> Some s1
      | Some h \<Rightarrow> call h (to_arg (timeo s t)) s1) \<bind> sys_check_loop call (diff - to_time (timeo s t))"
    using nx(1) due ps(1)
    by (subst sys_check_loop.simps) (cases "to_h (timeo s t)"; simp add: s1_def Let_def)
  ultimately show ?thesis unfolding s1_def by auto
qed

lemma sys_check_stop:
  assumes inv: "tm_inv szof s" and "case tm_list s of [] \<Rightarrow> True | (t, _) # _ \<Rightarrow> diff < t"
  shows "sys_check_loop call diff s = Some s"
proof (cases "tm_nodes s")
  case Nil
  then have "next_timeout s = None" using tm_invD(2) [OF inv] by simp
  then show ?thesis by (simp add: sys_check_loop.simps)
next
  case (Cons t ys)
  then have "next_timeout s = Some t" "\<not> to_time (timeo s t) \<le> diff"
    using tm_invD(2) [OF inv] assms(2) by (simp_all add: tm_list_def tm_entry_def not_le)
  then show ?thesis by (simp add: sys_check_loop.simps)
qed

lemma sys_check_loop_spec:
  assumes call: "leaves_timers f call" and inv: "tm_inv szof s"
  shows "\<exists>s'. sys_check_loop call diff s = Some s' \<and> tm_inv szof s' \<and>
    tm_list s' = pending diff (tm_list s) \<and> clock s' = clock s \<and>
    timeouts_last_time s' = timeouts_last_time s + sum_list (map fst (expired diff (tm_list s))) \<and>
    timeouts.more s' = fold (fire f) (expired diff (tm_list s)) (timeouts.more s)"
  using inv
proof (induction "tm_list s" arbitrary: s diff)
  case Nil
  then show ?case using sys_check_stop [OF Nil(2), of diff call] by simp
next
  case (Cons x xs)
  obtain t ys where n: "tm_nodes s = t # ys" "x = tm_entry s t" "xs = map (tm_entry s) ys"
    using Cons(2) by (auto simp: tm_list_def)
  define w where "w = to_time (timeo s t)"
  have x: "x = (w, to_h (timeo s t), to_arg (timeo s t))" by (simp add: n(2) tm_entry_def w_def)
  show ?case
  proof (cases "w \<le> diff")
    case False
    then show ?thesis using sys_check_stop [OF Cons(3), of diff call] Cons(2) [symmetric] x by (simp add: Cons(3))
  next
    case True
    obtain ps where st: "sys_check_loop call diff s = (case to_h (timeo s t) of
        None \<Rightarrow> Some (s\<lparr>timeouts_last_time := timeouts_last_time s + w, next_timeout := to_next (timeo s t), tm_pools := ps\<rparr>)
      | Some h \<Rightarrow> call h (to_arg (timeo s t)) (s\<lparr>timeouts_last_time := timeouts_last_time s + w,
          next_timeout := to_next (timeo s t), tm_pools := ps\<rparr>)) \<bind> sys_check_loop call (diff - w)"
      "tm_inv szof (s\<lparr>timeouts_last_time := timeouts_last_time s + w, next_timeout := to_next (timeo s t), tm_pools := ps\<rparr>)"
      "tm_list (s\<lparr>timeouts_last_time := timeouts_last_time s + w, next_timeout := to_next (timeo s t), tm_pools := ps\<rparr>) = xs"
      using sys_check_step [OF Cons(3) n(1) True [unfolded w_def], of call] n(3) unfolding w_def by blast
    let ?s1 = "s\<lparr>timeouts_last_time := timeouts_last_time s + w, next_timeout := to_next (timeo s t), tm_pools := ps\<rparr>"
    define s2 where "s2 = ?s1\<lparr>timeouts.more := fire f x (timeouts.more s)\<rparr>"
    have eq: "sys_check_loop call diff s = sys_check_loop call (diff - w) s2"
      unfolding st(1) s2_def using call by (cases "to_h (timeo s t)") (simp_all add: leaves_timers_def fire_def x)
    have "tm_link s2 = tm_link ?s1" "tm_entry s2 = tm_entry ?s1" "next_timeout s2 = next_timeout ?s1"
        "tm_pools s2 = tm_pools ?s1"
      by (simp_all add: s2_def tm_entry_def tm_link_def fun_eq_iff)
    then have same: "tm_list s2 = tm_list ?s1" "tm_inv szof s2 = tm_inv szof ?s1"
      unfolding tm_inv_def tm_list_def tm_nodes_def by simp_all
    have "tm_inv szof s2" "xs = tm_list s2" using st(2,3) same by simp_all
    from Cons(1) [OF this(2,1), of "diff - w"] obtain s' where "sys_check_loop call (diff - w) s2 = Some s'" "tm_inv szof s'"
      "tm_list s' = pending (diff - w) xs" "clock s' = clock s"
      "timeouts_last_time s' = timeouts_last_time s + w + sum_list (map fst (expired (diff - w) xs))"
      "timeouts.more s' = fold (fire f) (expired (diff - w) xs) (fire f x (timeouts.more s))"
      using \<open>xs = tm_list s2\<close> by (auto simp: s2_def)
    then show ?thesis using eq True Cons(2) [symmetric] x by (simp add: add.assoc)
  qed
qed

lemma set_clock [simp]:
  "tm_inv szof (s\<lparr>clock := w\<rparr>) = tm_inv szof s" "tm_list (s\<lparr>clock := w\<rparr>) = tm_list s"
  "tm_inv szof (s\<lparr>timeouts_last_time := w\<rparr>) = tm_inv szof s" "tm_list (s\<lparr>timeouts_last_time := w\<rparr>) = tm_list s"
proof -
  have "tm_entry (s\<lparr>clock := w\<rparr>) = tm_entry s" "tm_entry (s\<lparr>timeouts_last_time := w\<rparr>) = tm_entry s"
    by (simp_all add: tm_entry_def fun_eq_iff)
  then show "tm_inv szof (s\<lparr>clock := w\<rparr>) = tm_inv szof s" "tm_list (s\<lparr>clock := w\<rparr>) = tm_list s"
    "tm_inv szof (s\<lparr>timeouts_last_time := w\<rparr>) = tm_inv szof s" "tm_list (s\<lparr>timeouts_last_time := w\<rparr>) = tm_list s"
    by (simp_all add: tm_inv_def tm_list_def tm_nodes_def)
qed

section \<open>Properties\<close>

text \<open>A timer state for the witnesses: no timer armed, the clock at 5 seconds.\<close>

definition tm_start :: "'z \<Rightarrow> 'z timeouts_scheme" where
  "tm_start z = timeouts.extend (\<lparr>next_timeout = None, timeouts_last_time = 0,
     timeo = (\<lambda>_. \<lparr>to_next = None, to_time = 0, to_h = None, to_arg = 0\<rparr>),
     tm_pools = memp_init szof_32 memps_zero, tcpip_tcp_timer_active = False, tcp_pcbs = False, clock = 5000\<rparr> :: timeouts) z"

lemma tm_start_inv: "tm_inv szof_32 (tm_start z)" "tm_list (tm_start z) = []"
proof -
  have "memp_live szof_32 (memp_init szof_32 memps_zero) MEMP_SYS_TIMEOUT = {}"
    by (rule memp_init_inv) (simp_all add: szof_ok_def szof_32_def memps_zero_def)
  with tm_invI [of szof_32 "tm_start z" "[]"] memps_zero_inv
  show "tm_inv szof_32 (tm_start z)" "tm_list (tm_start z) = []"
    by (simp_all add: tm_start_def timeouts.extend_def)
qed

lemma deadlines_length [simp]: "length (deadlines b xs) = length xs"
  by (induction b xs rule: deadlines.induct) auto

lemma pending_hd: "pending diff xs = (t, e) # r \<Longrightarrow> diff - sum_list (map fst (expired diff xs)) < t"
  by (induction diff xs rule: pending.induct) (auto simp: diff_diff_eq split: if_splits)

lemma sleeptime_positive:
  assumes inv: "tm_inv szof s'" and l: "tm_list s' = pending diff xs"
    and d: "sys_now s' - timeouts_last_time s' = diff - sum_list (map fst (expired diff xs))"
  shows "0 < sys_timeouts_sleeptime s'"
proof (cases "tm_nodes s'")
  case Nil
  then have "next_timeout s' = None" using tm_invD(2) [OF inv] by simp
  then show ?thesis by (simp add: sys_timeouts_sleeptime_def)
next
  case (Cons t ys)
  then have n: "next_timeout s' = Some t" using tm_invD(2) [OF inv] by simp
  have "pending diff xs = (to_time (timeo s' t), snd (tm_entry s' t)) # map (tm_entry s') ys"
    using l Cons by (simp add: tm_list_def tm_entry_def)
  from pending_hd [OF this] have "sys_now s' - timeouts_last_time s' < to_time (timeo s' t)" using d by simp
  then have "to_time (timeo s' t) - (sys_now s' - timeouts_last_time s') \<noteq> 0"
    "\<not> to_time (timeo s' t) < sys_now s' - timeouts_last_time s'" by auto
  then show ?thesis using n by (simp add: sys_timeouts_sleeptime_def Let_def word_greater_zero_iff)
qed

lemma timer_first:
  "deadlines base ((m + diff, e) # (t - m, d) # r) = (base + (m + diff), e) # delay diff (deadlines base ((t, d) # r))"
proof -
  have "base + (m + diff) + (t - m) = base + t + diff" by simp
  then show ?thesis
    by (simp only: deadlines.simps deadlines_delay [of "base + t" diff r]) (simp add: delay_def)
qed

text \<open>The new timer is not the first.\<close>

lemma timer_later:
  assumes xs: "tm_list s = (t, d) # r" and nt: "\<not> msecs < t"
    and s': "tm_list s' = put_after msecs t (msecs + tm_diff s) (h, arg) (tm_list s)"
    and lt: "timeouts_last_time s' = timeouts_last_time s"
  shows "\<exists>us vs D. tm_list s = us @ vs \<and> us \<noteq> [] \<and>
    tm_deadlines s' = take (length us) (tm_deadlines s) @ (D, h, arg) # drop (length us) (tm_deadlines s) \<and>
    (D = sys_now s + msecs \<or> vs = [] \<and> msecs < msecs + tm_diff s - sum_list (map fst us)) \<and>
    (unat msecs + unat (tm_diff s) < 2 ^ 32 \<longrightarrow> span us \<le> unat msecs + unat (tm_diff s) \<and>
       (vs \<noteq> [] \<longrightarrow> unat msecs + unat (tm_diff s) < span us + unat (fst (hd vs))))"
proof -
  have now: "timeouts_last_time s + (msecs + tm_diff s) = sys_now s + msecs" by (simp add: tm_diff_def)
  let ?w = "msecs + tm_diff s" and ?base = "timeouts_last_time s"
  obtain us vs D where u: "tm_list s = us @ vs" "us \<noteq> []"
    "deadlines ?base (put_after msecs t ?w (h, arg) (tm_list s)) =
      deadlines ?base us @ (D, h, arg) # deadlines (?base + sum_list (map fst us)) vs"
    "D = ?base + ?w \<or> vs = [] \<and> msecs < ?w - sum_list (map fst us) \<and> D = ?base + sum_list (map fst us) + msecs + t"
    "fst (hd (tm_list s)) \<le> ?w \<longrightarrow> span us \<le> unat ?w \<and> (vs \<noteq> [] \<longrightarrow> unat ?w < span us + unat (fst (hd vs)))"
    using put_after_deadlines [of "tm_list s" ?base msecs t ?w "(h, arg)"] xs by (metis list.distinct(1))
  have "tm_deadlines s' = take (length us) (tm_deadlines s) @ (D, h, arg) # drop (length us) (tm_deadlines s)"
    using s' lt u(1,3) by (simp add: tm_deadlines_def deadlines_append)
  moreover have "unat msecs + unat (tm_diff s) < 2 ^ 32 \<longrightarrow> span us \<le> unat msecs + unat (tm_diff s) \<and>
          (vs \<noteq> [] \<longrightarrow> unat msecs + unat (tm_diff s) < span us + unat (fst (hd vs)))"
  proof
    assume "unat msecs + unat (tm_diff s) < 2 ^ 32"
    then have w: "unat ?w = unat msecs + unat (tm_diff s)" by (simp add: unat_word_ariths)
    with nt xs have "fst (hd (tm_list s)) \<le> ?w" by (simp add: word_le_nat_alt word_less_nat_alt)
    with u(5) w show "span us \<le> unat msecs + unat (tm_diff s) \<and>
          (vs \<noteq> [] \<longrightarrow> unat msecs + unat (tm_diff s) < span us + unat (fst (hd vs)))" by simp
  qed
  moreover have "D = sys_now s + msecs \<or> vs = [] \<and> msecs < msecs + tm_diff s - sum_list (map fst us)"
    using u(4) now by auto
  ultimately show ?thesis using u(1,2) by blast
qed

lemma tm_start_simps [simp]: "timeouts.more (tm_start z) = z" "sys_now (tm_start z) = 5000"
  "next_timeout (tm_start z) = None" "clock (tm_start z) = 5000"
  by (simp_all add: tm_start_def timeouts.extend_def sys_now_def)

lemma tm_start_timeout:
  "\<exists>s. sys_timeout msecs h arg (tm_start z) = Some s \<and> tm_inv szof_32 s \<and> tm_list s = [(msecs, h, arg)] \<and>
     timeouts.more s = z \<and> timeouts_last_time s = 5000 \<and> clock s = 5000"
  using sys_timeout_spec [OF tm_start_inv(1), of z msecs h arg] tm_start_inv(2) [of z] by auto

text \<open>C15: \<open>sys_timeout\<close> with an element left in the pool always returns, loses no element, and schedules
  the callback at \<open>sys_now() + msecs\<close>.  If the list is not empty and its first time does not
  exceed \<open>msecs\<close>, no other timer's deadline changes, and (when \<open>msecs + diff\<close> does not overflow) the new timer goes after
  exactly those timers that are due no later; the one exception is the code's own
  guard for a stale \<open>timeouts_last_time\<close> at the end of the list.  If the first time exceeds \<open>msecs\<close>, the new timer
  becomes the first and every other deadline moves by \<open>diff\<close>, the time since
  \<open>timeouts_last_time\<close>.\<close>

theorem sys_timeout_schedules:
  assumes "tm_inv szof s" "length (tm_list s) < 15"
  shows "\<exists>s'. sys_timeout msecs h arg s = Some s' \<and> tm_inv szof s' \<and>
    (case tm_list s of
       [] \<Rightarrow> tm_deadlines s' = [(sys_now s + msecs, h, arg)]
     | (t, _) # _ \<Rightarrow>
         if msecs < t then tm_deadlines s' = (sys_now s + msecs, h, arg) # delay (tm_diff s) (tm_deadlines s)
         else \<exists>us vs D. tm_list s = us @ vs \<and> us \<noteq> [] \<and>
           tm_deadlines s' = take (length us) (tm_deadlines s) @ (D, h, arg) # drop (length us) (tm_deadlines s) \<and>
           (D = sys_now s + msecs \<or> vs = [] \<and> msecs < msecs + tm_diff s - sum_list (map fst us)) \<and>
           (unat msecs + unat (tm_diff s) < 2 ^ 32 \<longrightarrow> span us \<le> unat msecs + unat (tm_diff s) \<and>
              (vs \<noteq> [] \<longrightarrow> unat msecs + unat (tm_diff s) < span us + unat (fst (hd vs)))))"
proof -
  obtain s' where s': "sys_timeout msecs h arg s = Some s'" "tm_inv szof s'"
    "tm_list s' = add_timer msecs (tm_diff s) (h, arg) (tm_list s)"
    "timeouts_last_time s' = (if next_timeout s = None then sys_now s else timeouts_last_time s)"
    using sys_timeout_spec [OF assms] by blast
  show ?thesis
  proof (cases "tm_list s")
    case Nil
    then have "next_timeout s = None" using tm_invD(2) [OF assms(1)] by (simp add: tm_list_def)
    then show ?thesis using s' Nil by (simp add: tm_deadlines_def)
  next
    case (Cons x r)
    obtain t d where x: "x = (t, d)" by (cases x)
    have "next_timeout s \<noteq> None" using tm_invD(2) [OF assms(1)] Cons by (auto simp: tm_list_def)
    then have lt: "timeouts_last_time s' = timeouts_last_time s" using s'(4) by auto
    have now: "timeouts_last_time s + (msecs + tm_diff s) = sys_now s + msecs" by (simp add: tm_diff_def)
    show ?thesis
    proof (cases "msecs < t")
      case True
      then have "tm_deadlines s' = (sys_now s + msecs, h, arg) # delay (tm_diff s) (tm_deadlines s)"
        unfolding tm_deadlines_def s'(3) lt Cons x
        by (simp only: add_timer.simps if_True timer_first now)
      then show ?thesis using s'(1,2) Cons x True by (intro exI [of _ s']) simp
    next
      case False
      from timer_later [OF Cons [unfolded x] False _ lt] s'(3) Cons x False show ?thesis
        using s'(1,2) by (intro exI [of _ s']) simp
    qed
  qed
qed

theorem sys_timeout_schedules_witness:
  "\<exists>s'. sys_timeout 100 (Some (Callback 0)) 7 (tm_start ()) = Some s' \<and>
     tm_deadlines s' = [(5100, Some (Callback 0), 7)]"
proof -
  from sys_timeout_schedules [OF tm_start_inv(1), of "()" 100 "Some (Callback 0)" 7] tm_start_inv(2) [of "()"]
  show ?thesis by auto
qed

text \<open>C16: \<open>sys_untimeout\<close> always returns, takes the first timer with this callback and argument out of the
  list, if there is one, gives its element back to the pool, and changes no other
  deadline.\<close>

theorem sys_untimeout_removes:
  assumes "tm_inv szof s"
  shows "\<exists>s'. sys_untimeout h arg s = Some s' \<and> tm_inv szof s' \<and>
    tm_deadlines s' = remove_first (\<lambda>(_, d). d = (h, arg)) (tm_deadlines s)"
  using sys_untimeout_spec [OF assms, of h arg] by (auto simp: tm_deadlines_def del_timer_deadlines)

theorem sys_untimeout_removes_witness:
  "\<exists>s s'. sys_timeout 100 (Some (Callback 0)) 7 (tm_start ()) = Some s \<and>
     sys_untimeout (Some (Callback 0)) 7 s = Some s' \<and> tm_deadlines s' = []"
proof -
  obtain s where s: "sys_timeout 100 (Some (Callback 0)) 7 (tm_start ()) = Some s" "tm_inv szof_32 s"
    "tm_list s = [(100, Some (Callback 0), 7)]"
    using tm_start_timeout [of 100 "Some (Callback 0)" 7 "()"] by auto
  then have "tm_deadlines s = [(timeouts_last_time s + 100, Some (Callback 0), 7)]" by (simp add: tm_deadlines_def)
  with sys_untimeout_removes [OF s(2), of "Some (Callback 0)" 7] s show ?thesis by auto
qed



text \<open>C38: A callback that runs late and arms a timer while no other timer is armed sees that timer fire in the same
  call of \<open>sys_check_timeouts\<close>, before its time: the loop goes on with the \<open>diff\<close> it computed before
  \<open>sys_timeout\<close> restarted the time base.\<close>

theorem sys_check_fires_early:
  assumes inv: "tm_inv szof s" and one: "tm_list s = [(t, Some (Callback 0), arg)]"
    and late: "t \<le> tm_diff s" "msecs \<le> tm_diff s - t" "0 < msecs"
    and call0: "\<And>a s. call (Callback 0) a s = sys_timeout msecs (Some (Callback 1)) 0 s"
    and call1: "\<And>a s. call (Callback 1) a s = Some (s\<lparr>timeouts.more := f (timeouts.more s)\<rparr>)"
  shows "\<exists>s'. sys_check_timeouts call s = Some s' \<and> clock s' = clock s \<and> timeouts.more s' = f (timeouts.more s)"
proof -
  obtain n where n: "tm_nodes s = [n]" "tm_entry s n = (t, Some (Callback 0), arg)"
    using one by (auto simp: tm_list_def)
  then have e: "to_time (timeo s n) = t" "to_h (timeo s n) = Some (Callback 0)" by (simp_all add: tm_entry_def)
  have nn: "next_timeout s = Some n" "to_next (timeo s n) = None"
    using tm_invD(2) [OF inv] n(1) by (simp_all add: tm_link_def)
  obtain ps where ps: "sys_check_loop call (tm_diff s) s =
      sys_timeout msecs (Some (Callback 1)) 0 (s\<lparr>timeouts_last_time := timeouts_last_time s + t, next_timeout := None, tm_pools := ps\<rparr>)
        \<bind> sys_check_loop call (tm_diff s - t)"
      "tm_inv szof (s\<lparr>timeouts_last_time := timeouts_last_time s + t, next_timeout := None, tm_pools := ps\<rparr>)"
      "tm_list (s\<lparr>timeouts_last_time := timeouts_last_time s + t, next_timeout := None, tm_pools := ps\<rparr>) = []"
    using sys_check_step [OF inv n(1), of "tm_diff s" call] late(1) e nn(2) by (auto simp: call0)
  obtain s2 where s2: "sys_timeout msecs (Some (Callback 1)) 0
      (s\<lparr>timeouts_last_time := timeouts_last_time s + t, next_timeout := None, tm_pools := ps\<rparr>) = Some s2" "tm_inv szof s2"
      "tm_list s2 = [(msecs, Some (Callback 1), 0)]" "clock s2 = clock s" "timeouts.more s2 = timeouts.more s"
    using sys_timeout_spec [OF ps(2), of msecs "Some (Callback 1)" 0] ps(3) by auto
  obtain k where k: "tm_nodes s2 = [k]" "tm_entry s2 k = (msecs, Some (Callback 1), 0)"
    using s2(3) by (auto simp: tm_list_def)
  then have ek: "to_time (timeo s2 k) = msecs" "to_h (timeo s2 k) = Some (Callback 1)" "to_next (timeo s2 k) = None"
    using tm_invD(2) [OF s2(2)] by (simp_all add: tm_entry_def tm_link_def)
  obtain ps' where "sys_check_loop call (tm_diff s - t) s2 = sys_check_loop call (tm_diff s - t - msecs)
      (s2\<lparr>timeouts_last_time := timeouts_last_time s2 + msecs, next_timeout := None, tm_pools := ps',
         timeouts.more := f (timeouts.more s2)\<rparr>)"
    using sys_check_step [OF s2(2) k(1), of "tm_diff s - t" call] late(2) ek by (auto simp: call1 [unfolded One_nat_def])
  also have "\<dots> = Some (s2\<lparr>timeouts_last_time := timeouts_last_time s2 + msecs, next_timeout := None, tm_pools := ps',
         timeouts.more := f (timeouts.more s2)\<rparr>)"
    by (simp add: sys_check_loop.simps)
  finally show ?thesis using nn(1) ps(1) s2 by (simp add: sys_check_timeouts_def tm_diff_def)
qed

theorem sys_check_fires_early_witness:
  "\<exists>s s' call. sys_timeout 0 (Some (Callback 0)) 0 (tm_start (0::nat)) = Some s \<and>
     sys_check_timeouts call (s\<lparr>clock := 6000\<rparr>) = Some s' \<and> clock s' = 6000 \<and> timeouts.more s' = 1"
proof -
  obtain s where s: "sys_timeout 0 (Some (Callback 0)) 0 (tm_start (0::nat)) = Some s" "tm_inv szof_32 s"
    "tm_list s = [(0, Some (Callback 0), 0)]" "timeouts.more s = 0" "timeouts_last_time s = 5000"
    using tm_start_timeout [of 0 "Some (Callback 0)" 0 "0::nat"] by auto
  let ?call = "\<lambda>h arg s. if h = Callback 0 then sys_timeout 500 (Some (Callback 1)) 0 s
    else Some (s\<lparr>timeouts.more := timeouts.more s + (1::nat)\<rparr>)"
  have "tm_inv szof_32 (s\<lparr>clock := 6000\<rparr>)" "tm_list (s\<lparr>clock := 6000\<rparr>) = [(0, Some (Callback 0), 0)]"
    using s(2,3) by simp_all
  from sys_check_fires_early [OF this, of 500 ?call "\<lambda>z. z + 1"] s show ?thesis
    by (auto simp: tm_diff_def sys_now_def)
qed

text \<open>\<open>sys_timeouts_init\<close> on an empty list, with the clock not advancing meanwhile, arms the four cyclic timers of the
  IP reassembly, ARP, IGMP and DNS modules at their intervals; the TCP timer (entry 0) is
  left to \<open>tcp_timer_needed\<close>.\<close>

theorem sys_timeouts_init_arms:
  assumes inv: "tm_inv szof s" and nil: "tm_list s = []" and now: "\<And>i. nows i = c"
  shows "\<exists>s'. sys_timeouts_init nows s = Some s' \<and> tm_inv szof s' \<and>
    tm_deadlines s' = [(c + 100, Some Cyclic_Timer, 3), (c + 1000, Some Cyclic_Timer, 1),
      (c + 1000, Some Cyclic_Timer, 2), (c + 1000, Some Cyclic_Timer, 4)]"
proof -
  have step: "\<exists>s'. sys_timeouts_init_loop nows (i # is) s = sys_timeouts_init_loop nows is s' \<and> tm_inv szof s' \<and>
      tm_list s' = add_timer (lwip_cyclic_timers ! i) 0 (Some Cyclic_Timer, i) (tm_list s) \<and> timeouts_last_time s' = c"
    if "tm_inv szof s" "length (tm_list s) < 15" "timeouts_last_time s = c \<or> tm_list s = []"
    for i "is" and s :: "'b timeouts_scheme"
  proof -
    let ?s = "s\<lparr>clock := nows i\<rparr>"
    have inv': "tm_inv szof ?s" "length (tm_list ?s) < 15" using that(1,2) by simp_all
    have "tm_list s = [] \<longleftrightarrow> next_timeout s = None" using tm_invD(2) [OF that(1)] by (cases "tm_nodes s") (auto simp: tm_list_def)
    moreover have "tm_list s \<noteq> [] \<Longrightarrow> tm_diff ?s = 0" using that(3) now by (simp add: tm_diff_def sys_now_def)
    ultimately show ?thesis
      using sys_timeout_spec [OF inv', of "lwip_cyclic_timers ! i" "Some Cyclic_Timer" i] that(3) now
      by (cases "tm_list s") (auto simp: sys_now_def)
  qed
  note t = lwip_cyclic_timers_def
  obtain s1 where s1: "sys_timeouts_init_loop nows [1, 2, 3, 4] s = sys_timeouts_init_loop nows [2, 3, 4] s1"
    "tm_inv szof s1" "tm_list s1 = [(1000, Some Cyclic_Timer, 1)]" "timeouts_last_time s1 = c"
    using step [OF inv, of 1 "[2, 3, 4]"] nil by (auto simp: t)
  obtain s2 where s2: "sys_timeouts_init_loop nows [2, 3, 4] s1 = sys_timeouts_init_loop nows [3, 4] s2"
    "tm_inv szof s2" "tm_list s2 = [(1000, Some Cyclic_Timer, 1), (0, Some Cyclic_Timer, 2)]" "timeouts_last_time s2 = c"
    using step [OF s1(2), of 2 "[3, 4]"] s1 by (auto simp: t)
  obtain s3 where s3: "sys_timeouts_init_loop nows [3, 4] s2 = sys_timeouts_init_loop nows [4] s3" "tm_inv szof s3"
    "tm_list s3 = [(100, Some Cyclic_Timer, 3), (900, Some Cyclic_Timer, 1), (0, Some Cyclic_Timer, 2)]" "timeouts_last_time s3 = c"
    using step [OF s2(2), of 3 "[4]"] s2 by (auto simp: t)
  obtain s4 where s4: "sys_timeouts_init_loop nows [4] s3 = Some s4" "tm_inv szof s4"
    "tm_list s4 = [(100, Some Cyclic_Timer, 3), (900, Some Cyclic_Timer, 1), (0, Some Cyclic_Timer, 2), (0, Some Cyclic_Timer, 4)]"
    "timeouts_last_time s4 = c"
    using step [OF s3(2), of 4 "[]"] s3 by (auto simp: t)
  have "[1..<length lwip_cyclic_timers] = [1, 2, 3, 4]" by (simp add: t upt_conv_Cons)
  then have "sys_timeouts_init nows s = Some (s4\<lparr>clock := c, timeouts_last_time := c\<rparr>)"
    using s1(1) s2(1) s3(1) s4(1) now by (simp add: sys_timeouts_init_def sys_now_def)
  then show ?thesis using s4 by (simp add: tm_deadlines_def)
qed

theorem sys_timeouts_init_arms_witness:
  "\<exists>s'. sys_timeouts_init (\<lambda>_. 5000) (tm_start ()) = Some s' \<and> length (tm_deadlines s') = 4"
  using sys_timeouts_init_arms [OF tm_start_inv, of "\<lambda>_. 5000" 5000 "()"] by auto

end
