(* ===== verification/Sys_Arch.thy ===== *)
theory Sys_Arch
  imports Prelude
begin

text \<open>
  Semaphores and mailboxes of the win32 port, \<open>src/contrib/ports/win32/sys_arch.c\<close>.  A mailbox is a
  ring buffer of \<open>MAX_QUEUE_ENTRIES\<close> pointers with a Windows semaphore.  The Windows calls are the
  fields of \<open>win32\<close>, a parameter of every operation that uses them; \<open>win32_ok\<close> states their documented
  behaviour.  Posting and taking run in a critical section and are single steps; waiting for the
  semaphore happens outside of it, so that threads can interleave there.
\<close>

section \<open>Operations\<close>

datatype wait_result = WAIT_OBJECT_0 | WAIT_TIMEOUT | WAIT_FAILED

text \<open>\<open>WaitForSingleObject\<close> yields None when it does not return.\<close>

record 'h win32 =
  CreateSemaphore :: "nat \<Rightarrow> nat \<Rightarrow> 'h option"
  ReleaseSemaphore :: "'h \<Rightarrow> bool \<times> 'h"
  WaitForSingleObject :: "'h \<Rightarrow> u32_t \<Rightarrow> (wait_result \<times> 'h) option"

definition INFINITE :: u32_t where "INFINITE = 0xffffffff"
definition SYS_ARCH_TIMEOUT :: u32_t where "SYS_ARCH_TIMEOUT = 0xffffffff"
definition MAX_QUEUE_ENTRIES :: nat where "MAX_QUEUE_ENTRIES = 100"

record stats_syselem =
  se_used :: nat
  se_max :: nat
  se_err :: nat

definition sys_stats_inc_used :: "stats_syselem \<Rightarrow> stats_syselem" where
  "sys_stats_inc_used st =
     (let st = st\<lparr>se_used := u16 (se_used st + 1)\<rparr>
      in if se_max st < se_used st then st\<lparr>se_max := se_used st\<rparr> else st)"

text \<open>Semaphores: the result of \<open>sys_sem_new\<close>, the new content of \<open>*sem\<close> and the statistics.\<close>

definition sys_sem_new :: "'h win32 \<Rightarrow> nat \<Rightarrow> stats_syselem \<Rightarrow> (err_t \<times> 'h option \<times> stats_syselem) option" where
  "sys_sem_new api count st = do {
     let new_sem = CreateSemaphore api count 100000;
     lwip_assert (new_sem \<noteq> None);
     if new_sem \<noteq> None then do {
       let st = sys_stats_inc_used st;
       lwip_assert (se_used st \<noteq> 0);
       Some (ERR_OK, new_sem, st) }
     else Some (ERR_MEM, None, st\<lparr>se_err := u16 (se_err st + 1)\<rparr>) }"

definition sys_sem_free :: "'h option \<Rightarrow> stats_syselem \<Rightarrow> ('h option \<times> stats_syselem) option" where
  "sys_sem_free sem st = do {
     lwip_assert (sem \<noteq> None);
     let st = st\<lparr>se_used := sub16 (se_used st) 1\<rparr>;
     lwip_assert (se_used st \<noteq> 65535);
     Some (None, st) }"

text \<open>\<open>elapsed\<close> is the difference of the two clock readings.\<close>

definition sys_arch_sem_wait :: "'h win32 \<Rightarrow> u32_t \<Rightarrow> 'h option \<Rightarrow> u32_t \<Rightarrow> (u32_t \<times> 'h option) option" where
  "sys_arch_sem_wait api elapsed sem timeout = do {
     lwip_assert (sem \<noteq> None);
     if timeout = 0 then do {
       (ret, h) \<leftarrow> WaitForSingleObject api (the sem) INFINITE;
       lwip_assert (ret = WAIT_OBJECT_0);
       Some (elapsed, Some h) }
     else do {
       (ret, h) \<leftarrow> WaitForSingleObject api (the sem) timeout;
       lwip_assert (ret = WAIT_OBJECT_0 \<or> ret = WAIT_TIMEOUT);
       if ret = WAIT_OBJECT_0 then Some (elapsed, Some h) else Some (SYS_ARCH_TIMEOUT, Some h) } }"

definition sys_sem_signal :: "'h win32 \<Rightarrow> 'h option \<Rightarrow> 'h option option" where
  "sys_sem_signal api sem = do {
     lwip_assert (sem \<noteq> None);
     let (ret, h) = ReleaseSemaphore api (the sem);
     lwip_assert ret;
     Some (Some h) }"

text \<open>Mailboxes.  Messages are pointers of type \<open>'m option\<close>, None is NULL.\<close>

record ('h, 'm) mbox =
  mb_sem :: "'h option"
  q_mem :: "'m option list"
  mb_head :: nat
  mb_tail :: nat

definition sys_mbox_new :: "'h win32 \<Rightarrow> nat \<Rightarrow> ('h, 'm) mbox \<Rightarrow> stats_syselem \<Rightarrow> (err_t \<times> ('h, 'm) mbox \<times> stats_syselem) option" where
  "sys_mbox_new api sz q st = do {
     let q = q\<lparr>mb_sem := CreateSemaphore api 0 MAX_QUEUE_ENTRIES\<rparr>;
     lwip_assert (mb_sem q \<noteq> None);
     if mb_sem q = None then Some (ERR_MEM, q, st\<lparr>se_err := u16 (se_err st + 1)\<rparr>)
     else do {
       let q = q\<lparr>q_mem := replicate MAX_QUEUE_ENTRIES None, mb_head := 0, mb_tail := 0\<rparr>;
       let st = sys_stats_inc_used st;
       lwip_assert (se_used st \<noteq> 0);
       Some (ERR_OK, q, st) } }"

definition sys_mbox_free :: "('h, 'm) mbox \<Rightarrow> stats_syselem \<Rightarrow> (('h, 'm) mbox \<times> stats_syselem) option" where
  "sys_mbox_free q st = do {
     lwip_assert (mb_sem q \<noteq> None);
     let st = st\<lparr>se_used := sub16 (se_used st) 1\<rparr>;
     lwip_assert (se_used st \<noteq> 65535);
     Some (q\<lparr>mb_sem := None\<rparr>, st) }"

definition mbox_release :: "'h win32 \<Rightarrow> ('h, 'm) mbox \<Rightarrow> ('h, 'm) mbox option" where
  "mbox_release api q = do {
     lwip_assert (mb_head q \<noteq> mb_tail q);
     let (ret, h) = ReleaseSemaphore api (the (mb_sem q));
     lwip_assert ret;
     Some (q\<lparr>mb_sem := Some h\<rparr>) }"

definition sys_mbox_post :: "'h win32 \<Rightarrow> 'm option \<Rightarrow> ('h, 'm) mbox \<Rightarrow> ('h, 'm) mbox option" where
  "sys_mbox_post api msg q = do {
     lwip_assert (mb_sem q \<noteq> None);
     let q = q\<lparr>q_mem := (q_mem q)[mb_head q := msg]\<rparr>;
     let q = q\<lparr>mb_head := mb_head q + 1\<rparr>;
     let q = (if MAX_QUEUE_ENTRIES \<le> mb_head q then q\<lparr>mb_head := 0\<rparr> else q);
     mbox_release api q }"

definition sys_mbox_trypost :: "'h win32 \<Rightarrow> 'm option \<Rightarrow> ('h, 'm) mbox \<Rightarrow> (err_t \<times> ('h, 'm) mbox) option" where
  "sys_mbox_trypost api msg q = do {
     lwip_assert (mb_sem q \<noteq> None);
     let new_head = mb_head q + 1;
     let new_head = (if MAX_QUEUE_ENTRIES \<le> new_head then 0 else new_head);
     if new_head = mb_tail q then Some (ERR_MEM, q)
     else do {
       let q = q\<lparr>q_mem := (q_mem q)[mb_head q := msg]\<rparr>;
       let q = q\<lparr>mb_head := new_head\<rparr>;
       q \<leftarrow> mbox_release api q;
       Some (ERR_OK, q) } }"

text \<open>The critical section of \<open>sys_arch_mbox_fetch\<close> and \<open>sys_arch_mbox_tryfetch\<close>.\<close>

definition mbox_take :: "('h, 'm) mbox \<Rightarrow> 'm option \<times> ('h, 'm) mbox" where
  "mbox_take q =
     (let msg = q_mem q ! mb_tail q;
          q = q\<lparr>mb_tail := mb_tail q + 1\<rparr>;
          q = (if MAX_QUEUE_ENTRIES \<le> mb_tail q then q\<lparr>mb_tail := 0\<rparr> else q)
      in (msg, q))"

text \<open>The wait in front of it: None when it does not return, else whether a message is there.\<close>

definition mbox_wait :: "'h win32 \<Rightarrow> u32_t \<Rightarrow> ('h, 'm) mbox \<Rightarrow> (bool \<times> ('h, 'm) mbox) option" where
  "mbox_wait api timeout q = do {
     (ret, h) \<leftarrow> WaitForSingleObject api (the (mb_sem q)) timeout;
     let q = q\<lparr>mb_sem := Some h\<rparr>;
     if ret = WAIT_OBJECT_0 then Some (True, q)
     else do { lwip_assert (ret = WAIT_TIMEOUT); Some (False, q) } }"

definition sys_arch_mbox_fetch :: "'h win32 \<Rightarrow> u32_t \<Rightarrow> ('h, 'm) mbox \<Rightarrow> u32_t \<Rightarrow> (u32_t \<times> 'm option \<times> ('h, 'm) mbox) option" where
  "sys_arch_mbox_fetch api elapsed q timeout = do {
     lwip_assert (mb_sem q \<noteq> None);
     let timeout = (if timeout = 0 then INFINITE else timeout);
     (got, q) \<leftarrow> mbox_wait api timeout q;
     if got then let (msg, q) = mbox_take q in Some (elapsed, msg, q)
     else Some (SYS_ARCH_TIMEOUT, None, q) }"

definition sys_arch_mbox_tryfetch :: "'h win32 \<Rightarrow> ('h, 'm) mbox \<Rightarrow> (u32_t \<times> 'm option \<times> ('h, 'm) mbox) option" where
  "sys_arch_mbox_tryfetch api q = do {
     lwip_assert (mb_sem q \<noteq> None);
     (got, q) \<leftarrow> mbox_wait api 0 q;
     if got then let (msg, q) = mbox_take q in Some (0, msg, q)
     else Some (SYS_ARCH_TIMEOUT, None, q) }"

section \<open>Windows semaphores\<close>

text \<open>A semaphore has a count between 0 and its maximum: releasing increments it and fails at the
  maximum, a wait decrements it or, at 0, times out; an infinite wait does not time out.\<close>

definition win32_ok :: "'h win32 \<Rightarrow> ('h \<Rightarrow> nat) \<Rightarrow> ('h \<Rightarrow> nat) \<Rightarrow> bool" where
  "win32_ok api count maxi \<longleftrightarrow>
     (\<forall>n m h. CreateSemaphore api n m = Some h \<longrightarrow> count h = n \<and> maxi h = m) \<and>
     (\<forall>h. \<exists>h'. ReleaseSemaphore api h = (count h < maxi h, h') \<and> maxi h' = maxi h \<and>
        count h' = (if count h < maxi h then count h + 1 else count h)) \<and>
     (\<forall>h t. 0 < count h \<longrightarrow> (\<exists>h'. WaitForSingleObject api h t = Some (WAIT_OBJECT_0, h') \<and> maxi h' = maxi h \<and> count h' = count h - 1)) \<and>
     (\<forall>h t. count h = 0 \<longrightarrow> (if t = INFINITE then WaitForSingleObject api h t = None
        else \<exists>h'. WaitForSingleObject api h t = Some (WAIT_TIMEOUT, h') \<and> maxi h' = maxi h \<and> count h' = 0))"

lemma win32_okD:
  assumes "win32_ok api count maxi"
  shows "CreateSemaphore api n m = Some h \<Longrightarrow> count h = n \<and> maxi h = m"
    and "\<exists>h'. ReleaseSemaphore api h = (count h < maxi h, h') \<and> maxi h' = maxi h \<and>
        count h' = (if count h < maxi h then count h + 1 else count h)"
    and "0 < count h \<Longrightarrow> \<exists>h'. WaitForSingleObject api h t = Some (WAIT_OBJECT_0, h') \<and> maxi h' = maxi h \<and> count h' = count h - 1"
    and "count h = 0 \<Longrightarrow> t \<noteq> INFINITE \<Longrightarrow> \<exists>h'. WaitForSingleObject api h t = Some (WAIT_TIMEOUT, h') \<and> maxi h' = maxi h \<and> count h' = 0"
    and "count h = 0 \<Longrightarrow> WaitForSingleObject api h INFINITE = None"
  using assms unfolding win32_ok_def by (blast, blast, blast, metis, metis)

text \<open>A semaphore as a pair of count and maximum.\<close>

definition win32_pair :: "(nat \<times> nat) win32" where
  "win32_pair = \<lparr>CreateSemaphore = \<lambda>n m. Some (n, m),
     ReleaseSemaphore = \<lambda>(c, m). if c < m then (True, (c + 1, m)) else (False, (c, m)),
     WaitForSingleObject = \<lambda>(c, m) t. if 0 < c then Some (WAIT_OBJECT_0, (c - 1, m))
       else if t = INFINITE then None else Some (WAIT_TIMEOUT, (c, m))\<rparr>"

lemma win32_pair_ok: "win32_ok win32_pair fst snd"
  by (auto simp: win32_ok_def win32_pair_def split: prod.splits)

section \<open>The ring buffer is a queue\<close>

definition ring_size :: "('h, 'm) mbox \<Rightarrow> nat" where
  "ring_size q = (if mb_tail q \<le> mb_head q then mb_head q - mb_tail q else mb_head q + MAX_QUEUE_ENTRIES - mb_tail q)"

definition ring :: "('h, 'm) mbox \<Rightarrow> 'm option list" where
  "ring q = map (\<lambda>i. q_mem q ! ((mb_tail q + i) mod MAX_QUEUE_ENTRIES)) [0..<ring_size q]"

definition ring_ok :: "('h, 'm) mbox \<Rightarrow> bool" where
  "ring_ok q \<longleftrightarrow> length (q_mem q) = MAX_QUEUE_ENTRIES \<and> mb_head q < MAX_QUEUE_ENTRIES \<and> mb_tail q < MAX_QUEUE_ENTRIES"

lemma length_ring [simp]: "length (ring q) = ring_size q"
  by (simp add: ring_def)

lemma ring_size_less: "ring_ok q \<Longrightarrow> ring_size q < MAX_QUEUE_ENTRIES"
  by (auto simp: ring_size_def ring_ok_def)

definition ring_put :: "'m option \<Rightarrow> ('h, 'm) mbox \<Rightarrow> ('h, 'm) mbox" where
  "ring_put msg q = q\<lparr>q_mem := (q_mem q)[mb_head q := msg], mb_head := (mb_head q + 1) mod MAX_QUEUE_ENTRIES\<rparr>"

lemma ring_put:
  assumes "ring_ok q" "ring_size q + 1 < MAX_QUEUE_ENTRIES"
  shows "ring_ok (ring_put msg q)" "ring (ring_put msg q) = ring q @ [msg]" "mb_head (ring_put msg q) \<noteq> mb_tail q"
proof -
  let ?q = "ring_put msg q"
  show ok: "ring_ok ?q" using assms(1) by (simp add: ring_ok_def ring_put_def MAX_QUEUE_ENTRIES_def)
  have sz: "ring_size ?q = ring_size q + 1" and neq: "mb_head ?q \<noteq> mb_tail q"
    using assms by (auto simp: ring_size_def ring_put_def ring_ok_def MAX_QUEUE_ENTRIES_def mod_Suc split: if_splits)
  show "mb_head ?q \<noteq> mb_tail q" by (rule neq)
  have pos: "(mb_tail q + ring_size q) mod MAX_QUEUE_ENTRIES = mb_head q"
    using assms(1) by (auto simp: ring_size_def ring_ok_def MAX_QUEUE_ENTRIES_def le_mod_geq)
  have m: "(mb_tail q + j) mod MAX_QUEUE_ENTRIES = (if mb_tail q + j < 100 then mb_tail q + j else mb_tail q + j - 100)" if "j < 100" for j
  proof -
    have "mb_tail q + j - 100 < 100" if "100 \<le> mb_tail q + j" using \<open>j < 100\<close> assms(1) that by (auto simp: ring_ok_def MAX_QUEUE_ENTRIES_def)
    then show ?thesis by (simp add: MAX_QUEUE_ENTRIES_def le_mod_geq)
  qed
  have "mb_head q \<noteq> (mb_tail q + i) mod MAX_QUEUE_ENTRIES" if "i < ring_size q" for i
  proof -
    have "ring_size q < 100" using assms(2) by (simp add: MAX_QUEUE_ENTRIES_def)
    then show ?thesis using pos m [of i] m [of "ring_size q"] that by (auto split: if_splits)
  qed
  then show "ring ?q = ring q @ [msg]"
    using sz pos assms(1) by (auto simp: ring_def ring_put_def ring_ok_def)
qed

lemma ring_take:
  assumes "ring_ok q" "0 < ring_size q"
  obtains q' where "mbox_take q = (hd (ring q), q')" "ring_ok q'" "ring q' = tl (ring q)" "mb_sem q' = mb_sem q"
proof -
  let ?q = "q\<lparr>mb_tail := (mb_tail q + 1) mod MAX_QUEUE_ENTRIES\<rparr>"
  have t: "mbox_take q = (q_mem q ! mb_tail q, ?q)"
    using assms(1) by (auto simp: mbox_take_def ring_ok_def MAX_QUEUE_ENTRIES_def mod_Suc)
  have sz: "ring_size ?q = ring_size q - 1"
    using assms by (auto simp: ring_size_def ring_ok_def MAX_QUEUE_ENTRIES_def mod_Suc split: if_splits)
  have cons: "[0..<ring_size q] = 0 # map Suc [0..<ring_size q - 1]"
    using assms(2) by (cases "ring_size q") (simp_all add: upt_conv_Cons map_Suc_upt del: upt_Suc)
  have "((mb_tail q + 1) mod MAX_QUEUE_ENTRIES + i) mod MAX_QUEUE_ENTRIES = (mb_tail q + Suc i) mod MAX_QUEUE_ENTRIES" for i
    by (simp add: mod_add_left_eq)
  then have "ring ?q = tl (ring q)" using sz unfolding ring_def cons by simp
  moreover have "hd (ring q) = q_mem q ! mb_tail q"
    using assms unfolding ring_def cons by (simp add: ring_ok_def)
  moreover have "ring_ok ?q" using assms(1) by (simp add: ring_ok_def MAX_QUEUE_ENTRIES_def)
  ultimately show ?thesis using that [of ?q] t by simp
qed

section \<open>Operations on the queue\<close>

text \<open>\<open>k\<close> threads have waited successfully and not yet taken their message.\<close>

definition mbox_inv :: "'h win32 \<Rightarrow> ('h \<Rightarrow> nat) \<Rightarrow> ('h \<Rightarrow> nat) \<Rightarrow> nat \<Rightarrow> ('h, 'm) mbox \<Rightarrow> bool" where
  "mbox_inv api count maxi k q \<longleftrightarrow> win32_ok api count maxi \<and> ring_ok q \<and>
     (\<exists>h. mb_sem q = Some h \<and> maxi h = MAX_QUEUE_ENTRIES \<and> count h + k = ring_size q)"

lemma mbox_invE:
  assumes "mbox_inv api count maxi k q"
  obtains h where "win32_ok api count maxi" "ring_ok q" "mb_sem q = Some h" "maxi h = MAX_QUEUE_ENTRIES"
    "count h + k = ring_size q" "ring_size q < MAX_QUEUE_ENTRIES"
  using assms ring_size_less unfolding mbox_inv_def by blast

lemma ring_sem [simp]: "ring (q\<lparr>mb_sem := h\<rparr>) = ring q" "ring_ok (q\<lparr>mb_sem := h\<rparr>) = ring_ok q" "ring_size (q\<lparr>mb_sem := h\<rparr>) = ring_size q"
  by (simp_all add: ring_def ring_ok_def ring_size_def)

lemma release_ok:
  assumes "mbox_inv api count maxi k q" "ring_size q + 1 < MAX_QUEUE_ENTRIES"
  shows "\<exists>q'. mbox_release api (ring_put m q) = Some q' \<and> mbox_inv api count maxi k q' \<and> ring q' = ring q @ [m]"
proof -
  obtain h where h: "win32_ok api count maxi" "ring_ok q" "mb_sem q = Some h" "maxi h = MAX_QUEUE_ENTRIES"
    "count h + k = ring_size q" using mbox_invE [OF assms(1)] by metis
  have lt: "count h < maxi h" using h(4,5) assms(2) by simp
  obtain h' where h': "ReleaseSemaphore api h = (True, h')" "maxi h' = maxi h" "count h' = count h + 1"
    using win32_okD(2) [OF h(1), of h] lt by auto
  have p: "ring_ok (ring_put m q)" "ring (ring_put m q) = ring q @ [m]" "mb_head (ring_put m q) \<noteq> mb_tail q"
    using ring_put [OF h(2) assms(2)] by auto
  have "ring_size (ring_put m q) = ring_size q + 1" using arg_cong [OF p(2), of length] by simp
  moreover have "mb_tail (ring_put m q) = mb_tail q" "mb_sem (ring_put m q) = Some h" using h(3) by (simp_all add: ring_put_def)
  ultimately show ?thesis using p h h' by (simp add: mbox_release_def mbox_inv_def)
qed

lemma post_step: "ring_ok q \<Longrightarrow> mb_sem q \<noteq> None \<Longrightarrow> sys_mbox_post api m q = mbox_release api (ring_put m q)"
  by (auto simp: sys_mbox_post_def ring_put_def ring_ok_def MAX_QUEUE_ENTRIES_def mod_Suc)

lemma trypost_step:
  assumes "ring_ok q" "mb_sem q \<noteq> None"
  shows "sys_mbox_trypost api m q = (if ring_size q + 1 = MAX_QUEUE_ENTRIES then Some (ERR_MEM, q)
    else mbox_release api (ring_put m q) \<bind> (\<lambda>q. Some (ERR_OK, q)))"
proof -
  have n: "(if MAX_QUEUE_ENTRIES \<le> mb_head q + 1 then 0 else mb_head q + 1) = (mb_head q + 1) mod MAX_QUEUE_ENTRIES"
    using assms(1) by (auto simp: ring_ok_def MAX_QUEUE_ENTRIES_def mod_Suc)
  have f: "(mb_head q + 1) mod MAX_QUEUE_ENTRIES = mb_tail q \<longleftrightarrow> ring_size q + 1 = MAX_QUEUE_ENTRIES"
    using assms(1) by (auto simp: ring_size_def ring_ok_def MAX_QUEUE_ENTRIES_def mod_Suc split: if_splits)
  show ?thesis using assms(2) unfolding sys_mbox_trypost_def Let_def n f by (simp add: ring_put_def)
qed

lemma post_ok:
  assumes "mbox_inv api count maxi k q"
  shows "if ring_size q + 1 < MAX_QUEUE_ENTRIES
    then \<exists>q'. sys_mbox_post api m q = Some q' \<and> sys_mbox_trypost api m q = Some (ERR_OK, q') \<and>
      mbox_inv api count maxi k q' \<and> ring q' = ring q @ [m]
    else sys_mbox_post api m q = None \<and> sys_mbox_trypost api m q = Some (ERR_MEM, q)"
proof -
  obtain h where h: "ring_ok q" "mb_sem q = Some h" "ring_size q < MAX_QUEUE_ENTRIES" using mbox_invE [OF assms] by metis
  show ?thesis
  proof (cases "ring_size q + 1 < MAX_QUEUE_ENTRIES")
    case True
    then show ?thesis using release_ok [OF assms True, of m] h by (auto simp: post_step trypost_step)
  next
    case False
    then have full: "ring_size q + 1 = MAX_QUEUE_ENTRIES" using h(3) by simp
    then have "mb_head (ring_put m q) = mb_tail (ring_put m q)"
      using h(1) by (auto simp: ring_size_def ring_put_def ring_ok_def MAX_QUEUE_ENTRIES_def mod_Suc split: if_splits)
    then have "mbox_release api (ring_put m q) = None" by (simp add: mbox_release_def lwip_assert_def)
    then show ?thesis using False full h by (simp add: post_step trypost_step)
  qed
qed

lemma wait_ok:
  assumes "mbox_inv api count maxi k q"
  shows "if k < ring_size q then \<exists>q'. mbox_wait api t q = Some (True, q') \<and> mbox_inv api count maxi (Suc k) q' \<and> ring q' = ring q
    else if t = INFINITE then mbox_wait api t q = None
    else \<exists>q'. mbox_wait api t q = Some (False, q') \<and> mbox_inv api count maxi k q' \<and> ring q' = ring q"
proof -
  obtain h where h: "win32_ok api count maxi" "ring_ok q" "mb_sem q = Some h" "maxi h = MAX_QUEUE_ENTRIES"
    "count h + k = ring_size q" using mbox_invE [OF assms] by metis
  show ?thesis
  proof (cases "0 < count h")
    case True
    then obtain h' where "WaitForSingleObject api h t = Some (WAIT_OBJECT_0, h')" "maxi h' = maxi h" "count h' = count h - 1"
      using win32_okD(3) [OF h(1)] by blast
    then show ?thesis using h True by (auto simp: mbox_wait_def mbox_inv_def)
  next
    case False
    then have z: "count h = 0" by simp
    show ?thesis
    proof (cases "t = INFINITE")
      case True
      then show ?thesis using h z win32_okD(5) [OF h(1) z] by (simp add: mbox_wait_def)
    next
      case ninf: False
      then obtain h' where "WaitForSingleObject api h t = Some (WAIT_TIMEOUT, h')" "maxi h' = maxi h" "count h' = 0"
        using win32_okD(4) [OF h(1) z] by blast
      then show ?thesis using h z ninf by (simp add: mbox_wait_def mbox_inv_def)
    qed
  qed
qed

lemma take_ok:
  assumes "mbox_inv api count maxi (Suc k) q"
  shows "\<exists>q' m. mbox_take q = (m, q') \<and> mbox_inv api count maxi k q' \<and> ring q = m # ring q'"
proof -
  obtain h where h: "win32_ok api count maxi" "ring_ok q" "mb_sem q = Some h" "maxi h = MAX_QUEUE_ENTRIES"
    "count h + Suc k = ring_size q" using mbox_invE [OF assms] by metis
  have pos: "0 < ring_size q" using h(5) by simp
  obtain q' where q': "mbox_take q = (hd (ring q), q')" "ring_ok q'" "ring q' = tl (ring q)" "mb_sem q' = mb_sem q"
    by (rule ring_take [OF h(2) pos])
  have "ring q \<noteq> []" using pos length_ring [of q] by fastforce
  moreover have "ring_size q' = ring_size q - 1" using arg_cong [OF q'(3), of length] by simp
  ultimately show ?thesis using q' h by (intro exI [of _ q'] exI [of _ "hd (ring q)"]) (auto simp: mbox_inv_def)
qed

lemma fetch_ok:
  assumes inv: "mbox_inv api count maxi 0 q" and r: "ring q = m # r"
  shows "\<exists>q'. sys_arch_mbox_fetch api e q t = Some (e, m, q') \<and> mbox_inv api count maxi 0 q' \<and> ring q' = r"
    "\<exists>q'. sys_arch_mbox_tryfetch api q = Some (0, m, q') \<and> mbox_inv api count maxi 0 q' \<and> ring q' = r"
proof -
  have sem: "mb_sem q \<noteq> None" using mbox_invE [OF inv] by (metis option.distinct(1))
  have "0 < ring_size q" using length_ring [of q] r by simp
  have got: "\<exists>q1 q'. mbox_wait api t q = Some (True, q1) \<and> mbox_take q1 = (m, q') \<and> mbox_inv api count maxi 0 q' \<and> ring q' = r" for t
  proof -
    obtain q1 where w: "mbox_wait api t q = Some (True, q1)" "mbox_inv api count maxi (Suc 0) q1" "ring q1 = ring q"
      using wait_ok [OF inv, of t] \<open>0 < ring_size q\<close> by auto
    then show ?thesis using take_ok [OF w(2)] r by auto
  qed
  show "\<exists>q'. sys_arch_mbox_fetch api e q t = Some (e, m, q') \<and> mbox_inv api count maxi 0 q' \<and> ring q' = r"
    using sem got [of "if t = 0 then INFINITE else t"] by (auto simp: sys_arch_mbox_fetch_def Let_def)
  show "\<exists>q'. sys_arch_mbox_tryfetch api q = Some (0, m, q') \<and> mbox_inv api count maxi 0 q' \<and> ring q' = r"
    using sem got [of 0] by (auto simp: sys_arch_mbox_tryfetch_def Let_def)
qed

lemma mbox_new_inv:
  assumes "win32_ok api count maxi" "sys_mbox_new api n q0 st = Some (ERR_OK, q, st')"
  shows "mbox_inv api count maxi 0 q" "ring q = []"
  using assms win32_okD(1) [OF assms(1)]
  by (auto simp: sys_mbox_new_def mbox_inv_def ring_ok_def ring_size_def ring_def MAX_QUEUE_ENTRIES_def Let_def split: if_splits)

section \<open>Threads\<close>

text \<open>The steps of the threads that share a mailbox, with the number of those that have waited
  successfully and not yet taken their message.\<close>

datatype 'm mbox_event = Posted "'m option" | Refused | Waited | Timed_Out | Taken "'m option"

inductive mbox_step :: "'h win32 \<Rightarrow> ('h, 'm) mbox \<times> nat \<Rightarrow> 'm mbox_event \<Rightarrow> ('h, 'm) mbox \<times> nat \<Rightarrow> bool" for api where
  post_step_: "sys_mbox_post api m q = Some q' \<Longrightarrow> mbox_step api (q, k) (Posted m) (q', k)"
| trypost_step_: "sys_mbox_trypost api m q = Some (e, q') \<Longrightarrow>
    mbox_step api (q, k) (if e = ERR_OK then Posted m else Refused) (q', k)"
| wait_step: "mbox_wait api t q = Some (True, q') \<Longrightarrow> mbox_step api (q, k) Waited (q', Suc k)"
| timeout_step: "mbox_wait api t q = Some (False, q') \<Longrightarrow> mbox_step api (q, k) Timed_Out (q', k)"
| take_step: "mbox_take q = (m, q') \<Longrightarrow> mbox_step api (q, Suc k) (Taken m) (q', k)"

inductive mbox_run :: "'h win32 \<Rightarrow> ('h, 'm) mbox \<times> nat \<Rightarrow> 'm mbox_event list \<Rightarrow> ('h, 'm) mbox \<times> nat \<Rightarrow> bool" for api where
  run_nil: "mbox_run api s [] s"
| run_cons: "mbox_step api s e t \<Longrightarrow> mbox_run api t es u \<Longrightarrow> mbox_run api s (e # es) u"

fun posted :: "'m mbox_event list \<Rightarrow> 'm option list" where
  "posted [] = []"
| "posted (Posted m # es) = m # posted es"
| "posted (_ # es) = posted es"

fun taken_msgs :: "'m mbox_event list \<Rightarrow> 'm option list" where
  "taken_msgs [] = []"
| "taken_msgs (Taken m # es) = m # taken_msgs es"
| "taken_msgs (_ # es) = taken_msgs es"

lemma mbox_step_inv:
  assumes "mbox_step api (q, k) e (q', k')" "mbox_inv api count maxi k q"
  shows "mbox_inv api count maxi k' q' \<and>
    (case e of Posted m \<Rightarrow> ring q' = ring q @ [m] | Taken m \<Rightarrow> ring q = m # ring q' | _ \<Rightarrow> ring q' = ring q)"
  using assms(1)
proof cases
  case (post_step_ m)
  then show ?thesis using post_ok [OF assms(2), of m] assms(2) by (auto split: if_splits)
next
  case (trypost_step_ m e')
  then show ?thesis using post_ok [OF assms(2), of m] assms(2) by (auto split: if_splits)
next
  case (wait_step t)
  then show ?thesis using wait_ok [OF assms(2), of t] by (auto split: if_splits)
next
  case (timeout_step t)
  then show ?thesis using wait_ok [OF assms(2), of t] by (auto split: if_splits)
next
  case (take_step m)
  then show ?thesis using take_ok [of api count maxi k' q] assms(2) by auto
qed

lemma mbox_run_inv:
  assumes "mbox_run api s es t" "mbox_inv api count maxi (snd s) (fst s)"
  shows "mbox_inv api count maxi (snd t) (fst t) \<and> ring (fst s) @ posted es = taken_msgs es @ ring (fst t)"
  using assms
proof (induction rule: mbox_run.induct)
  case (run_cons s e t es u)
  then have "mbox_inv api count maxi (snd t) (fst t)" and
    r: "case e of Posted m \<Rightarrow> ring (fst t) = ring (fst s) @ [m] | Taken m \<Rightarrow> ring (fst s) = m # ring (fst t) | _ \<Rightarrow> ring (fst t) = ring (fst s)"
    using mbox_step_inv [of api "fst s" "snd s" e "fst t" "snd t" count maxi] by auto
  then show ?case using run_cons.IH by (cases e) auto
qed simp

section \<open>Properties\<close>

text \<open>C18: However the threads interleave, the messages taken from a mailbox are the messages posted, in
  order, without loss or duplication; what is not yet taken is in the ring, at most 99 messages,
  and the threads past their wait never outnumber them.\<close>

theorem mbox_fifo:
  assumes "win32_ok api count maxi" "sys_mbox_new api n q0 st = Some (ERR_OK, q, st')" "mbox_run api (q, 0) es (q', k)"
  shows "posted es = taken_msgs es @ ring q' \<and> k \<le> length (ring q') \<and> length (ring q') < MAX_QUEUE_ENTRIES"
proof -
  have i: "mbox_inv api count maxi 0 q" "ring q = []" by (rule mbox_new_inv [OF assms(1,2)])+
  then have "mbox_inv api count maxi k q'" "posted es = taken_msgs es @ ring q'"
    using mbox_run_inv [OF assms(3), of count maxi] by auto
  then show ?thesis using mbox_invE [of api count maxi k q'] by (metis le_add2 length_ring)
qed

definition mbox_blank :: "('h, 'm) mbox" where
  "mbox_blank = \<lparr>mb_sem = None, q_mem = [], mb_head = 0, mb_tail = 0\<rparr>"

definition stats_blank :: stats_syselem where
  "stats_blank = \<lparr>se_used = 0, se_max = 0, se_err = 0\<rparr>"

theorem mbox_fifo_witness:
  "\<exists>q st q'. sys_mbox_new win32_pair 8 mbox_blank stats_blank = Some (ERR_OK, q, st) \<and>
     mbox_run win32_pair (q, 0) [Posted (Some (7 :: nat)), Waited, Taken (Some 7)] (q', 0) \<and> ring q' = []"
proof -
  obtain q :: "(nat \<times> nat, nat) mbox" and st where q: "sys_mbox_new win32_pair 8 mbox_blank stats_blank = Some (ERR_OK, q, st)"
    by (simp add: sys_mbox_new_def win32_pair_def sys_stats_inc_used_def stats_blank_def u16_def)
  have i: "mbox_inv win32_pair fst snd 0 q" "ring q = []" by (rule mbox_new_inv [OF win32_pair_ok q])+
  have "ring_size q = 0" using i(2) length_ring [of q] by simp
  then obtain q1 where q1: "sys_mbox_post win32_pair (Some 7) q = Some q1" "mbox_inv win32_pair fst snd 0 q1" "ring q1 = [Some 7]"
    using post_ok [OF i(1), of "Some 7"] i(2) by (auto simp: MAX_QUEUE_ENTRIES_def)
  moreover have "ring_size q1 = 1" using q1(3) length_ring [of q1] by simp
  ultimately obtain q2 where q2: "mbox_wait win32_pair 5 q1 = Some (True, q2)" "mbox_inv win32_pair fst snd (Suc 0) q2" "ring q2 = [Some 7]"
    using wait_ok [OF q1(2), of 5] by auto
  then obtain q' where q': "mbox_take q2 = (Some 7, q')" using take_ok [OF q2(2)] by auto
  have r: "mbox_run win32_pair (q, 0) [Posted (Some (7 :: nat)), Waited, Taken (Some 7)] (q', 0)"
    by (rule run_cons [OF post_step_ [OF q1(1)] run_cons [OF wait_step [OF q2(1)] run_cons [OF take_step [OF q'] run_nil]]])
  then show ?thesis using q mbox_fifo [OF win32_pair_ok q r] by auto
qed

text \<open>A mailbox takes 99 messages.  Beyond that \<open>sys_mbox_trypost\<close> reports \<open>ERR_MEM\<close> and changes nothing, but
  \<open>sys_mbox_post\<close> aborts the program, although its contract says that it blocks until there is
  room.\<close>

theorem mbox_full:
  assumes "mbox_inv api count maxi k q"
  shows "(length (ring q) < 99 \<longleftrightarrow> (\<exists>q'. sys_mbox_trypost api m q = Some (ERR_OK, q'))) \<and>
    (length (ring q) = 99 \<longleftrightarrow> sys_mbox_trypost api m q = Some (ERR_MEM, q)) \<and>
    (length (ring q) = 99 \<longleftrightarrow> sys_mbox_post api m q = None)"
  using post_ok [OF assms, of m] mbox_invE [OF assms] by (fastforce simp: MAX_QUEUE_ENTRIES_def split: if_splits)

theorem mbox_full_witness:
  "\<exists>q. mbox_inv win32_pair fst snd 0 q \<and> sys_mbox_post win32_pair (None :: nat option) q = None"
proof -
  let ?q = "\<lparr>mb_sem = Some (99, 100), q_mem = replicate 100 None, mb_head = 99, mb_tail = 0\<rparr> :: (nat \<times> nat, nat) mbox"
  have "mbox_inv win32_pair fst snd 0 ?q" using win32_pair_ok
    by (simp add: mbox_inv_def ring_ok_def ring_size_def MAX_QUEUE_ENTRIES_def)
  moreover have "length (ring ?q) = 99" by (simp add: ring_size_def)
  ultimately show ?thesis using mbox_full [of win32_pair fst snd 0 ?q None] by blast
qed

end
