(* ===== verification/Tcpip.thy ===== *)
theory Tcpip
  imports Timeouts Sys_Arch
begin

text \<open>
  Messages to the tcpip thread: \<open>src/lwip/src/api/tcpip.c\<close>.  A message is an element of the pool
  \<open>MEMP_TCPIP_MSG_API\<close> or \<open>MEMP_TCPIP_MSG_INPKT\<close>, and a pointer to it names the pool and the offset.  Input
  functions and callbacks are numbers; what they do is a parameter of the thread.  The
  configuration is \<open>LWIP_TCPIP_CORE_LOCKING\<close>, in which API calls run in the calling thread.
\<close>

section \<open>State and operations\<close>

datatype tcpip_msg =
    TCPIP_MSG_INPKT nat nat nat
  | TCPIP_MSG_TIMEOUT u32_t "sys_timeout_handler option" nat
  | TCPIP_MSG_UNTIMEOUT "sys_timeout_handler option" nat
  | TCPIP_MSG_CALLBACK nat nat
  | TCPIP_MSG_CALLBACK_STATIC nat nat

type_synonym msg_ptr = "memp_t \<times> nat"

record 'h tcpip = timeouts +
  tcpip_mbox :: "('h, msg_ptr) mbox"
  tcpip_msgs :: "msg_ptr \<Rightarrow> tcpip_msg"

definition set_msg :: "msg_ptr \<Rightarrow> tcpip_msg \<Rightarrow> ('h, 'z) tcpip_scheme \<Rightarrow> ('h, 'z) tcpip_scheme" where
  "set_msg p m s = s\<lparr>tcpip_msgs := (tcpip_msgs s)(p := m)\<rparr>"

definition msg_alloc :: "memp_t \<Rightarrow> ('h, 'z) tcpip_scheme \<Rightarrow> (nat option \<times> ('h, 'z) tcpip_scheme) option" where
  "msg_alloc t s = do {
     (m, ps) \<leftarrow> memp_malloc t (tm_pools s);
     Some (m, s\<lparr>tm_pools := ps\<rparr>) }"

definition msg_free :: "memp_t \<Rightarrow> nat \<Rightarrow> ('h, 'z) tcpip_scheme \<Rightarrow> ('h, 'z) tcpip_scheme option" where
  "msg_free t m s = do {
     ps \<leftarrow> memp_free t (Some m) (tm_pools s);
     Some (s\<lparr>tm_pools := ps\<rparr>) }"

definition mbox_trypost :: "'h win32 \<Rightarrow> msg_ptr \<Rightarrow> ('h, 'z) tcpip_scheme \<Rightarrow> (err_t \<times> ('h, 'z) tcpip_scheme) option" where
  "mbox_trypost api m s = do {
     (e, q) \<leftarrow> sys_mbox_trypost api (Some m) (tcpip_mbox s);
     Some (e, s\<lparr>tcpip_mbox := q\<rparr>) }"

definition mbox_post :: "'h win32 \<Rightarrow> msg_ptr \<Rightarrow> ('h, 'z) tcpip_scheme \<Rightarrow> ('h, 'z) tcpip_scheme option" where
  "mbox_post api m s = do {
     q \<leftarrow> sys_mbox_post api (Some m) (tcpip_mbox s);
     Some (s\<lparr>tcpip_mbox := q\<rparr>) }"

definition tcpip_inpkt :: "'h win32 \<Rightarrow> nat \<Rightarrow> nat \<Rightarrow> nat \<Rightarrow> ('h, 'z) tcpip_scheme \<Rightarrow> (err_t \<times> ('h, 'z) tcpip_scheme) option" where
  "tcpip_inpkt api p inp input_fn s = do {
     lwip_assert (mb_sem (tcpip_mbox s) \<noteq> None);
     (m, s) \<leftarrow> msg_alloc MEMP_TCPIP_MSG_INPKT s;
     case m of
       None \<Rightarrow> Some (ERR_MEM, s)
     | Some msg \<Rightarrow> do {
         let s = set_msg (MEMP_TCPIP_MSG_INPKT, msg) (TCPIP_MSG_INPKT p inp input_fn) s;
         (e, s) \<leftarrow> mbox_trypost api (MEMP_TCPIP_MSG_INPKT, msg) s;
         if e \<noteq> ERR_OK then do {
           s \<leftarrow> msg_free MEMP_TCPIP_MSG_INPKT msg s;
           Some (ERR_MEM, s) }
         else Some (ERR_OK, s) } }"

text \<open>\<open>ethernet_input\<close> and \<open>ip_input\<close> are the two input functions; \<open>eth\<close> tells whether the interface has one
  of the flags \<open>NETIF_FLAG_ETHARP\<close> and \<open>NETIF_FLAG_ETHERNET\<close>.\<close>

definition ethernet_input_fn :: nat where "ethernet_input_fn = 0"
definition ip_input_fn :: nat where "ip_input_fn = 1"

definition tcpip_input :: "'h win32 \<Rightarrow> nat \<Rightarrow> nat \<Rightarrow> bool \<Rightarrow> ('h, 'z) tcpip_scheme \<Rightarrow> (err_t \<times> ('h, 'z) tcpip_scheme) option" where
  "tcpip_input api p inp eth s =
     (if eth then tcpip_inpkt api p inp ethernet_input_fn s else tcpip_inpkt api p inp ip_input_fn s)"

definition tcpip_callback_with_block :: "'h win32 \<Rightarrow> nat \<Rightarrow> nat \<Rightarrow> bool \<Rightarrow> ('h, 'z) tcpip_scheme \<Rightarrow> (err_t \<times> ('h, 'z) tcpip_scheme) option" where
  "tcpip_callback_with_block api function ctx block s = do {
     lwip_assert (mb_sem (tcpip_mbox s) \<noteq> None);
     (m, s) \<leftarrow> msg_alloc MEMP_TCPIP_MSG_API s;
     case m of
       None \<Rightarrow> Some (ERR_MEM, s)
     | Some msg \<Rightarrow>
         let s = set_msg (MEMP_TCPIP_MSG_API, msg) (TCPIP_MSG_CALLBACK function ctx) s in
         if block then do {
           s \<leftarrow> mbox_post api (MEMP_TCPIP_MSG_API, msg) s;
           Some (ERR_OK, s) }
         else do {
           (e, s) \<leftarrow> mbox_trypost api (MEMP_TCPIP_MSG_API, msg) s;
           if e \<noteq> ERR_OK then do {
             s \<leftarrow> msg_free MEMP_TCPIP_MSG_API msg s;
             Some (ERR_MEM, s) }
           else Some (ERR_OK, s) } }"

text \<open>The common shape of \<open>tcpip_timeout\<close> and \<open>tcpip_untimeout\<close>, which post and do not fail on a full
  mailbox.\<close>

definition tcpip_post_msg :: "'h win32 \<Rightarrow> tcpip_msg \<Rightarrow> ('h, 'z) tcpip_scheme \<Rightarrow> (err_t \<times> ('h, 'z) tcpip_scheme) option" where
  "tcpip_post_msg api content s = do {
     lwip_assert (mb_sem (tcpip_mbox s) \<noteq> None);
     (m, s) \<leftarrow> msg_alloc MEMP_TCPIP_MSG_API s;
     case m of
       None \<Rightarrow> Some (ERR_MEM, s)
     | Some msg \<Rightarrow> do {
         let s = set_msg (MEMP_TCPIP_MSG_API, msg) content s;
         s \<leftarrow> mbox_post api (MEMP_TCPIP_MSG_API, msg) s;
         Some (ERR_OK, s) } }"

definition tcpip_timeout :: "'h win32 \<Rightarrow> u32_t \<Rightarrow> sys_timeout_handler option \<Rightarrow> nat \<Rightarrow> ('h, 'z) tcpip_scheme \<Rightarrow> (err_t \<times> ('h, 'z) tcpip_scheme) option" where
  "tcpip_timeout api msecs h arg s = tcpip_post_msg api (TCPIP_MSG_TIMEOUT msecs h arg) s"

definition tcpip_untimeout :: "'h win32 \<Rightarrow> sys_timeout_handler option \<Rightarrow> nat \<Rightarrow> ('h, 'z) tcpip_scheme \<Rightarrow> (err_t \<times> ('h, 'z) tcpip_scheme) option" where
  "tcpip_untimeout api h arg s = tcpip_post_msg api (TCPIP_MSG_UNTIMEOUT h arg) s"

definition tcpip_callbackmsg_new :: "nat \<Rightarrow> nat \<Rightarrow> ('h, 'z) tcpip_scheme \<Rightarrow> (msg_ptr option \<times> ('h, 'z) tcpip_scheme) option" where
  "tcpip_callbackmsg_new function ctx s = do {
     (m, s) \<leftarrow> msg_alloc MEMP_TCPIP_MSG_API s;
     case m of
       None \<Rightarrow> Some (None, s)
     | Some msg \<Rightarrow>
         Some (Some (MEMP_TCPIP_MSG_API, msg), set_msg (MEMP_TCPIP_MSG_API, msg) (TCPIP_MSG_CALLBACK_STATIC function ctx) s) }"

definition tcpip_callbackmsg_delete :: "nat \<Rightarrow> ('h, 'z) tcpip_scheme \<Rightarrow> ('h, 'z) tcpip_scheme option" where
  "tcpip_callbackmsg_delete msg s = msg_free MEMP_TCPIP_MSG_API msg s"

definition tcpip_trycallback :: "'h win32 \<Rightarrow> msg_ptr \<Rightarrow> ('h, 'z) tcpip_scheme \<Rightarrow> (err_t \<times> ('h, 'z) tcpip_scheme) option" where
  "tcpip_trycallback api msg s = do {
     lwip_assert (mb_sem (tcpip_mbox s) \<noteq> None);
     mbox_trypost api msg s }"

text \<open>\<open>mem_free\<close> and \<open>pbuf_free_int\<close> as callbacks.\<close>

definition mem_free_fn :: nat where "mem_free_fn = 0"
definition pbuf_free_int_fn :: nat where "pbuf_free_int_fn = 1"

definition pbuf_free_callback :: "'h win32 \<Rightarrow> nat \<Rightarrow> ('h, 'z) tcpip_scheme \<Rightarrow> (err_t \<times> ('h, 'z) tcpip_scheme) option" where
  "pbuf_free_callback api p s = tcpip_callback_with_block api pbuf_free_int_fn p False s"

definition mem_free_callback :: "'h win32 \<Rightarrow> nat \<Rightarrow> ('h, 'z) tcpip_scheme \<Rightarrow> (err_t \<times> ('h, 'z) tcpip_scheme) option" where
  "mem_free_callback api m s = tcpip_callback_with_block api mem_free_fn m False s"

text \<open>One round of \<open>tcpip_thread\<close> on the message it has fetched; \<open>input\<close> and \<open>call\<close> are the effects of input
  functions and callbacks.\<close>

definition tcpip_thread_round ::
    "(nat \<Rightarrow> nat \<Rightarrow> nat \<Rightarrow> ('h, 'z) tcpip_scheme \<Rightarrow> ('h, 'z) tcpip_scheme option) \<Rightarrow>
     (nat \<Rightarrow> nat \<Rightarrow> ('h, 'z) tcpip_scheme \<Rightarrow> ('h, 'z) tcpip_scheme option) \<Rightarrow>
     msg_ptr option \<Rightarrow> ('h, 'z) tcpip_scheme \<Rightarrow> ('h, 'z) tcpip_scheme option" where
  "tcpip_thread_round input call m s =
     (case m of
        None \<Rightarrow> do { lwip_assert False; Some s }
      | Some msg \<Rightarrow>
          (case tcpip_msgs s msg of
             TCPIP_MSG_INPKT p inp input_fn \<Rightarrow> do {
               s \<leftarrow> input input_fn p inp s;
               msg_free MEMP_TCPIP_MSG_INPKT (snd msg) s }
           | TCPIP_MSG_TIMEOUT msecs h arg \<Rightarrow> do {
               s \<leftarrow> sys_timeout msecs h arg s;
               msg_free MEMP_TCPIP_MSG_API (snd msg) s }
           | TCPIP_MSG_UNTIMEOUT h arg \<Rightarrow> do {
               s \<leftarrow> sys_untimeout h arg s;
               msg_free MEMP_TCPIP_MSG_API (snd msg) s }
           | TCPIP_MSG_CALLBACK function ctx \<Rightarrow> do {
               s \<leftarrow> call function ctx s;
               msg_free MEMP_TCPIP_MSG_API (snd msg) s }
           | TCPIP_MSG_CALLBACK_STATIC function ctx \<Rightarrow> call function ctx s))"

text \<open>Fetching a message while the timers run (\<open>TCPIP_MBOX_FETCH\<close>), and one round on it; \<open>elapsed\<close> is the time the
  wait took and \<open>timer\<close> the effect of the timer callbacks.\<close>

definition fetch_msg :: "'h win32 \<Rightarrow> u32_t \<Rightarrow> u32_t \<Rightarrow> ('h, 'z) tcpip_scheme \<Rightarrow> (msg_ptr option option \<times> ('h, 'z) tcpip_scheme) option" where
  "fetch_msg api elapsed ms s = do {
     (t, m, q) \<leftarrow> sys_arch_mbox_fetch api elapsed (tcpip_mbox s) ms;
     Some (if t = SYS_ARCH_TIMEOUT then None else Some m, s\<lparr>tcpip_mbox := q\<rparr>) }"

definition tcpip_thread_serve where
  "tcpip_thread_serve api elapsed timer input call s = do {
     (m, s) \<leftarrow> sys_timeouts_mbox_fetch timer (fetch_msg api elapsed) s;
     tcpip_thread_round input call (the m) s }"

section \<open>Messages in flight\<close>

text \<open>The pool a message comes from.\<close>

fun msg_pool :: "tcpip_msg \<Rightarrow> memp_t" where
  "msg_pool (TCPIP_MSG_INPKT p inp f) = MEMP_TCPIP_MSG_INPKT"
| "msg_pool _ = MEMP_TCPIP_MSG_API"

definition static_msg :: "tcpip_msg \<Rightarrow> bool" where
  "static_msg m \<longleftrightarrow> (\<exists>f c. m = TCPIP_MSG_CALLBACK_STATIC f c)"

definition msg_live :: "(memp_t \<Rightarrow> nat) \<Rightarrow> ('h, 'z) tcpip_scheme \<Rightarrow> msg_ptr set" where
  "msg_live szof s = {(t, m). (t = MEMP_TCPIP_MSG_API \<or> t = MEMP_TCPIP_MSG_INPKT) \<and> m \<in> memp_live szof (tm_pools s) t}"

text \<open>The queued messages are live and of the right pool, those that the thread frees are queued once,
  and every live message that is not static is queued: none is lost.\<close>

definition queued :: "('h, 'z) tcpip_scheme \<Rightarrow> msg_ptr list" where
  "queued s = map the (ring (tcpip_mbox s))"

definition msgs_ok :: "msg_ptr set \<Rightarrow> (msg_ptr \<Rightarrow> tcpip_msg) \<Rightarrow> msg_ptr list \<Rightarrow> bool" where
  "msgs_ok live msgs qs \<longleftrightarrow> set qs \<subseteq> live \<and> (\<forall>p\<in>live. fst p = msg_pool (msgs p) \<and> (\<not> static_msg (msgs p) \<longrightarrow> p \<in> set qs)) \<and>
     distinct (filter (\<lambda>p. \<not> static_msg (msgs p)) qs)"

definition tcpip_inv :: "(memp_t \<Rightarrow> nat) \<Rightarrow> 'h win32 \<Rightarrow> ('h \<Rightarrow> nat) \<Rightarrow> ('h \<Rightarrow> nat) \<Rightarrow> ('h, 'z) tcpip_scheme \<Rightarrow> bool" where
  "tcpip_inv szof api count maxi s \<longleftrightarrow> memps_inv szof (tm_pools s) \<and> mbox_inv api count maxi 0 (tcpip_mbox s) \<and>
     None \<notin> set (ring (tcpip_mbox s)) \<and> msgs_ok (msg_live szof s) (tcpip_msgs s) (queued s)"

lemma msgs_ok_cong:
  assumes "\<And>p. p \<in> live \<Longrightarrow> msgs' p = msgs p" "msgs_ok live msgs qs"
  shows "msgs_ok live msgs' qs"
proof -
  have "filter (\<lambda>p. \<not> static_msg (msgs' p)) qs = filter (\<lambda>p. \<not> static_msg (msgs p)) qs"
    using assms by (intro filter_cong) (auto simp: msgs_ok_def)
  then show ?thesis using assms by (simp add: msgs_ok_def)
qed

lemma msgs_ok_add:
  assumes "msgs_ok live msgs qs" "p \<notin> live" "fst p = msg_pool c" "\<not> static_msg c"
  shows "msgs_ok (insert p live) (msgs(p := c)) (qs @ [p])"
proof -
  have "p \<notin> set qs" using assms(1,2) by (auto simp: msgs_ok_def)
  moreover have "filter (\<lambda>q. \<not> static_msg ((msgs(p := c)) q)) qs = filter (\<lambda>q. \<not> static_msg (msgs q)) qs"
    using calculation by (intro filter_cong) auto
  ultimately show ?thesis using assms by (auto simp: msgs_ok_def)
qed

lemma msg_live_simps [simp]:
  "msg_live szof (s\<lparr>tcpip_mbox := q\<rparr>) = msg_live szof s" "msg_live szof (set_msg p c s) = msg_live szof s"
  "tm_pools (set_msg p c s) = tm_pools s" "tcpip_mbox (set_msg p c s) = tcpip_mbox s" "queued (set_msg p c s) = queued s"
  "tcpip_msgs (set_msg p c s) = (tcpip_msgs s)(p := c)"
  by (simp_all add: msg_live_def set_msg_def queued_def)

lemma msg_alloc_ok:
  assumes "memps_inv szof (tm_pools s)" "t = MEMP_TCPIP_MSG_API \<or> t = MEMP_TCPIP_MSG_INPKT"
  shows "\<exists>r ps. msg_alloc t s = Some (r, s\<lparr>tm_pools := ps\<rparr>) \<and> memps_inv szof ps \<and>
    (case r of
       None \<Rightarrow> card (memp_live szof (tm_pools s) t) = memp_num t \<and> msg_live szof (s\<lparr>tm_pools := ps\<rparr>) = msg_live szof s
     | Some m \<Rightarrow> (t, m) \<notin> msg_live szof s \<and> msg_live szof (s\<lparr>tm_pools := ps\<rparr>) = insert (t, m) (msg_live szof s))"
proof -
  obtain r ps where r: "memp_malloc t (tm_pools s) = Some (r, ps)" "memps_inv szof ps" "\<forall>t'. t' \<noteq> t \<longrightarrow> ps t' = tm_pools s t'"
    "case r of
       None \<Rightarrow> card (memp_live szof (tm_pools s) t) = memp_num t \<and> memp_live szof ps t = memp_live szof (tm_pools s) t
     | Some m \<Rightarrow> m \<in> elems (memp_pools szof t) \<and> m \<notin> memp_live szof (tm_pools s) t \<and>
         memp_live szof ps t = insert m (memp_live szof (tm_pools s) t)"
    using memp_malloc_spec [OF assms(1), of t] by blast
  have o: "memp_live szof ps t' = memp_live szof (tm_pools s) t'" if "t' \<noteq> t" for t'
    using r(3) that by (simp add: memp_live_def)
  show ?thesis
  proof (cases r)
    case None
    then have "memp_live szof ps t' = memp_live szof (tm_pools s) t'" for t' using o [of t'] r(4) by (cases "t' = t") auto
    then show ?thesis using r None by (auto simp: msg_alloc_def msg_live_def intro!: exI [of _ ps])
  next
    case (Some m)
    then have "memp_live szof ps t' = (if t' = t then insert m (memp_live szof (tm_pools s) t) else memp_live szof (tm_pools s) t')" for t'
      using o [of t'] r(4) by auto
    then have "msg_live szof (s\<lparr>tm_pools := ps\<rparr>) = insert (t, m) (msg_live szof s)"
      using assms(2) by (auto simp: msg_live_def)
    then show ?thesis using r Some by (auto simp: msg_alloc_def msg_live_def)
  qed
qed

lemma msg_free_ok:
  assumes "memps_inv szof (tm_pools s)" "(t, m) \<in> msg_live szof s"
  shows "\<exists>ps. msg_free t m s = Some (s\<lparr>tm_pools := ps\<rparr>) \<and> memps_inv szof ps \<and>
    msg_live szof (s\<lparr>tm_pools := ps\<rparr>) = msg_live szof s - {(t, m)}"
proof -
  have "m \<in> memp_live szof (tm_pools s) t" using assms(2) by (simp add: msg_live_def)
  then obtain ps where p: "memp_free t (Some m) (tm_pools s) = Some ps" "memps_inv szof ps" "\<forall>t'. t' \<noteq> t \<longrightarrow> ps t' = tm_pools s t'"
    "memp_live szof ps t = memp_live szof (tm_pools s) t - {m}"
    using memp_free_spec [OF assms(1)] by blast
  then have "memp_live szof ps t' = (if t' = t then memp_live szof (tm_pools s) t - {m} else memp_live szof (tm_pools s) t')" for t'
    by (auto simp: memp_live_def)
  then have "msg_live szof (s\<lparr>tm_pools := ps\<rparr>) = msg_live szof s - {(t, m)}"
    using assms(2) by (auto simp: msg_live_def)
  then show ?thesis using p by (auto simp: msg_free_def)
qed

lemma set_msg_mbox: "tcpip_mbox s = q \<Longrightarrow> (set_msg p c s)\<lparr>tcpip_mbox := q\<rparr> = set_msg p c s"
  by (auto simp: set_msg_def)

text \<open>Allocating a message, filling it in and trying to post it, as \<open>tcpip_inpkt\<close> and
  \<open>tcpip_callback_with_block\<close> do.\<close>

definition try_send :: "'h win32 \<Rightarrow> tcpip_msg \<Rightarrow> ('h, 'z) tcpip_scheme \<Rightarrow> (err_t \<times> ('h, 'z) tcpip_scheme) option" where
  "try_send api c s = do {
     lwip_assert (mb_sem (tcpip_mbox s) \<noteq> None);
     (m, s) \<leftarrow> msg_alloc (msg_pool c) s;
     case m of
       None \<Rightarrow> Some (ERR_MEM, s)
     | Some msg \<Rightarrow> do {
         let s = set_msg (msg_pool c, msg) c s;
         (e, s) \<leftarrow> mbox_trypost api (msg_pool c, msg) s;
         if e \<noteq> ERR_OK then do {
           s \<leftarrow> msg_free (msg_pool c) msg s;
           Some (ERR_MEM, s) }
         else Some (ERR_OK, s) } }"

lemma try_send_eqs:
  "tcpip_inpkt api p inp f s = try_send api (TCPIP_MSG_INPKT p inp f) s"
  "tcpip_callback_with_block api f ctx False s = try_send api (TCPIP_MSG_CALLBACK f ctx) s"
  unfolding tcpip_inpkt_def tcpip_callback_with_block_def try_send_def Let_def msg_pool.simps if_False by (rule refl)+

lemma try_send_timers: "try_send api c s = Some (e, s') \<Longrightarrow> next_timeout s' = next_timeout s"
  by (auto simp: try_send_def msg_alloc_def mbox_trypost_def msg_free_def set_msg_def bind_eq_Some_conv split: option.splits if_splits)

definition sent :: "(memp_t \<Rightarrow> nat) \<Rightarrow> tcpip_msg \<Rightarrow> ('h, 'z) tcpip_scheme \<Rightarrow> err_t \<Rightarrow> ('h, 'z) tcpip_scheme \<Rightarrow> bool" where
  "sent szof c s e s' \<longleftrightarrow> (\<forall>q\<in>set (queued s). tcpip_msgs s' q = tcpip_msgs s q) \<and>
     (if card (memp_live szof (tm_pools s) (msg_pool c)) < memp_num (msg_pool c) \<and> length (queued s) < 99
      then e = ERR_OK \<and> (\<exists>m. queued s' = queued s @ [(msg_pool c, m)] \<and> tcpip_msgs s' (msg_pool c, m) = c)
      else e = ERR_MEM \<and> queued s' = queued s \<and> msg_live szof s' = msg_live szof s)"

lemma try_send_ok:
  assumes inv: "tcpip_inv szof api count maxi s" and c: "\<not> static_msg c"
  shows "\<exists>e s'. try_send api c s = Some (e, s') \<and> tcpip_inv szof api count maxi s' \<and> sent szof c s e s'"
proof -
  let ?t = "msg_pool c"
  have t: "?t = MEMP_TCPIP_MSG_API \<or> ?t = MEMP_TCPIP_MSG_INPKT" by (cases c) auto
  have I: "memps_inv szof (tm_pools s)" "mbox_inv api count maxi 0 (tcpip_mbox s)" "None \<notin> set (ring (tcpip_mbox s))"
    "msgs_ok (msg_live szof s) (tcpip_msgs s) (queued s)" using inv by (auto simp: tcpip_inv_def)
  have sem: "mb_sem (tcpip_mbox s) \<noteq> None" using mbox_invE [OF I(2)] by (metis option.distinct(1))
  obtain r ps where a: "msg_alloc ?t s = Some (r, s\<lparr>tm_pools := ps\<rparr>)" "memps_inv szof ps"
    "case r of
       None \<Rightarrow> card (memp_live szof (tm_pools s) ?t) = memp_num ?t \<and> msg_live szof (s\<lparr>tm_pools := ps\<rparr>) = msg_live szof s
     | Some m \<Rightarrow> (?t, m) \<notin> msg_live szof s \<and> msg_live szof (s\<lparr>tm_pools := ps\<rparr>) = insert (?t, m) (msg_live szof s)"
    using msg_alloc_ok [OF I(1) t] by blast
  show ?thesis
  proof (cases r)
    case None
    then show ?thesis using a sem I by (auto simp: try_send_def tcpip_inv_def sent_def queued_def)
  next
    case (Some m)
    let ?p = "(?t, m)"
    let ?s1 = "set_msg ?p c (s\<lparr>tm_pools := ps\<rparr>)"
    have new: "?p \<notin> msg_live szof s" "msg_live szof ?s1 = insert ?p (msg_live szof s)" using a(3) Some by auto
    have nq: "?p \<notin> set (queued s)" using new(1) I(4) by (auto simp: msgs_ok_def)
    have q1: "queued ?s1 = queued s" by (simp add: queued_def)
    have len: "length (queued s) = ring_size (tcpip_mbox s)" by (simp add: queued_def)
    have free: "card (memp_live szof (tm_pools s) ?t) < memp_num ?t"
    proof (rule ccontr)
      assume "\<not> ?thesis"
      then have "card (memp_live szof (tm_pools s) ?t) = memp_num ?t" using memp.live_cap [OF I(1), of ?t] by simp
      from memp.alloc_fails [OF I(1) this] show False using a(1) Some by (auto simp: msg_alloc_def)
    qed
    show ?thesis
    proof (cases "ring_size (tcpip_mbox s) + 1 < MAX_QUEUE_ENTRIES")
      case True
      then obtain q where q: "sys_mbox_trypost api (Some ?p) (tcpip_mbox s) = Some (ERR_OK, q)" "mbox_inv api count maxi 0 q"
        "ring q = ring (tcpip_mbox s) @ [Some ?p]"
        using post_ok [OF I(2), of "Some ?p"] by auto
      let ?s2 = "?s1\<lparr>tcpip_mbox := q\<rparr>"
      have "try_send api c s = Some (ERR_OK, ?s2)" using a(1) sem Some q(1) by (simp add: try_send_def mbox_trypost_def)
      moreover have "queued ?s2 = queued s @ [?p]" using q(3) by (simp add: queued_def)
      moreover have "msgs_ok (msg_live szof ?s2) (tcpip_msgs ?s2) (queued s @ [?p])"
        using msgs_ok_add [OF I(4) new(1), of c] c new(2) by (simp add: set_msg_def)
      ultimately show ?thesis using a(2) q I(3) nq free True len
        by (auto simp: tcpip_inv_def sent_def set_msg_def MAX_QUEUE_ENTRIES_def)
    next
      case False
      then have q: "sys_mbox_trypost api (Some ?p) (tcpip_mbox s) = Some (ERR_MEM, tcpip_mbox s)"
        using post_ok [OF I(2), of "Some ?p"] by auto
      obtain ps' where f: "msg_free ?t m ?s1 = Some (?s1\<lparr>tm_pools := ps'\<rparr>)" "memps_inv szof ps'"
        "msg_live szof (?s1\<lparr>tm_pools := ps'\<rparr>) = msg_live szof s"
        using msg_free_ok [of szof ?s1 ?t m] a(2) new by auto
      let ?s2 = "?s1\<lparr>tm_pools := ps'\<rparr>"
      have "try_send api c s = Some (ERR_MEM, ?s2)" using a(1) sem Some q f(1)
        by (simp add: try_send_def mbox_trypost_def set_msg_mbox)
      moreover have "queued ?s2 = queued s" "ring (tcpip_mbox ?s2) = ring (tcpip_mbox s)" by (simp_all add: queued_def set_msg_def)
      moreover have "msgs_ok (msg_live szof ?s2) (tcpip_msgs ?s2) (queued s)"
        unfolding f(3) by (rule msgs_ok_cong [OF _ I(4)]) (use new(1) in \<open>auto simp: set_msg_def\<close>)
      moreover have "\<forall>p\<in>set (queued s). tcpip_msgs ?s2 p = tcpip_msgs s p" using nq by (auto simp: set_msg_def)
      ultimately show ?thesis using f I False len
        by (auto simp: tcpip_inv_def sent_def MAX_QUEUE_ENTRIES_def set_msg_def)
    qed
  qed
qed

section \<open>The thread\<close>

text \<open>While the thread works on a message that it will free, the message is live and not queued.\<close>

definition busy :: "(memp_t \<Rightarrow> nat) \<Rightarrow> 'h win32 \<Rightarrow> ('h \<Rightarrow> nat) \<Rightarrow> ('h \<Rightarrow> nat) \<Rightarrow> msg_ptr \<Rightarrow> ('h, 'z) tcpip_scheme \<Rightarrow> bool" where
  "busy szof api count maxi p s \<longleftrightarrow> memps_inv szof (tm_pools s) \<and> mbox_inv api count maxi 0 (tcpip_mbox s) \<and>
     None \<notin> set (ring (tcpip_mbox s)) \<and> p \<in> msg_live szof s \<and> msgs_ok (msg_live szof s - {p}) (tcpip_msgs s) (queued s)"

lemma busy_take:
  assumes "tcpip_inv szof api count maxi s" "mbox_inv api count maxi 0 q" "ring (tcpip_mbox s) = Some p # ring q"
    "\<not> static_msg (tcpip_msgs s p)"
  shows "busy szof api count maxi p (s\<lparr>tcpip_mbox := q\<rparr>)"
  using assms by (auto simp: tcpip_inv_def busy_def queued_def msgs_ok_def)

lemma busy_free:
  assumes "busy szof api count maxi (t, m) s"
  shows "\<exists>ps. msg_free t m s = Some (s\<lparr>tm_pools := ps\<rparr>) \<and> tcpip_inv szof api count maxi (s\<lparr>tm_pools := ps\<rparr>)"
proof -
  obtain ps where p: "msg_free t m s = Some (s\<lparr>tm_pools := ps\<rparr>)" "memps_inv szof ps"
      "msg_live szof (s\<lparr>tm_pools := ps\<rparr>) = msg_live szof s - {(t, m)}"
    using msg_free_ok [of szof s t m] assms by (auto simp: busy_def)
  have "tcpip_inv szof api count maxi (s\<lparr>tm_pools := ps\<rparr>)"
    using assms p(2) unfolding tcpip_inv_def p(3) by (simp add: busy_def queued_def)
  with p show ?thesis by blast
qed

definition handler_keeps where
  "handler_keeps szof api count maxi h \<longleftrightarrow>
     (\<forall>p s. busy szof api count maxi p s \<longrightarrow> (\<exists>s'. h s = Some s' \<and> busy szof api count maxi p s'))"

section \<open>Properties\<close>


definition tcpip_start :: "('h, msg_ptr) mbox \<Rightarrow> 'h tcpip" where
  "tcpip_start q = \<lparr>next_timeout = None, timeouts_last_time = 0,
     timeo = \<lambda>_. \<lparr>to_next = None, to_time = 0, to_h = None, to_arg = 0\<rparr>, tm_pools = memp_init szof_32 memps_zero,
     tcpip_tcp_timer_active = False, tcp_pcbs = False, clock = 0,
     tcpip_mbox = q, tcpip_msgs = \<lambda>_. TCPIP_MSG_CALLBACK 0 0\<rparr>"

lemma tcpip_start_inv:
  assumes "mbox_inv api count maxi 0 q" "ring q = []"
  shows "tcpip_inv szof_32 api count maxi (tcpip_start q)"
proof -
  have "memp_live szof_32 (memp_init szof_32 memps_zero) t = {}" for t
    by (rule memp_init_inv(2)) (simp_all add: szof_ok_def szof_32_def memps_zero_def)
  then have "msg_live szof_32 (tcpip_start q) = {}" by (simp add: msg_live_def tcpip_start_def)
  then show ?thesis using assms memps_zero_inv
    by (simp add: tcpip_inv_def msgs_ok_def queued_def) (simp add: tcpip_start_def)
qed

lemma fresh_mbox:
  obtains q :: "(nat \<times> nat, 'm) mbox" where "mbox_inv win32_pair fst snd 0 q" "ring q = []"
proof -
  obtain q :: "(nat \<times> nat, 'm) mbox" and st where q: "sys_mbox_new win32_pair 8 mbox_blank stats_blank = Some (ERR_OK, q, st)"
    by (simp add: sys_mbox_new_def win32_pair_def sys_stats_inc_used_def stats_blank_def u16_def)
  show ?thesis by (rule that [OF mbox_new_inv [OF win32_pair_ok q]])
qed




end
