(* ===== verification/Inet_Chksum.thy ===== *)
theory Inet_Chksum
  imports Ip4_Addr
begin

text \<open>
  The Internet checksum: \<open>src/lwip/src/core/inet_chksum.c\<close>.  The three versions of
  \<open>lwip_standard_chksum\<close> work on the bytes at an address, whose alignment selects the path
  taken.  A pbuf chain is the list of its pbufs' payload addresses and bytes.  The accumulators are
  natural numbers with the wrap at 32 bits written out.
\<close>

type_synonym segment = "nat \<times> u8_t list"

definition SWAP_BYTES_IN_WORD :: "nat \<Rightarrow> nat" where
  "SWAP_BYTES_IN_WORD w = push_bit 8 (w AND 0xff) OR drop_bit 8 (w AND 0xff00)"

definition FOLD_U32T :: "nat \<Rightarrow> nat" where
  "FOLD_U32T u = drop_bit 16 u + (u AND 0x0000ffff)"

text \<open>\<open>lwip_htons\<close> and complement on the accumulators.\<close>

definition htons :: "nat \<Rightarrow> nat" where
  "htons n = unat (lwip_htons (of_nat n))"

definition compl16 :: "nat \<Rightarrow> nat" where
  "compl16 n = unat (NOT (of_nat n :: u16_t))"

section \<open>The three versions of the sum\<close>

fun sum_octets :: "nat \<Rightarrow> u8_t list \<Rightarrow> nat" where
  "sum_octets acc (x # y # r) = sum_octets (u32 (acc + (push_bit 8 (unat x) OR unat y))) r"
| "sum_octets acc [x] = u32 (acc + push_bit 8 (unat x))"
| "sum_octets acc [] = acc"

definition lwip_standard_chksum_1 :: "nat \<Rightarrow> u8_t list \<Rightarrow> nat" where
  "lwip_standard_chksum_1 dataptr d =
     (let acc = sum_octets 0 d;
          acc = FOLD_U32T acc;
          acc = (if acc AND 0xffff0000 \<noteq> 0 then FOLD_U32T acc else acc)
      in htons (u16 acc))"

text \<open>16-bit loads, little-endian, while more than one byte is left; the remaining bytes are returned.\<close>

fun sum_words :: "nat \<Rightarrow> u8_t list \<Rightarrow> nat \<times> u8_t list" where
  "sum_words s (x # y # r) = sum_words (u32 (s + (unat x + 256 * unat y))) r"
| "sum_words s r = (s, r)"

text \<open>The leading byte of an odd address goes to the upper half of \<open>t\<close>, a byte left over at the end to the
  lower half.\<close>

definition take_odd :: "bool \<Rightarrow> u8_t list \<Rightarrow> nat \<times> u8_t list" where
  "take_odd od d = (if od \<and> d \<noteq> [] then (256 * unat (hd d), tl d) else (0, d))"

definition take_tail :: "nat \<Rightarrow> u8_t list \<Rightarrow> nat" where
  "take_tail t r = (if r \<noteq> [] then t div 256 * 256 + unat (hd r) else t)"

definition fold_swap :: "bool \<Rightarrow> nat \<Rightarrow> nat" where
  "fold_swap od s =
     (let s = FOLD_U32T s; s = FOLD_U32T s
      in u16 (if od then SWAP_BYTES_IN_WORD s else s))"

definition lwip_standard_chksum :: "nat \<Rightarrow> u8_t list \<Rightarrow> nat" where
  "lwip_standard_chksum dataptr d =
     (let od = (dataptr AND 1 \<noteq> 0);
          (t, d) = take_odd od d;
          (s, r) = sum_words 0 d;
          t = take_tail t r;
          s = u32 (s + t)
      in fold_swap od s)"

text \<open>One addition of version 3 with the carry added back.\<close>

definition add_carry :: "nat \<Rightarrow> nat \<Rightarrow> nat" where
  "add_carry s v = (let tmp = u32 (s + v) in if tmp < s then u32 (tmp + 1) else tmp)"

definition load32 :: "u8_t \<Rightarrow> u8_t \<Rightarrow> u8_t \<Rightarrow> u8_t \<Rightarrow> nat" where
  "load32 a b c d = unat a + 256 * unat b + 65536 * unat c + 16777216 * unat d"

fun sum_longs :: "nat \<Rightarrow> u8_t list \<Rightarrow> nat \<times> u8_t list" where
  "sum_longs s (a # b # c # d # e # f # g # h # r) =
     sum_longs (add_carry (add_carry s (load32 a b c d)) (load32 e f g h)) r"
| "sum_longs s r = (s, r)"

definition lwip_standard_chksum_3 :: "nat \<Rightarrow> u8_t list \<Rightarrow> nat" where
  "lwip_standard_chksum_3 dataptr d =
     (let od = (dataptr AND 1 \<noteq> 0);
          ps = (if od \<and> d \<noteq> [] then dataptr + 1 else dataptr);
          (t, d) = take_odd od d;
          (s, d) = (if ps AND 3 \<noteq> 0 \<and> 1 < length d then (u32 (unat (d ! 0) + 256 * unat (d ! 1)), drop 2 d) else (0, d));
          (s, d) = sum_longs s d;
          s = FOLD_U32T s;
          (s, r) = sum_words s d;
          t = take_tail t r;
          s = u32 (s + t)
      in fold_swap od s)"

section \<open>Checksums of buffers and chains\<close>

text \<open>The loop over the pbufs of a chain; it returns the accumulator and \<open>swapped\<close>.\<close>

fun chain_loop :: "segment list \<Rightarrow> nat \<Rightarrow> bool \<Rightarrow> nat \<times> bool" where
  "chain_loop [] acc swapped = (acc, swapped)"
| "chain_loop (q # qs) acc swapped =
     (let acc = u32 (acc + lwip_standard_chksum (fst q) (snd q));
          acc = FOLD_U32T acc
      in if length (snd q) mod 2 \<noteq> 0 then chain_loop qs (SWAP_BYTES_IN_WORD acc) (\<not> swapped)
         else chain_loop qs acc swapped)"

text \<open>The common end of the pseudo-header checksums.\<close>

definition pseudo_finish :: "nat \<times> bool \<Rightarrow> nat \<Rightarrow> nat \<Rightarrow> nat" where
  "pseudo_finish st proto proto_len =
     (let (acc, swapped) = st;
          acc = (if swapped then SWAP_BYTES_IN_WORD acc else acc);
          acc = u32 (acc + htons proto);
          acc = u32 (acc + htons proto_len);
          acc = FOLD_U32T acc;
          acc = FOLD_U32T acc
      in compl16 (acc AND 0xffff))"

definition inet_cksum_pseudo_base :: "segment list \<Rightarrow> nat \<Rightarrow> nat \<Rightarrow> nat \<Rightarrow> nat" where
  "inet_cksum_pseudo_base p proto proto_len acc = pseudo_finish (chain_loop p acc False) proto proto_len"

text \<open>The accumulator after the two halves of an address.\<close>

definition add_addr :: "nat \<Rightarrow> u32_t \<Rightarrow> nat" where
  "add_addr acc addr =
     (let acc = u32 (acc + (unat addr AND 0xffff))
      in u32 (acc + (drop_bit 16 (unat addr) AND 0xffff)))"

definition inet_chksum_pseudo :: "segment list \<Rightarrow> nat \<Rightarrow> nat \<Rightarrow> ip4_addr \<Rightarrow> ip4_addr \<Rightarrow> nat" where
  "inet_chksum_pseudo p proto proto_len src dest =
     (let acc = add_addr 0 src;
          acc = add_addr acc dest;
          acc = FOLD_U32T acc;
          acc = FOLD_U32T acc
      in inet_cksum_pseudo_base p proto proto_len acc)"

text \<open>The loop over the four words of two IPv6 addresses.\<close>

fun add_addrs :: "nat \<Rightarrow> (u32_t \<times> u32_t) list \<Rightarrow> nat" where
  "add_addrs acc [] = acc"
| "add_addrs acc ((s, d) # r) = add_addrs (add_addr (add_addr acc s) d) r"

definition ip6_chksum_pseudo :: "segment list \<Rightarrow> nat \<Rightarrow> nat \<Rightarrow> u32_t list \<Rightarrow> u32_t list \<Rightarrow> nat" where
  "ip6_chksum_pseudo p proto proto_len src dest =
     (let acc = add_addrs 0 (zip (take 4 src) (take 4 dest));
          acc = FOLD_U32T acc;
          acc = FOLD_U32T acc
      in inet_cksum_pseudo_base p proto proto_len acc)"

text \<open>\<open>LWIP_IPV6\<close> is 0, so that the generic name is the IPv4 function.\<close>

definition ip_chksum_pseudo :: "segment list \<Rightarrow> nat \<Rightarrow> nat \<Rightarrow> ip4_addr \<Rightarrow> ip4_addr \<Rightarrow> nat" where
  "ip_chksum_pseudo p proto proto_len src dest = inet_chksum_pseudo p proto proto_len src dest"

fun partial_loop :: "segment list \<Rightarrow> nat \<Rightarrow> nat \<Rightarrow> bool \<Rightarrow> (nat \<times> bool) option" where
  "partial_loop [] chksum_len acc swapped = Some (acc, swapped)"
| "partial_loop (q # qs) chksum_len acc swapped =
     (if chksum_len > 0 then
        let chklen = length (snd q);
            chklen = (if chklen > chksum_len then chksum_len else chklen);
            acc = u32 (acc + lwip_standard_chksum (fst q) (take chklen (snd q)));
            chksum_len = chksum_len - chklen
        in do {
          lwip_assert (chksum_len < 0x7fff);
          let acc = FOLD_U32T acc;
          if length (snd q) mod 2 \<noteq> 0 then partial_loop qs chksum_len (SWAP_BYTES_IN_WORD acc) (\<not> swapped)
          else partial_loop qs chksum_len acc swapped }
      else Some (acc, swapped))"

definition inet_cksum_pseudo_partial_base :: "segment list \<Rightarrow> nat \<Rightarrow> nat \<Rightarrow> nat \<Rightarrow> nat \<Rightarrow> nat option" where
  "inet_cksum_pseudo_partial_base p proto proto_len chksum_len acc =
     map_option (\<lambda>st. pseudo_finish st proto proto_len) (partial_loop p chksum_len acc False)"

definition inet_chksum_pseudo_partial ::
    "segment list \<Rightarrow> nat \<Rightarrow> nat \<Rightarrow> nat \<Rightarrow> ip4_addr \<Rightarrow> ip4_addr \<Rightarrow> nat option" where
  "inet_chksum_pseudo_partial p proto proto_len chksum_len src dest =
     (let acc = add_addr 0 src;
          acc = add_addr acc dest;
          acc = FOLD_U32T acc;
          acc = FOLD_U32T acc
      in inet_cksum_pseudo_partial_base p proto proto_len chksum_len acc)"

definition ip6_chksum_pseudo_partial ::
    "segment list \<Rightarrow> nat \<Rightarrow> nat \<Rightarrow> nat \<Rightarrow> u32_t list \<Rightarrow> u32_t list \<Rightarrow> nat option" where
  "ip6_chksum_pseudo_partial p proto proto_len chksum_len src dest =
     (let acc = add_addrs 0 (zip (take 4 src) (take 4 dest));
          acc = FOLD_U32T acc;
          acc = FOLD_U32T acc
      in inet_cksum_pseudo_partial_base p proto proto_len chksum_len acc)"

definition ip_chksum_pseudo_partial ::
    "segment list \<Rightarrow> nat \<Rightarrow> nat \<Rightarrow> nat \<Rightarrow> ip4_addr \<Rightarrow> ip4_addr \<Rightarrow> nat option" where
  "ip_chksum_pseudo_partial p proto proto_len chksum_len src dest =
     inet_chksum_pseudo_partial p proto proto_len chksum_len src dest"

definition inet_chksum :: "nat \<Rightarrow> u8_t list \<Rightarrow> nat" where
  "inet_chksum dataptr d = compl16 (lwip_standard_chksum dataptr d)"

definition inet_chksum_pbuf :: "segment list \<Rightarrow> nat" where
  "inet_chksum_pbuf p =
     (let (acc, swapped) = chain_loop p 0 False;
          acc = (if swapped then SWAP_BYTES_IN_WORD acc else acc)
      in compl16 (acc AND 0xffff))"

text \<open>The bytes left at \<open>dst\<close> and the checksum.\<close>

definition lwip_chksum_copy :: "nat \<Rightarrow> u8_t list \<Rightarrow> u8_t list \<times> nat" where
  "lwip_chksum_copy dst src_bytes = (src_bytes, lwip_standard_chksum dst src_bytes)"

section \<open>Ones' complement sums\<close>

text \<open>\<open>lsum hi d\<close> is the sum of the bytes as little-endian 16-bit words, the first byte in the upper half
  when \<open>hi\<close>.  \<open>csum v S\<close>: \<open>v\<close> represents \<open>S\<close> in ones' complement arithmetic, with zero kept
  apart from 65535.\<close>

fun lsum :: "bool \<Rightarrow> u8_t list \<Rightarrow> nat" where
  "lsum hi [] = 0"
| "lsum hi (x # xs) = (if hi then 256 else 1) * unat x + lsum (\<not> hi) xs"

definition csum :: "nat \<Rightarrow> nat \<Rightarrow> bool" where
  "csum v S \<longleftrightarrow> v mod 65535 = S mod 65535 \<and> (v = 0 \<longleftrightarrow> S = 0)"

definition canon :: "nat \<Rightarrow> nat" where
  "canon S = (if S = 0 then 0 else (S - 1) mod 65535 + 1)"

lemma csum_refl [simp]: "csum v v" and csum_sym: "csum v S \<Longrightarrow> csum S v"
  by (auto simp: csum_def)

lemma csum_trans [trans]: "csum a b \<Longrightarrow> csum b c \<Longrightarrow> csum a c"
  by (auto simp: csum_def)

lemma csum_add: "csum a b \<Longrightarrow> csum c d \<Longrightarrow> csum (a + c) (b + d)"
  by (auto simp: csum_def intro: mod_add_cong)

lemma csum_mult: "csum a b \<Longrightarrow> csum (256 * a) (256 * b)"
  unfolding csum_def using mod_mult_cong [of 256 65535 256 a b] by simp

lemma csum_canon: "csum (canon S) S"
proof (cases S)
  case (Suc n)
  have "(n mod 65535 + 1) mod 65535 = (n + 1) mod 65535" by (rule mod_add_left_eq)
  with Suc show ?thesis by (simp add: csum_def canon_def)
qed (simp add: canon_def)

lemma canon_le [simp]: "canon S \<le> 65535"
  using mod_less_divisor [of 65535 "S - 1"] by (simp add: canon_def less_Suc_eq_le [symmetric] del: mod_less_divisor)

lemma canon_unique:
  assumes "csum v S" "v \<le> 65535"
  shows "v = canon S"
proof -
  let ?c = "canon S"
  have c: "csum v ?c" using assms(1) csum_canon csum_sym csum_trans by blast
  have top: "n mod 65535 = (if n = 65535 then 0 else n)" if "n \<le> 65535" for n :: nat
    using that by simp
  show ?thesis
    using c top [OF assms(2)] top [OF canon_le [of S]] by (auto simp: csum_def split: if_splits)
qed

lemma canon_cong: "csum a b \<Longrightarrow> canon a = canon b"
  by (rule canon_unique) (auto intro: csum_trans csum_canon)

lemma and_ffff: "u AND 0xffff = u mod (65536 :: nat)"
  using take_bit_eq_mask [of 16 u] by (simp add: take_bit_eq_mod mask_eq_exp_minus_1)

lemma FOLD_eq: "FOLD_U32T u = u div 65536 + u mod 65536"
  by (simp add: FOLD_U32T_def and_ffff drop_bit_eq_div)

lemma csum_FOLD: "csum (FOLD_U32T u) u"
proof -
  have "u = u div 65536 * 65535 + FOLD_U32T u" by (simp add: FOLD_eq)
  then have "u mod 65535 = FOLD_U32T u mod 65535" by (metis mod_mult_self3)
  moreover have "FOLD_U32T u = 0 \<longleftrightarrow> u = 0" by (auto simp: FOLD_eq)
  ultimately show ?thesis by (simp add: csum_def)
qed

lemma FOLD_bounds:
  "u < 2 ^ 32 \<Longrightarrow> FOLD_U32T u \<le> 131070" "u \<le> 131070 \<Longrightarrow> FOLD_U32T u \<le> 65535"
proof -
  assume "u < 2 ^ 32"
  then have "u div 65536 < 65536" by (simp add: less_mult_imp_div_less)
  then show "FOLD_U32T u \<le> 131070" unfolding FOLD_eq by (simp add: less_Suc_eq_le [symmetric])
next
  assume u: "u \<le> 131070"
  then consider "u < 65536" | "65536 \<le> u" "u - 65536 \<le> 65534" by linarith
  then show "FOLD_U32T u \<le> 65535"
  proof cases
    case 2
    then have "u div 65536 = 1" "u mod 65536 = u - 65536" by (simp_all add: le_div_geq le_mod_geq)
    with 2 show ?thesis by (simp add: FOLD_eq)
  qed (simp add: FOLD_eq)
qed

lemma fold_twice: "u < 2 ^ 32 \<Longrightarrow> FOLD_U32T (FOLD_U32T u) = canon u"
  by (intro canon_unique csum_trans [OF csum_FOLD csum_FOLD] FOLD_bounds)

lemma or_eq_add: "b < 256 \<Longrightarrow> push_bit 8 a OR b = 256 * a + (b :: nat)"
proof -
  assume "b < 256"
  then have "b = take_bit 8 b" by (simp add: take_bit_eq_mod)
  then have "push_bit 8 a AND b = 0"
    by (metis bit_and_iff bit_eqI bit_push_bit_iff bit_take_bit_iff bit_0_eq bot_apply bot_bool_def not_le)
  then have "push_bit 8 a OR b = push_bit 8 a + b" by (simp add: disjunctive_add_eq_or)
  then show ?thesis by (simp add: push_bit_eq_mult)
qed

lemma swap_eq: "w \<le> 65535 \<Longrightarrow> SWAP_BYTES_IN_WORD w = 256 * (w mod 256) + w div 256"
proof -
  assume w: "w \<le> 65535"
  have "w AND 0xff = w mod 256" using take_bit_eq_mask [of 8 w] by (simp add: take_bit_eq_mod mask_eq_exp_minus_1)
  moreover have "drop_bit 8 (w AND 0xff00) = w div 256"
  proof -
    have "drop_bit 8 (0xff00 :: nat) = mask 8" by (simp add: drop_bit_eq_div mask_eq_exp_minus_1)
    then have "drop_bit 8 (w AND 0xff00) = take_bit 8 (drop_bit 8 w)" by (simp add: drop_bit_and take_bit_eq_mask)
    with w show ?thesis by (simp add: drop_bit_eq_div take_bit_eq_mod)
  qed
  ultimately show ?thesis using w or_eq_add [of "w div 256" "w mod 256"] by (simp add: SWAP_BYTES_IN_WORD_def)
qed

lemma csum_swap: "w \<le> 65535 \<Longrightarrow> csum (SWAP_BYTES_IN_WORD w) (256 * w) \<and> SWAP_BYTES_IN_WORD w \<le> 65535"
proof -
  assume w: "w \<le> 65535"
  have "256 * w = 65535 * (w div 256) + SWAP_BYTES_IN_WORD w"
    unfolding swap_eq [OF w] by (subst div_mult_mod_eq [of w 256, symmetric]) (simp only: algebra_simps)
  then have "256 * w mod 65535 = SWAP_BYTES_IN_WORD w mod 65535" by (metis mod_mult_self4 add.commute mult.commute)
  moreover have "SWAP_BYTES_IN_WORD w = 0 \<longleftrightarrow> w = 0"
    unfolding swap_eq [OF w] by auto
  moreover have "SWAP_BYTES_IN_WORD w \<le> 65535"
  proof -
    have "w mod 256 < 256" by (rule mod_less_divisor) simp
    moreover have "w div 256 \<le> 255" using w by (simp add: less_Suc_eq_le [symmetric] less_mult_imp_div_less)
    ultimately show ?thesis unfolding swap_eq [OF w] by linarith
  qed
  ultimately show ?thesis by (simp add: csum_def)
qed

lemma csum_256_256: "csum (256 * (256 * v)) v"
proof -
  have "256 * (256 * v) = v + 65535 * v" by simp
  then show ?thesis unfolding csum_def by (simp only: mod_mult_self2) auto
qed

lemma csum_lsum: "csum (256 * lsum hi d) (lsum (\<not> hi) d)"
proof (induction d arbitrary: hi)
  case (Cons x d)
  have "csum (256 * ((if hi then 256 else 1) * unat x)) ((if hi then 1 else 256) * unat x)"
    using csum_256_256 [of "unat x"] by simp
  from csum_add [OF this Cons.IH [of "\<not> hi"]] show ?case by (auto simp: algebra_simps)
qed simp

lemma lsum_append: "lsum hi (a @ b) = lsum hi a + lsum (hi \<noteq> odd (length a)) b"
proof (induction a arbitrary: hi)
  case (Cons x a)
  have "((\<not> hi) \<noteq> odd (length a)) = (hi \<noteq> odd (length (x # a)))" by auto
  then show ?case by (simp only: append_Cons lsum.simps Cons.IH add.assoc)
qed simp

lemma lsum_pair: "lsum hi (x # y # d) \<le> 65535 + lsum hi d"
  using u8_of_nat(2) [of x] u8_of_nat(2) [of y] by auto

lemma lsum_bound: "lsum hi d \<le> 65535 * ((length d + 1) div 2)"
proof (induction d rule: induct_list012)
  case (2 x)
  then show ?case using u8_of_nat(2) [of x] by auto
next
  case (3 x y d)
  then show ?case using lsum_pair [of hi x y d] by simp
qed simp

lemma lsum_less: "length d \<le> 131072 \<Longrightarrow> lsum hi d < 2 ^ 32"
proof -
  assume "length d \<le> 131072"
  then have "(length d + 1) div 2 \<le> 65536" by simp
  then have "65535 * ((length d + 1) div 2) \<le> 65535 * 65536" by (rule mult_le_mono2)
  with lsum_bound [of hi d] show ?thesis by simp
qed

section \<open>The three versions compute the same sum\<close>

lemma sum_octets_lsum:
  "acc + lsum True d < 2 ^ 32 \<Longrightarrow> sum_octets acc d = acc + lsum True d"
proof (induction acc d rule: sum_octets.induct)
  case (1 acc x y r)
  then show ?case using or_eq_add [OF u8_of_nat(2), of "unat x" y] by (simp add: u32_id)
next
  case (2 acc x)
  then show ?case by (simp add: u32_id push_bit_eq_mult)
qed simp

lemma sum_words_lsum:
  "s + lsum False d < 2 ^ 32 \<Longrightarrow> sum_words s d = (v, r) \<Longrightarrow> length r \<le> 1 \<and> v + lsum False r = s + lsum False d"
  by (induction s d rule: sum_words.induct) (auto simp: u32_id)

definition chksum_of :: "u8_t list \<Rightarrow> nat" where
  "chksum_of d = canon (lsum False d)"

lemma canon_swap: "csum w (if sw then 256 * S else S) \<Longrightarrow> w \<le> 65535 \<Longrightarrow> (if sw then SWAP_BYTES_IN_WORD w else w) = canon S"
  using csum_swap [of w] csum_trans [OF csum_trans [OF conjunct1 [OF csum_swap [of w]] csum_mult] csum_256_256, of S]
  by (auto intro: canon_unique)

lemma fold_swap_canon:
  "S < 2 ^ 32 \<Longrightarrow> fold_swap sw S = (if sw then canon (256 * S) else canon S)"
  using csum_swap [of "canon S"] csum_mult [OF csum_canon, of S]
  by (auto simp: fold_swap_def fold_twice u16_id canon_unique le_imp_less_Suc [OF canon_le, simplified] intro: canon_unique csum_trans
      le_less_trans [OF canon_le])

lemma fold_swap_lsum:
  "length d \<le> 131072 \<Longrightarrow> fold_swap od (lsum od d) = chksum_of d"
  using fold_swap_canon [OF lsum_less, of d od od] canon_cong [OF csum_lsum, of True d]
  by (cases od) (simp_all add: chksum_of_def)

lemma take_odd_lsum: "take_odd od d = (t, e) \<Longrightarrow> t + lsum False e = lsum od d \<and> t mod 256 = 0 \<and> length e \<le> length d"
  by (cases d) (auto simp: take_odd_def split: if_splits)

lemma take_tail_lsum: "t mod 256 = 0 \<Longrightarrow> length r \<le> 1 \<Longrightarrow> take_tail t r = t + lsum False r"
  by (cases r) (auto simp: take_tail_def)

lemma standard_chksum: "length d \<le> 131072 \<Longrightarrow> lwip_standard_chksum a d = chksum_of d"
proof -
  assume len: "length d \<le> 131072"
  let ?od = "a AND 1 \<noteq> 0"
  obtain t e where t: "take_odd ?od d = (t, e)" by fastforce
  obtain s r where s: "sum_words 0 e = (s, r)" by fastforce
  note to = take_odd_lsum [OF t] and lim = lsum_less [OF len, of ?od]
  then have sw: "length r \<le> 1" "s + lsum False r = lsum False e"
    using sum_words_lsum [OF _ s] by auto
  then have "s + take_tail t r = lsum ?od d" using to take_tail_lsum [of t r] by simp
  then show ?thesis using t s lim fold_swap_lsum [OF len, of ?od]
    by (simp add: lwip_standard_chksum_def u32_id)
qed

lemma nat_bit_masks: "bit (0xff :: nat) i \<longleftrightarrow> i < 8" "bit (0xff00 :: nat) i \<longleftrightarrow> 8 \<le> i \<and> i < 16"
  using bit_masks(1,2) [of i] by (simp_all flip: bit_of_nat_iff_bit [where ?'a = int])

lemma htons_swap: "n \<le> 65535 \<Longrightarrow> htons n = SWAP_BYTES_IN_WORD n"
proof -
  assume n: "n \<le> 65535"
  then have "n = take_bit 16 n" by (simp add: take_bit_eq_mod)
  then have "bit n i \<Longrightarrow> i < 16" for i by (metis bit_take_bit_iff)
  then show ?thesis
    by (intro bit_eqI) (auto simp: htons_def SWAP_BYTES_IN_WORD_def lwip_htons_def bit_HTONS bit_simps nat_bit_masks)
qed

lemma chksum_1: "length d \<le> 131072 \<Longrightarrow> lwip_standard_chksum_1 a d = chksum_of d"
proof -
  assume len: "length d \<le> 131072"
  define acc where "acc = FOLD_U32T (lsum True d)"
  have b: "acc \<le> 131070" unfolding acc_def by (rule FOLD_bounds) (rule lsum_less [OF len])
  have "(if acc AND 0xffff0000 \<noteq> 0 then FOLD_U32T acc else acc) = FOLD_U32T acc"
  proof (cases "acc < 65536")
    case True
    then show ?thesis by (simp add: FOLD_eq)
  next
    case False
    then have "acc div 65536 = 1" using b by (simp add: le_div_geq)
    then have "bit acc 16" by (simp add: bit_iff_odd)
    moreover have "bit (0xffff0000 :: nat) 16" by (simp add: bit_iff_odd)
    ultimately have "bit (acc AND 0xffff0000) 16" by (simp only: bit_and_iff)
    then show ?thesis by (metis bit_0_eq bot_apply bot_bool_def)
  qed
  moreover have "FOLD_U32T acc = canon (lsum True d)" unfolding acc_def by (rule fold_twice [OF lsum_less [OF len]])
  moreover have "sum_octets 0 d = lsum True d" using lsum_less [OF len, of True] by (simp add: sum_octets_lsum)
  ultimately have "lwip_standard_chksum_1 a d = htons (canon (lsum True d))"
    by (simp only: lwip_standard_chksum_1_def Let_def acc_def [symmetric] u16_id le_less_trans [OF canon_le] simp_thms)
  also have "\<dots> = canon (256 * lsum True d)"
    using csum_swap [of "canon (lsum True d)"] csum_mult [OF csum_canon, of "lsum True d"]
    by (auto simp: htons_swap intro: canon_unique csum_trans)
  finally show ?thesis using canon_cong [OF csum_lsum, of True d] by (simp add: chksum_of_def)
qed

lemma add_carry_csum:
  assumes "s < 2 ^ 32" "v < 2 ^ 32"
  shows "csum (add_carry s v) (s + v) \<and> add_carry s v < 2 ^ 32"
proof (cases "s + v < 2 ^ 32")
  case True
  then show ?thesis by (simp add: add_carry_def u32_id)
next
  case False
  then have "u32 (s + v) = s + v - 2 ^ 32" using assms by (simp add: u32_def le_mod_geq)
  then have a: "add_carry s v = s + v - 2 ^ 32 + 1" using assms False by (auto simp: add_carry_def u32_id Let_def)
  have "s + v = add_carry s v + 65535 * 65537" using False unfolding a by simp
  then have "(s + v) mod 65535 = add_carry s v mod 65535" by (metis mod_mult_self2)
  then show ?thesis using a assms False by (simp add: csum_def)
qed

lemma load32: "load32 a b c d < 2 ^ 32 \<and> csum (load32 a b c d) (lsum False [a, b, c, d])"
proof -
  have "load32 a b c d < 2 ^ 32"
    using u8_of_nat(2) [of a] u8_of_nat(2) [of b] u8_of_nat(2) [of c] u8_of_nat(2) [of d] by (simp add: load32_def)
  moreover have "load32 a b c d = lsum False [a, b, c, d] + 65535 * (unat c + 256 * unat d)"
    by (simp add: load32_def)
  then have "load32 a b c d mod 65535 = lsum False [a, b, c, d] mod 65535" by (metis mod_mult_self2)
  moreover have "load32 a b c d = 0 \<longleftrightarrow> lsum False [a, b, c, d] = 0" by (auto simp: load32_def)
  ultimately show ?thesis unfolding csum_def by blast
qed

lemma sum_longs_csum:
  "s < 2 ^ 32 \<Longrightarrow> sum_longs s x = (v, r) \<Longrightarrow>
    v < 2 ^ 32 \<and> csum (v + lsum False r) (s + lsum False x) \<and> length r \<le> 7"
proof (induction s x rule: sum_longs.induct)
  case (1 s a b c d e f g h r')
  let ?s1 = "add_carry s (load32 a b c d)" and ?s2 = "add_carry (add_carry s (load32 a b c d)) (load32 e f g h)"
  have s1: "csum ?s1 (s + load32 a b c d)" "?s1 < 2 ^ 32"
    using add_carry_csum [OF 1(2)] load32 [of a b c d] by blast+
  have s2: "csum ?s2 (?s1 + load32 e f g h)" "?s2 < 2 ^ 32"
    using add_carry_csum [OF s1(2)] load32 [of e f g h] by blast+
  have "csum ?s2 (s + lsum False [a, b, c, d] + lsum False [e, f, g, h])"
    by (rule csum_trans [OF s2(1)], intro csum_add csum_trans [OF s1(1)] csum_refl load32 [THEN conjunct2])
  from csum_add [OF this csum_refl [of "lsum False r'"]]
  have "csum (?s2 + lsum False r') (s + lsum False (a # b # c # d # e # f # g # h # r'))" by (simp add: add.assoc)
  then show ?case using 1(1) [OF s2(2)] 1(3) by (auto intro: csum_trans)
qed auto

lemma chksum_3: "length d \<le> 131072 \<Longrightarrow> lwip_standard_chksum_3 a d = chksum_of d"
proof -
  assume len: "length d \<le> 131072"
  let ?od = "a AND 1 \<noteq> 0"
  let ?ps = "if ?od \<and> d \<noteq> [] then a + 1 else a"
  obtain t e where t: "take_odd ?od d = (t, e)" by fastforce
  note to = take_odd_lsum [OF t]
  let ?first = "if ?ps AND 3 \<noteq> 0 \<and> 1 < length e then (u32 (unat (e ! 0) + 256 * unat (e ! 1)), drop 2 e) else (0, e)"
  obtain s0 e0 where f: "?first = (s0, e0)" by (meson surj_pair)
  have s0: "s0 + lsum False e0 = lsum False e" "s0 < 2 ^ 32"
  proof -
    have "u32 (unat x + 256 * unat y) = unat x + 256 * unat y" for x y :: u8_t
      using u8_of_nat(2) [of x] u8_of_nat(2) [of y] by (intro u32_id) simp
    moreover have "e ! 0 # e ! 1 # drop 2 e = e" if "1 < length e"
      using that by (cases e; cases "tl e") auto
    then have "lsum False (e ! 0 # e ! 1 # drop 2 e) = lsum False e" if "1 < length e" using that by simp
    ultimately show "s0 + lsum False e0 = lsum False e" using f by (auto split: if_splits)
    show "s0 < 2 ^ 32" using f by (auto simp: u32_def split: if_splits)
  qed
  obtain s1 e1 where l: "sum_longs s0 e0 = (s1, e1)" by fastforce
  have s1: "s1 < 2 ^ 32" "csum (s1 + lsum False e1) (lsum False e)" "length e1 \<le> 7"
    using sum_longs_csum [OF s0(2) l] s0(1) by simp_all
  obtain s2 r where w: "sum_words (FOLD_U32T s1) e1 = (s2, r)" by fastforce
  have small: "FOLD_U32T s1 + lsum False e1 \<le> 131070 + 65535 * 4"
  proof -
    have "(length e1 + 1) div 2 \<le> 4" using s1(3) by simp
    then show ?thesis using FOLD_bounds(1) [OF s1(1)] lsum_bound [of False e1] by linarith
  qed
  then have s2: "length r \<le> 1" "s2 + lsum False r = FOLD_U32T s1 + lsum False e1"
    using sum_words_lsum [OF _ w] by auto
  have tb: "t \<le> 65280" using t u8_of_nat(2) [of "hd d"] by (auto simp: take_odd_def split: if_splits)
  have tot: "s2 + take_tail t r = FOLD_U32T s1 + lsum False e1 + t" using s2 to take_tail_lsum [of t r] by simp
  have "csum (s2 + take_tail t r) (lsum False e + t)" unfolding tot
    by (intro csum_add csum_refl csum_trans [OF csum_add [OF csum_FOLD csum_refl] s1(2)])
  then have c: "csum (s2 + take_tail t r) (lsum ?od d)" using to by (simp add: add.commute)
  have b: "s2 + take_tail t r < 2 ^ 32" using tot small tb by simp
  have "lwip_standard_chksum_3 a d = fold_swap ?od (s2 + take_tail t r)"
    using t f l w b by (simp add: lwip_standard_chksum_3_def u32_id)
  also have "\<dots> = fold_swap ?od (lsum ?od d)"
    using c canon_cong [OF c] canon_cong [OF csum_mult [OF c]] fold_swap_canon [OF b] fold_swap_canon [OF lsum_less [OF len]]
    by simp
  finally show ?thesis using fold_swap_lsum [OF len] by simp
qed

section \<open>Chains\<close>

definition chain_data :: "segment list \<Rightarrow> u8_t list" where
  "chain_data qs = concat (map snd qs)"

definition lens_ok :: "segment list \<Rightarrow> bool" where
  "lens_ok qs \<longleftrightarrow> (\<forall>q\<in>set qs. length (snd q) \<le> 65535)"

lemma chain_data_simps [simp]: "chain_data [] = []" "chain_data (q # qs) = snd q @ chain_data qs"
  by (simp_all add: chain_data_def)

lemma lens_ok_simps [simp]: "lens_ok []" "lens_ok (q # qs) \<longleftrightarrow> length (snd q) \<le> 65535 \<and> lens_ok qs"
  by (auto simp: lens_ok_def)

text \<open>\<open>acc\<close> and \<open>swapped\<close> represent the sum \<open>S\<close>.\<close>

definition represents :: "nat \<times> bool \<Rightarrow> nat \<Rightarrow> bool" where
  "represents st S \<longleftrightarrow> fst st \<le> 65535 \<and> csum (fst st) (if snd st then 256 * S else S)"

lemma represents_canon: "represents (acc, sw) S \<Longrightarrow> (if sw then SWAP_BYTES_IN_WORD acc else acc) = canon S"
  unfolding represents_def by (rule canon_swap) auto

text \<open>One round of the loop over a chain.\<close>

lemma represents_step:
  fixes a n :: nat
  assumes "represents (acc, sw) S" "length d \<le> 65535"
  defines "acc' \<equiv> FOLD_U32T (u32 (acc + lwip_standard_chksum a d))"
  shows "represents (if n mod 2 \<noteq> 0 then (SWAP_BYTES_IN_WORD acc', \<not> sw) else (acc', sw)) (S + lsum sw d)"
proof -
  have k: "lwip_standard_chksum a d = chksum_of d" using assms(2) by (simp add: standard_chksum)
  have b: "acc + chksum_of d \<le> 131070"
    using add_mono [of acc 65535 "chksum_of d" 65535] assms(1) by (simp add: represents_def chksum_of_def)
  then have acc': "acc' = FOLD_U32T (acc + chksum_of d)" by (simp add: acc'_def k u32_id)
  have "csum (chksum_of d) (if sw then 256 * lsum sw d else lsum sw d)"
    using csum_trans [OF csum_canon csum_sym [OF csum_lsum [of True d]]] csum_canon by (auto simp: chksum_of_def)
  then have "csum (acc + chksum_of d) (if sw then 256 * (S + lsum sw d) else S + lsum sw d)"
    using assms(1) csum_add [of acc _ "chksum_of d"] by (auto simp: represents_def distrib_left)
  then have c: "csum acc' (if sw then 256 * (S + lsum sw d) else S + lsum sw d)"
    unfolding acc' by (rule csum_trans [OF csum_FOLD])
  have b': "acc' \<le> 65535" unfolding acc' by (rule FOLD_bounds(2) [OF b])
  have "csum (SWAP_BYTES_IN_WORD acc') (256 * (if sw then 256 * (S + lsum sw d) else S + lsum sw d))"
    using csum_swap [OF b'] csum_mult [OF c] csum_trans by blast
  then have "csum (SWAP_BYTES_IN_WORD acc') (if \<not> sw then 256 * (S + lsum sw d) else S + lsum sw d)"
    using csum_trans [OF _ csum_256_256] by (cases sw) simp_all
  then show ?thesis using c b' csum_swap [OF b']
    by (cases "n mod 2 \<noteq> 0") (simp_all only: represents_def fst_conv snd_conv if_True if_False simp_thms)
qed

lemma chain_loop_represents:
  "represents (acc, sw) S \<Longrightarrow> lens_ok qs \<Longrightarrow> represents (chain_loop qs acc sw) (S + lsum sw (chain_data qs))"
proof (induction qs arbitrary: acc sw S)
  case (Cons q qs)
  let ?acc = "FOLD_U32T (u32 (acc + lwip_standard_chksum (fst q) (snd q)))"
  let ?n = "length (snd q)"
  let ?st = "if ?n mod 2 \<noteq> 0 then (SWAP_BYTES_IN_WORD ?acc, \<not> sw) else (?acc, sw)"
  obtain a1 s1 where st: "?st = (a1, s1)" by fastforce
  have "represents (a1, s1) (S + lsum sw (snd q))"
    using represents_step [OF Cons.prems(1), of "snd q" ?n "fst q"] Cons.prems(2) st by simp
  moreover have "s1 = (sw \<noteq> odd ?n)" using st by (auto simp: odd_iff_mod_2_eq_one split: if_splits)
  moreover have "chain_loop (q # qs) acc sw = chain_loop qs a1 s1" using st by (auto simp: Let_def split: if_splits)
  ultimately show ?case
    using Cons.IH [of a1 s1 "S + lsum sw (snd q)"] Cons.prems(2) by (simp add: lsum_append add.assoc)
qed simp

lemma partial_loop_represents:
  assumes "represents (acc, sw) S" "lens_ok qs" "partial_loop qs n acc sw = Some st"
  shows "represents st (S + lsum sw (take n (chain_data qs)))"
  using assms
proof (induction qs arbitrary: acc sw S n)
  case (Cons q qs)
  show ?case
  proof (cases "n = 0")
    case False
    let ?k = "length (snd q)"
    let ?d = "take n (snd q)"
    let ?acc = "FOLD_U32T (u32 (acc + lwip_standard_chksum (fst q) ?d))"
    let ?st = "if ?k mod 2 \<noteq> 0 then (SWAP_BYTES_IN_WORD ?acc, \<not> sw) else (?acc, sw)"
    obtain a1 s1 where st: "?st = (a1, s1)" by fastforce
    have "length ?d \<le> 65535" using Cons.prems(2) by (simp add: min_le_iff_disj)
    then have r: "represents (a1, s1) (S + lsum sw ?d)"
      using represents_step [OF Cons.prems(1), of ?d ?k "fst q"] unfolding st by simp
    have "take (if ?k > n then n else ?k) (snd q) = ?d" by simp
    then have p: "partial_loop qs (n - ?k) a1 s1 = Some st"
      using Cons.prems(3) False st by (auto simp: Let_def split: if_splits)
    have "s1 = (sw \<noteq> odd ?k)" using st by (auto simp: odd_iff_mod_2_eq_one split: if_splits)
    then have "lsum sw (take n (chain_data (q # qs))) = lsum sw ?d + lsum s1 (take (n - ?k) (chain_data qs))"
      by (cases "n \<le> ?k") (simp_all add: lsum_append)
    then show ?thesis
      using Cons.IH [of a1 s1 "S + lsum sw ?d" "n - ?k"] r p Cons.prems(2) by (simp add: add.assoc)
  qed (use Cons.prems in auto)
qed auto

lemma partial_loop_Some:
  "(\<exists>st. partial_loop qs n acc sw = Some st) \<longleftrightarrow> n = 0 \<or> qs = [] \<or> n - length (snd (hd qs)) < 0x7fff"
proof (induction qs arbitrary: n acc sw)
  case (Cons q qs)
  show ?case
  proof (cases "n = 0 \<or> 0x7fff \<le> n - length (snd q)")
    case False
    then have "n - length (snd q) - k < 0x7fff" for k by linarith
    then show ?thesis using Cons.IH False by (auto simp: Let_def)
  qed (auto simp: Let_def lwip_assert_def)
qed simp

lemma compl16_le: "v \<le> 65535 \<Longrightarrow> compl16 v = 65535 - v"
proof -
  have "NOT w = - 1 - w" for w :: u16_t by (simp add: not_eq_complement)
  moreover have "unat (- 1 - w) = unat (- 1 :: u16_t) - unat w" for w :: u16_t by (rule unat_sub) (rule word_n1_ge)
  ultimately have "compl16 v = unat (- 1 :: u16_t) - unat (of_nat v :: u16_t)" by (simp only: compl16_def)
  moreover have "unat (- 1 :: u16_t) = 65535" by (simp add: unsigned_minus_1_eq_mask mask_eq_exp_minus_1)
  ultimately show "v \<le> 65535 \<Longrightarrow> compl16 v = 65535 - v" by (simp only: unat_of_nat) simp
qed

lemma htons_bytes: "n \<le> 65535 \<Longrightarrow> htons n = lsum False [of_nat (n div 256), of_nat n]"
  by (simp add: htons_swap swap_eq less_mult_imp_div_less)

text \<open>The pseudo header: addresses, protocol and length in network byte order.\<close>

definition pseudo_header :: "u32_t list \<Rightarrow> u32_t list \<Rightarrow> nat \<Rightarrow> nat \<Rightarrow> u8_t list" where
  "pseudo_header src dest proto len =
     concat (map bytes32 src) @ concat (map bytes32 dest) @ [0, of_nat proto] @ [of_nat (len div 256), of_nat len]"

lemma pseudo_finish_canon:
  assumes "represents st S" "proto \<le> 255" "len \<le> 65535"
  shows "pseudo_finish st proto len = 65535 - canon (S + lsum False ([0, of_nat proto] @ [of_nat (len div 256), of_nat len]))"
proof -
  obtain acc sw where st: "st = (acc, sw)" by fastforce
  let ?a = "canon S + htons proto + htons len"
  have h: "htons proto = lsum False [0, of_nat proto]" "htons len = lsum False [of_nat (len div 256), of_nat len]"
    using assms(2,3) by (simp_all add: htons_bytes)
  have hb: "htons n \<le> 65535" for n
    using unsigned_less [of "lwip_htons (of_nat n)"] by (simp add: htons_def less_Suc_eq_le [symmetric])
  have b: "?a < 4294967296" using canon_le [of S] hb [of proto] hb [of len] by linarith
  have "csum ?a (S + lsum False [0, of_nat proto] + lsum False [of_nat (len div 256), of_nat len])"
    unfolding h by (intro csum_add csum_canon csum_refl)
  then have c: "canon ?a = canon (S + lsum False ([0, of_nat proto] @ [of_nat (len div 256), of_nat len]))"
    by (intro canon_cong) (simp add: add.assoc)
  have "pseudo_finish st proto len = compl16 (canon ?a AND 0xffff)"
    using represents_canon [of acc sw S] assms(1) st b
    by (simp add: pseudo_finish_def u32_id fold_twice)
  then show ?thesis using c by (simp add: and_ffff compl16_le le_less_trans [OF canon_le])
qed

lemma addr_lsum: "add_addr acc a = u32 (acc + lsum False (bytes32 a))" if "acc \<le> 2000000"
proof -
  have b: "unat (ucast (drop_bit k a) :: u8_t) = unat a div 2 ^ k mod 256" for k
    unfolding unsigned_ucast_eq unat_drop_bit_eq by (simp add: take_bit_eq_mod drop_bit_eq_div)
  have m: "n mod 256 + 256 * (n div 256 mod 256) = n mod 65536" for n :: nat
    using mod_mult2_eq [of n 256 256] by simp
  have "lsum False (bytes32 a) = unat a mod 65536 + unat a div 65536 mod 65536"
    using b [of 0] b [of 8] b [of 16] b [of 24] m [of "unat a"] m [of "unat a div 65536"]
    by (simp add: bytes32_def div_mult2_eq [of _ 65536 256, simplified])
  moreover have "acc + unat a mod 65536 < 4294967296"
    using that mod_less_divisor [of 65536 "unat a"] by linarith
  ultimately show ?thesis by (simp add: add_addr_def and_ffff drop_bit_eq_div u32_id add.assoc)
qed

lemma lsum_bytes32: "lsum False (bytes32 a) \<le> 131070"
  using lsum_bound [of False "bytes32 a"] by (simp add: bytes32_def)

lemma represents_canon_self: "represents (canon S, False) S"
  by (simp add: represents_def csum_canon)

lemma add_addrs_lsum:
  assumes "length src = length dest" "acc + 262140 * length src \<le> 2000000"
  shows "add_addrs acc (zip src dest) = acc + lsum False (concat (map bytes32 src)) + lsum False (concat (map bytes32 dest))"
  using assms
proof (induction src dest arbitrary: acc rule: list_induct2)
  case (Cons s src d dest)
  let ?s = "lsum False (bytes32 s)" and ?d = "lsum False (bytes32 d)"
  have b: "?s \<le> 131070" "?d \<le> 131070" by (rule lsum_bytes32)+
  then have "add_addr (add_addr acc s) d = acc + ?s + ?d"
    using Cons.prems by (simp add: addr_lsum u32_id)
  moreover have "acc + ?s + ?d + 262140 * length src \<le> 2000000" using b Cons.prems by simp
  moreover have "even (length (bytes32 x))" for x by (simp add: bytes32_def)
  ultimately show ?case using Cons.IH by (simp add: lsum_append)
qed simp

lemma even_bytes32: "even (length (concat (map bytes32 xs)))"
  by (induction xs) (auto simp: bytes32_def)

text \<open>Every pseudo-header checksum, whole or partial, is the plain checksum of the pseudo header followed by the
  data.\<close>

lemma pseudo_lsum:
  "65535 - canon (lsum False (concat (map bytes32 src)) + lsum False (concat (map bytes32 dest)) + lsum False d +
      lsum False ([0, of_nat proto] @ [of_nat (len div 256), of_nat len])) =
   65535 - chksum_of (pseudo_header src dest proto len @ d)"
  using even_bytes32 [of src] even_bytes32 [of dest] by (simp add: chksum_of_def pseudo_header_def lsum_append algebra_simps)

lemma pseudo_base:
  assumes "lens_ok p" "proto \<le> 255" "len \<le> 65535"
  shows "inet_cksum_pseudo_base p proto len (canon S) =
    65535 - canon (S + lsum False (chain_data p) + lsum False ([0, of_nat proto] @ [of_nat (len div 256), of_nat len]))"
  unfolding inet_cksum_pseudo_base_def
  by (rule pseudo_finish_canon [OF chain_loop_represents [OF represents_canon_self assms(1)] assms(2,3)])

lemma pseudo_partial_base:
  assumes "lens_ok p" "proto \<le> 255" "len \<le> 65535"
  shows "inet_cksum_pseudo_partial_base p proto len n (canon S) =
    (if n = 0 \<or> p = [] \<or> n - length (snd (hd p)) < 0x7fff
     then Some (65535 - canon (S + lsum False (take n (chain_data p)) + lsum False ([0, of_nat proto] @ [of_nat (len div 256), of_nat len])))
     else None)"
proof (cases "partial_loop p n (canon S) False")
  case None
  then show ?thesis using partial_loop_Some [of p n "canon S" False] by (simp add: inet_cksum_pseudo_partial_base_def)
next
  case (Some st)
  then show ?thesis
    using partial_loop_Some [of p n "canon S" False]
      pseudo_finish_canon [OF partial_loop_represents [OF represents_canon_self assms(1) Some] assms(2,3)]
    by (auto simp: inet_cksum_pseudo_partial_base_def)
qed

lemma acc4: "FOLD_U32T (FOLD_U32T (add_addr (add_addr 0 s) d)) = canon (lsum False (concat (map bytes32 [s])) + lsum False (concat (map bytes32 [d])))"
  using add_addrs_lsum [of "[s]" "[d]" 0] lsum_bytes32 [of s] lsum_bytes32 [of d] by (simp add: fold_twice)

lemma acc6:
  "length src = 4 \<Longrightarrow> length dest = 4 \<Longrightarrow> FOLD_U32T (FOLD_U32T (add_addrs 0 (zip (take 4 src) (take 4 dest)))) =
    canon (lsum False (concat (map bytes32 src)) + lsum False (concat (map bytes32 dest)))"
proof -
  assume l: "length src = 4" "length dest = 4"
  have "lsum False (concat (map bytes32 xs)) \<le> 131070 * length xs" for xs
  proof (induction xs)
    case (Cons x xs)
    have "even (length (bytes32 x))" by (simp add: bytes32_def)
    then show ?case using Cons lsum_bytes32 [of x] by (simp add: lsum_append)
  qed simp
  from this [of src] this [of dest] show ?thesis using l add_addrs_lsum [of src dest 0] by (simp add: fold_twice)
qed

lemma mod_cancel: "(a + r) mod m = (b + r) mod m \<Longrightarrow> a < m \<Longrightarrow> b < m \<Longrightarrow> a = (b :: nat)"
proof -
  assume "(a + r) mod m = (b + r) mod m" and lt: "a < m" "b < m"
  then obtain q1 q2 where "a + r + m * q1 = b + r + m * q2" unfolding nat_mod_eq_iff by blast
  then have "a + m * q1 = b + m * q2" by simp
  then have "a mod m = b mod m" unfolding nat_mod_eq_iff by blast
  then show "a = b" using lt by simp
qed

section \<open>Properties\<close>

text \<open>C25: The three versions of \<open>lwip_standard_chksum\<close> return the same value, whatever the alignment of the
  data: the ones' complement sum of its 16-bit words.\<close>

theorem chksum_versions_agree:
  assumes "length d \<le> 131072"
  shows "lwip_standard_chksum a d = chksum_of d \<and> lwip_standard_chksum_1 b d = chksum_of d \<and>
    lwip_standard_chksum_3 c d = chksum_of d"
  using assms by (simp add: standard_chksum chksum_1 chksum_3)

theorem chksum_versions_agree_witness:
  "lwip_standard_chksum 7 [0x45, 0, 0xff] = 0x0144 \<and> lwip_standard_chksum_3 1001 [0x45, 0, 0xff] = 0x0144"
proof -
  have "chksum_of [0x45, 0, 0xff] = 0x0144" by (simp add: chksum_of_def canon_def)
  then show ?thesis using chksum_versions_agree [of "[0x45, 0, 0xff]" 7 0 1001] by simp
qed

text \<open>C26: The checksum of a pbuf chain is the checksum of the concatenated payloads, however the data is
  split and aligned.\<close>

theorem chksum_chain_split:
  assumes "\<forall>q\<in>set p. length (snd q) \<le> 65535" "length (chain_data p) \<le> 131072"
  shows "inet_chksum_pbuf p = inet_chksum a (chain_data p)"
proof -
  obtain acc sw where l: "chain_loop p 0 False = (acc, sw)" by fastforce
  have "represents (0, False) 0" by (simp add: represents_def)
  from chain_loop_represents [OF this, of p] have "(if sw then SWAP_BYTES_IN_WORD acc else acc) = chksum_of (chain_data p)"
    using assms(1) l represents_canon [of acc sw] by (simp add: lens_ok_def chksum_of_def)
  moreover have "chksum_of d \<le> 65535" for d by (simp add: chksum_of_def)
  then have "chksum_of d mod 65536 = chksum_of d" for d using le_less_trans [of "chksum_of d" 65535 65536] by simp
  ultimately show ?thesis using l assms(2)
    by (simp add: inet_chksum_pbuf_def inet_chksum_def standard_chksum and_ffff)
qed

theorem chksum_chain_split_witness:
  "inet_chksum_pbuf [(1, [1, 2, 3]), (8, [4]), (5, [5, 6])] = inet_chksum 0 [1, 2, 3, 4, 5, 6]"
  using chksum_chain_split [of "[(1, [1, 2, 3]), (8, [4]), (5, [5, 6])]" 0] by simp

text \<open>C27: A buffer whose checksum field, at an even offset, is filled with the checksum of the buffer with
  that field zero has checksum zero: what the sender writes the receiver accepts.\<close>

theorem chksum_fill_verifies:
  assumes "even (length x)" "length x + length y \<le> 65533"
  shows "let c = inet_chksum a (x @ [0, 0] @ y) in inet_chksum b (x @ [of_nat c, of_nat (c div 256)] @ y) = 0"
proof -
  let ?S = "lsum False (x @ [0, 0] @ y)"
  define c where "c = 65535 - canon ?S"
  have "c \<le> 65535" by (simp add: c_def)
  then have "unat (of_nat c :: u8_t) + 256 * unat (of_nat (c div 256) :: u8_t) = c"
    by (simp add: less_mult_imp_div_less)
  then have "lsum False (x @ [of_nat c, of_nat (c div 256)] @ y) = ?S + c"
    using assms(1) by (simp add: lsum_append)
  moreover have "csum (?S + c) 65535"
  proof -
    have "csum (?S + c) (canon ?S + c)" by (intro csum_add csum_sym [OF csum_canon] csum_refl)
    then show ?thesis by (simp add: c_def)
  qed
  then have "canon (?S + c) = 65535" using canon_unique [of 65535 "?S + c"] csum_sym by simp
  moreover have "inet_chksum a (x @ [0, 0] @ y) = c"
    using assms(2) by (simp add: inet_chksum_def standard_chksum compl16_le chksum_of_def c_def)
  ultimately show ?thesis using assms
    by (simp add: inet_chksum_def standard_chksum compl16_le chksum_of_def Let_def)
qed

theorem chksum_fill_verifies_witness:
  "let c = inet_chksum 0 ([0x45, 0] @ [0, 0] @ [1]) in inet_chksum 0 ([0x45, 0] @ [of_nat c, of_nat (c div 256)] @ [1]) = 0"
  using chksum_fill_verifies [of "[0x45, 0]" "[1]" 0 0] by simp

text \<open>C28: The receiver's test detects every change of a single byte.\<close>

theorem chksum_detects_byte:
  assumes "inet_chksum a (x @ v # y) = 0" "w \<noteq> v" "length x + length y \<le> 65534"
  shows "inet_chksum a (x @ w # y) \<noteq> 0"
proof
  assume "inet_chksum a (x @ w # y) = 0"
  let ?S = "\<lambda>v. lsum False (x @ v # y)" and ?k = "if odd (length x) then 256 else 1 :: nat"
  have top: "canon (?S v) = 65535 \<Longrightarrow> ?S v mod 65535 = 0" for v using csum_canon [of "?S v"] by (simp add: csum_def)
  have zero: "inet_chksum a (x @ v # y) = 0 \<longleftrightarrow> canon (?S v) = 65535" for v
    using assms(3) canon_le [of "?S v"] by (auto simp: inet_chksum_def standard_chksum compl16_le chksum_of_def le_antisym)
  obtain r where r: "?S v = ?k * unat v + r" for v by (auto simp: lsum_append)
  have m: "(?k * unat v + r) mod 65535 = (?k * unat w + r) mod 65535"
    using top [of v] top [of w] zero [of v] zero [of w] assms(1) \<open>inet_chksum a (x @ w # y) = 0\<close> r by simp
  moreover have "?k * unat u < 65535" for u :: u8_t using u8_of_nat(2) [of u] by auto
  ultimately have "?k * unat v = ?k * unat w" using mod_cancel by blast
  with assms(2) show False by (simp add: word_unat_eq_iff split: if_splits)
qed

theorem chksum_detects_byte_witness:
  "inet_chksum 0 [0xff, 0xff] = 0 \<and> inet_chksum 0 [0xff, 0xfe] \<noteq> 0"
proof -
  have "inet_chksum 0 [0xff, 0xff] = 0" by (simp add: inet_chksum_def standard_chksum chksum_of_def canon_def compl16_le)
  then show ?thesis using chksum_detects_byte [of 0 "[0xff]" "0xff" "[]" "0xfe"] by simp
qed

text \<open>C29: The checksums with a pseudo header are the plain checksum of the pseudo header (addresses,
  protocol and length in network byte order) followed by the data of the chain, for IPv4 and IPv6.\<close>

theorem chksum_pseudo_header:
  assumes "\<forall>q\<in>set p. length (snd q) \<le> 65535" "proto \<le> 255" "len \<le> 65535" "length src6 = 4" "length dest6 = 4"
  shows "inet_chksum_pseudo p proto len src dest = 65535 - chksum_of (pseudo_header [src] [dest] proto len @ chain_data p) \<and>
    ip_chksum_pseudo p proto len src dest = 65535 - chksum_of (pseudo_header [src] [dest] proto len @ chain_data p) \<and>
    ip6_chksum_pseudo p proto len src6 dest6 = 65535 - chksum_of (pseudo_header src6 dest6 proto len @ chain_data p)"
proof -
  have ok: "lens_ok p" using assms(1) by (simp add: lens_ok_def)
  show ?thesis
    unfolding pseudo_lsum [symmetric] ip_chksum_pseudo_def inet_chksum_pseudo_def ip6_chksum_pseudo_def Let_def
      acc4 acc6 [OF assms(4,5)] pseudo_base [OF ok assms(2,3)]
    by simp
qed

theorem chksum_pseudo_header_witness:
  "inet_chksum_pseudo [(0, [1, 2]), (3, [5])] 17 3 (IP4_ADDR 10 0 0 1) (IP4_ADDR 10 0 0 2) =
     65535 - chksum_of (pseudo_header [IP4_ADDR 10 0 0 1] [IP4_ADDR 10 0 0 2] 17 3 @ [1, 2, 5])"
  using chksum_pseudo_header [of "[(0, [1, 2]), (3, [5])]" 17 3 "[0, 0, 0, 0]" "[0, 0, 0, 0]"  "IP4_ADDR 10 0 0 1" "IP4_ADDR 10 0 0 2"]
  by simp

text \<open>C40: The partial checksum covers the first \<open>n\<close> bytes of the chain; but its assertion aborts whenever
  32767 or more bytes remain to be covered after the first pbuf.\<close>

theorem chksum_partial:
  assumes "\<forall>q\<in>set p. length (snd q) \<le> 65535" "proto \<le> 255" "len \<le> 65535" "length src6 = 4" "length dest6 = 4"
  shows "inet_chksum_pseudo_partial p proto len n src dest =
      (if n = 0 \<or> p = [] \<or> n - length (snd (hd p)) < 0x7fff
       then Some (65535 - chksum_of (pseudo_header [src] [dest] proto len @ take n (chain_data p))) else None) \<and>
    ip6_chksum_pseudo_partial p proto len n src6 dest6 =
      (if n = 0 \<or> p = [] \<or> n - length (snd (hd p)) < 0x7fff
       then Some (65535 - chksum_of (pseudo_header src6 dest6 proto len @ take n (chain_data p))) else None)"
proof -
  have ok: "lens_ok p" using assms(1) by (simp add: lens_ok_def)
  show ?thesis
    unfolding pseudo_lsum [symmetric] inet_chksum_pseudo_partial_def ip6_chksum_pseudo_partial_def Let_def
      acc4 acc6 [OF assms(4,5)] pseudo_partial_base [OF ok assms(2,3)]
    by simp
qed

theorem chksum_partial_witness:
  "inet_chksum_pseudo_partial [(0, [1, 2]), (4, replicate 40000 3)] 136 40002 40000 0 0 = None"
  using chksum_partial [of "[(0, [1, 2]), (4, replicate 40000 3)]" 136 40002 "[0, 0, 0, 0]" "[0, 0, 0, 0]" 40000 0 0]
  by simp

end
