(* ===== verification/Pbuf.thy ===== *)
theory Pbuf
  imports Tcpip Mem Inet_Chksum
begin

text \<open>
  Packet buffers: \<open>src/lwip/src/core/pbuf.c\<close>.  An address is a region and an offset in it: the heap of
  \<open>Mem\<close>, the pools \<open>MEMP_PBUF_POOL\<close> and \<open>MEMP_PBUF\<close> of \<open>Memp\<close>, and all other memory.  The bytes of the heap are
  those of its \<open>ram\<close>, so that a payload written out of bounds damages the heap; the \<open>struct pbuf\<close> at an
  address is kept in a store of its own.  None stands for a failed assertion, a loop that does
  not end, and a dereferenced NULL or a pointer of the wrong region.
\<close>

section \<open>State\<close>

datatype pbuf_layer = PBUF_TRANSPORT | PBUF_IP | PBUF_LINK | PBUF_RAW_TX | PBUF_RAW
datatype pbuf_type = PBUF_RAM | PBUF_ROM | PBUF_REF | PBUF_POOL

datatype region = Heap | Pool | RefPool | Ext
type_synonym ptr = "region \<times> nat"

record pbuf =
  pb_next :: "ptr option"
  pb_payload :: ptr
  pb_tot_len :: nat
  pb_len :: nat
  pb_type :: pbuf_type
  pb_flags :: u8_t
  pb_ref :: nat

text \<open>\<open>custom_free\<close> is the field \<open>custom_free_function\<close> of \<open>struct pbuf_custom\<close>.\<close>

record 'h pbufs = "'h tcpip" +
  heap :: mem_state
  memory :: "region \<Rightarrow> bytes"
  pb :: "ptr \<Rightarrow> pbuf"
  custom_free :: "ptr \<Rightarrow> nat option"
  pbuf_free_ooseq_pending :: bool

definition PBUF_FLAG_IS_CUSTOM :: u8_t where "PBUF_FLAG_IS_CUSTOM = 0x02"
definition PBUF_FLAG_TCP_FIN :: u8_t where "PBUF_FLAG_TCP_FIN = 0x20"
definition SIZEOF_STRUCT_PBUF :: nat where "SIZEOF_STRUCT_PBUF = LWIP_MEM_ALIGN_SIZE 16"
definition PBUF_POOL_BUFSIZE_ALIGNED :: nat where "PBUF_POOL_BUFSIZE_ALIGNED = LWIP_MEM_ALIGN_SIZE 128"
definition NULLP :: ptr where "NULLP = (Ext, 0)"

definition padd :: "ptr \<Rightarrow> nat \<Rightarrow> ptr" where
  "padd p n = (fst p, snd p + n)"

text \<open>\<open>LWIP_MEM_ALIGN\<close>; the regions start at aligned addresses.\<close>

definition palign :: "ptr \<Rightarrow> ptr" where
  "palign p = (fst p, LWIP_MEM_ALIGN_SIZE (snd p))"

definition load :: "('h, 'z) pbufs_scheme \<Rightarrow> ptr \<Rightarrow> u8_t" where
  "load s p = (case fst p of Heap \<Rightarrow> ram (heap s) (snd p) | r \<Rightarrow> memory s r (snd p))"

definition upd_bytes :: "bytes \<Rightarrow> nat \<Rightarrow> u8_t list \<Rightarrow> bytes" where
  "upd_bytes m a bs = (\<lambda>i. if a \<le> i \<and> i < a + length bs then bs ! (i - a) else m i)"

definition store :: "ptr \<Rightarrow> u8_t list \<Rightarrow> ('h, 'z) pbufs_scheme \<Rightarrow> ('h, 'z) pbufs_scheme" where
  "store p bs s =
     (case fst p of
        Heap \<Rightarrow> s\<lparr>heap := (heap s)\<lparr>ram := upd_bytes (ram (heap s)) (snd p) bs\<rparr>\<rparr>
      | r \<Rightarrow> s\<lparr>memory := (memory s)(r := upd_bytes (memory s r) (snd p) bs)\<rparr>)"

definition load_bytes :: "('h, 'z) pbufs_scheme \<Rightarrow> ptr \<Rightarrow> nat \<Rightarrow> u8_t list" where
  "load_bytes s p n = map (\<lambda>i. load s (padd p i)) [0..<n]"

definition upd_pb :: "ptr \<Rightarrow> (pbuf \<Rightarrow> pbuf) \<Rightarrow> ('h, 'z) pbufs_scheme \<Rightarrow> ('h, 'z) pbufs_scheme" where
  "upd_pb p f s = s\<lparr>pb := (pb s)(p := f (pb s p))\<rparr>"

text \<open>An address in a region.\<close>

definition in_region :: "region \<Rightarrow> ptr \<Rightarrow> nat option" where
  "in_region r p = (if fst p = r then Some (snd p) else None)"

section \<open>Freeing\<close>

type_synonym ('h, 'z) custom_fn = "nat \<Rightarrow> ptr \<Rightarrow> ('h, 'z) pbufs_scheme \<Rightarrow> ('h, 'z) pbufs_scheme option"

definition pool_free_ptr :: "memp_t \<Rightarrow> region \<Rightarrow> ptr \<Rightarrow> ('h, 'z) pbufs_scheme \<Rightarrow> ('h, 'z) pbufs_scheme option" where
  "pool_free_ptr t r p s = do {
     a \<leftarrow> in_region r p;
     ps \<leftarrow> memp_free t (Some a) (tm_pools s);
     Some (s\<lparr>tm_pools := ps\<rparr>) }"

definition heap_free_ptr :: "ptr \<Rightarrow> ('h, 'z) pbufs_scheme \<Rightarrow> ('h, 'z) pbufs_scheme option" where
  "heap_free_ptr p s = do {
     a \<leftarrow> in_region Heap p;
     h \<leftarrow> mem_free (Some (int a)) (heap s);
     Some (s\<lparr>heap := h\<rparr>) }"

text \<open>Giving back the memory of one pbuf; \<open>cf\<close> is the effect of the custom free functions.\<close>

definition pbuf_dealloc :: "('h, 'z) custom_fn \<Rightarrow> ptr \<Rightarrow> ('h, 'z) pbufs_scheme \<Rightarrow> ('h, 'z) pbufs_scheme option" where
  "pbuf_dealloc cf p s =
     (if pb_flags (pb s p) AND PBUF_FLAG_IS_CUSTOM \<noteq> 0 then do {
        lwip_assert (custom_free s p \<noteq> None);
        cf (the (custom_free s p)) p s }
      else if pb_type (pb s p) = PBUF_POOL then pool_free_ptr MEMP_PBUF_POOL Pool p s
      else if pb_type (pb s p) = PBUF_ROM \<or> pb_type (pb s p) = PBUF_REF then pool_free_ptr MEMP_PBUF RefPool p s
      else heap_free_ptr p s)"

partial_function (option) pbuf_free_loop ::
  "('h, 'z) custom_fn \<Rightarrow> ptr option \<Rightarrow> nat \<Rightarrow> ('h, 'z) pbufs_scheme \<Rightarrow> (nat \<times> ('h, 'z) pbufs_scheme) option" where
  "pbuf_free_loop cf p count s =
     (case p of
        None \<Rightarrow> Some (count, s)
      | Some p \<Rightarrow> do {
          lwip_assert (pb_ref (pb s p) > 0);
          let ref = pb_ref (pb s p) - 1;
          let s = upd_pb p (\<lambda>b. b\<lparr>pb_ref := ref\<rparr>) s;
          if ref = 0 then do {
            let q = pb_next (pb s p);
            s \<leftarrow> pbuf_dealloc cf p s;
            pbuf_free_loop cf q (u8 (count + 1)) s }
          else Some (count, s) })"

definition pbuf_free :: "('h, 'z) custom_fn \<Rightarrow> ptr option \<Rightarrow> ('h, 'z) pbufs_scheme \<Rightarrow> (nat \<times> ('h, 'z) pbufs_scheme) option" where
  "pbuf_free cf p s = do {
     lwip_assert (p \<noteq> None);
     pbuf_free_loop cf p 0 s }"

section \<open>Allocation\<close>

text \<open>\<open>PBUF_LINK_ENCAPSULATION_HLEN\<close> is 0, \<open>PBUF_LINK_HLEN\<close> 16, \<open>PBUF_IP_HLEN\<close> and \<open>PBUF_TRANSPORT_HLEN\<close> 20.\<close>

fun layer_offset :: "pbuf_layer \<Rightarrow> nat" where
  "layer_offset PBUF_TRANSPORT = 0 + 16 + 20 + 20"
| "layer_offset PBUF_IP = 0 + 16 + 20"
| "layer_offset PBUF_LINK = 0 + 16"
| "layer_offset PBUF_RAW_TX = 0"
| "layer_offset PBUF_RAW = 0"

definition pbuf_free_ooseq_fn :: nat where "pbuf_free_ooseq_fn = 2"

definition pbuf_pool_is_empty :: "'h win32 \<Rightarrow> ('h, 'z) pbufs_scheme \<Rightarrow> ('h, 'z) pbufs_scheme option" where
  "pbuf_pool_is_empty api s = do {
     let queued = pbuf_free_ooseq_pending s;
     let s = s\<lparr>pbuf_free_ooseq_pending := True\<rparr>;
     if \<not> queued then do {
       (e, s) \<leftarrow> tcpip_callback_with_block api pbuf_free_ooseq_fn 0 False s;
       if e \<noteq> ERR_OK then Some (s\<lparr>pbuf_free_ooseq_pending := False\<rparr>) else Some s }
     else Some s }"

definition pool_alloc :: "memp_t \<Rightarrow> region \<Rightarrow> ('h, 'z) pbufs_scheme \<Rightarrow> (ptr option \<times> ('h, 'z) pbufs_scheme) option" where
  "pool_alloc t r s = do {
     (m, ps) \<leftarrow> memp_malloc t (tm_pools s);
     Some (map_option (Pair r) m, s\<lparr>tm_pools := ps\<rparr>) }"

text \<open>The assertion on the payload of \<open>p\<close> in \<open>pbuf_alloc\<close>.\<close>

definition payload_fits :: "ptr \<Rightarrow> pbuf \<Rightarrow> bool" where
  "payload_fits p b \<longleftrightarrow> snd (pb_payload b) + pb_len b \<le> snd p + SIZEOF_STRUCT_PBUF + PBUF_POOL_BUFSIZE_ALIGNED"

lemma pbuf_sizes [simp]: "SIZEOF_STRUCT_PBUF = 16" "PBUF_POOL_BUFSIZE_ALIGNED = 128"
  by (simp_all add: SIZEOF_STRUCT_PBUF_def PBUF_POOL_BUFSIZE_ALIGNED_def align_size)

text \<open>The loop that allocates the tail of a pool chain: \<open>p\<close> is the head, \<open>r\<close> the last pbuf so far.\<close>

function pool_chain :: "'h win32 \<Rightarrow> ('h, 'z) custom_fn \<Rightarrow> ptr \<Rightarrow> ptr \<Rightarrow> nat \<Rightarrow> ('h, 'z) pbufs_scheme \<Rightarrow> (bool \<times> ('h, 'z) pbufs_scheme) option" where
  "pool_chain api cf p r rem_len s =
     (if rem_len > 0 then do {
        (q, s) \<leftarrow> pool_alloc MEMP_PBUF_POOL Pool s;
        case q of
          None \<Rightarrow> do {
            s \<leftarrow> pbuf_pool_is_empty api s;
            (_, s) \<leftarrow> pbuf_free cf (Some p) s;
            Some (False, s) }
        | Some q \<Rightarrow> do {
            let s = upd_pb q (\<lambda>b. b\<lparr>pb_type := PBUF_POOL, pb_flags := 0, pb_next := None\<rparr>) s;
            let s = upd_pb r (\<lambda>b. b\<lparr>pb_next := Some q\<rparr>) s;
            lwip_assert (rem_len < 0xffff);
            let s = upd_pb q (\<lambda>b. b\<lparr>pb_tot_len := u16 rem_len, pb_len := min (u16 rem_len) PBUF_POOL_BUFSIZE_ALIGNED,
                      pb_payload := padd q SIZEOF_STRUCT_PBUF\<rparr>) s;
            lwip_assert (snd (pb_payload (pb s q)) mod MEM_ALIGNMENT = 0);
            lwip_assert (payload_fits p (pb s p));
            let s = upd_pb q (\<lambda>b. b\<lparr>pb_ref := 1\<rparr>) s;
            pool_chain api cf p q (rem_len - min (u16 rem_len) PBUF_POOL_BUFSIZE_ALIGNED) s } }
      else Some (True, s))"
  by pat_completeness auto

termination
  by (relation "measure (\<lambda>(api, cf, p, r, n, s). n)") (auto simp: u16_id)

declare pool_chain.simps [simp del]

definition pbuf_alloc_pool :: "'h win32 \<Rightarrow> ('h, 'z) custom_fn \<Rightarrow> nat \<Rightarrow> nat \<Rightarrow> ('h, 'z) pbufs_scheme \<Rightarrow> (ptr option \<times> ('h, 'z) pbufs_scheme) option" where
  "pbuf_alloc_pool api cf offset len s = do {
     (p, s) \<leftarrow> pool_alloc MEMP_PBUF_POOL Pool s;
     case p of
       None \<Rightarrow> do { s \<leftarrow> pbuf_pool_is_empty api s; Some (None, s) }
     | Some p \<Rightarrow> do {
         let s = upd_pb p (\<lambda>b. b\<lparr>pb_type := PBUF_POOL, pb_next := None,
                   pb_payload := palign (padd p (SIZEOF_STRUCT_PBUF + offset))\<rparr>) s;
         lwip_assert (snd (pb_payload (pb s p)) mod MEM_ALIGNMENT = 0);
         let s = upd_pb p (\<lambda>b. b\<lparr>pb_tot_len := len, pb_len := min len (PBUF_POOL_BUFSIZE_ALIGNED - LWIP_MEM_ALIGN_SIZE offset)\<rparr>) s;
         lwip_assert (payload_fits p (pb s p));
         lwip_assert (PBUF_POOL_BUFSIZE_ALIGNED - LWIP_MEM_ALIGN_SIZE offset > 0);
         let s = upd_pb p (\<lambda>b. b\<lparr>pb_ref := 1\<rparr>) s;
         (ok, s) \<leftarrow> pool_chain api cf p p (len - pb_len (pb s p)) s;
         Some (if ok then Some p else None, s) } }"

text \<open>The size is truncated to \<open>mem_size_t\<close> when it is passed to \<open>mem_malloc\<close>.\<close>

definition pbuf_alloc_ram :: "nat \<Rightarrow> nat \<Rightarrow> ('h, 'z) pbufs_scheme \<Rightarrow> (ptr option \<times> ('h, 'z) pbufs_scheme) option" where
  "pbuf_alloc_ram offset len s = do {
     (m, h) \<leftarrow> mem_malloc (u16 (LWIP_MEM_ALIGN_SIZE (SIZEOF_STRUCT_PBUF + offset) + LWIP_MEM_ALIGN_SIZE len)) (heap s);
     let s = s\<lparr>heap := h\<rparr>;
     case m of
       None \<Rightarrow> Some (None, s)
     | Some a \<Rightarrow> do {
         let p = (Heap, nat a);
         let s = upd_pb p (\<lambda>b. b\<lparr>pb_payload := palign (padd p (SIZEOF_STRUCT_PBUF + offset)),
                   pb_len := len, pb_tot_len := len, pb_next := None, pb_type := PBUF_RAM\<rparr>) s;
         lwip_assert (snd (pb_payload (pb s p)) mod MEM_ALIGNMENT = 0);
         Some (Some p, s) } }"

definition pbuf_alloc_ref :: "pbuf_type \<Rightarrow> nat \<Rightarrow> ('h, 'z) pbufs_scheme \<Rightarrow> (ptr option \<times> ('h, 'z) pbufs_scheme) option" where
  "pbuf_alloc_ref type len s = do {
     (p, s) \<leftarrow> pool_alloc MEMP_PBUF RefPool s;
     case p of
       None \<Rightarrow> Some (None, s)
     | Some p \<Rightarrow> Some (Some p, upd_pb p (\<lambda>b. b\<lparr>pb_payload := NULLP, pb_len := len, pb_tot_len := len,
                   pb_next := None, pb_type := type\<rparr>) s) }"

definition pbuf_alloc :: "'h win32 \<Rightarrow> ('h, 'z) custom_fn \<Rightarrow> pbuf_layer \<Rightarrow> nat \<Rightarrow> pbuf_type \<Rightarrow> ('h, 'z) pbufs_scheme \<Rightarrow> (ptr option \<times> ('h, 'z) pbufs_scheme) option" where
  "pbuf_alloc api cf layer len type s = do {
     let offset = layer_offset layer;
     (p, s) \<leftarrow> (case type of
        PBUF_POOL \<Rightarrow> pbuf_alloc_pool api cf offset len s
      | PBUF_RAM \<Rightarrow> pbuf_alloc_ram offset len s
      | PBUF_ROM \<Rightarrow> pbuf_alloc_ref PBUF_ROM len s
      | PBUF_REF \<Rightarrow> pbuf_alloc_ref PBUF_REF len s);
     case p of
       None \<Rightarrow> Some (None, s)
     | Some p \<Rightarrow> Some (Some p, upd_pb p (\<lambda>b. b\<lparr>pb_ref := 1, pb_flags := 0\<rparr>) s) }"

definition pbuf_alloced_custom :: "pbuf_layer \<Rightarrow> nat \<Rightarrow> pbuf_type \<Rightarrow> ptr \<Rightarrow> ptr option \<Rightarrow> nat \<Rightarrow> ('h, 'z) pbufs_scheme \<Rightarrow> ptr option \<times> ('h, 'z) pbufs_scheme" where
  "pbuf_alloced_custom l len type p payload_mem payload_mem_len s =
     (let offset = layer_offset l in
      if LWIP_MEM_ALIGN_SIZE offset + len > payload_mem_len then (None, s)
      else (Some p, upd_pb p (\<lambda>b. b\<lparr>pb_next := None,
              pb_payload := (case payload_mem of Some m \<Rightarrow> padd m (LWIP_MEM_ALIGN_SIZE offset) | None \<Rightarrow> NULLP),
              pb_flags := PBUF_FLAG_IS_CUSTOM, pb_len := len, pb_tot_len := len, pb_type := type, pb_ref := 1\<rparr>) s))"

section \<open>Resizing\<close>

text \<open>The loop of \<open>pbuf_realloc\<close>: \<open>grow\<close> is negative.\<close>

definition add16 :: "nat \<Rightarrow> int \<Rightarrow> nat" where
  "add16 n d = nat ((int n + d) mod 65536)"

partial_function (option) realloc_skip ::
  "int \<Rightarrow> ptr \<Rightarrow> nat \<Rightarrow> ('h, 'z) pbufs_scheme \<Rightarrow> (ptr \<times> nat \<times> ('h, 'z) pbufs_scheme) option" where
  "realloc_skip grow q rem_len s =
     (if rem_len > pb_len (pb s q) then do {
        let rem_len = rem_len - pb_len (pb s q);
        lwip_assert (grow < 0xffff);
        let s = upd_pb q (\<lambda>b. b\<lparr>pb_tot_len := add16 (pb_tot_len b) grow\<rparr>) s;
        case pb_next (pb s q) of
          None \<Rightarrow> None
        | Some n \<Rightarrow> realloc_skip grow n rem_len s }
      else Some (q, rem_len, s))"

definition pbuf_trim :: "ptr \<Rightarrow> nat \<Rightarrow> ('h, 'z) pbufs_scheme \<Rightarrow> ('h, 'z) pbufs_scheme option" where
  "pbuf_trim q rem_len s = do {
     a \<leftarrow> in_region Heap q;
     b \<leftarrow> in_region Heap (pb_payload (pb s q));
     (r, h) \<leftarrow> mem_trim (int a) (u16 (sub16 b a + rem_len)) (heap s);
     lwip_assert (r \<noteq> None);
     Some (s\<lparr>heap := h\<rparr>) }"

definition pbuf_realloc :: "('h, 'z) custom_fn \<Rightarrow> ptr option \<Rightarrow> nat \<Rightarrow> ('h, 'z) pbufs_scheme \<Rightarrow> ('h, 'z) pbufs_scheme option" where
  "pbuf_realloc cf p new_len s =
     (case p of
        None \<Rightarrow> None
      | Some p \<Rightarrow>
          if new_len \<ge> pb_tot_len (pb s p) then Some s
          else do {
            (q, rem_len, s) \<leftarrow> realloc_skip (int new_len - int (pb_tot_len (pb s p))) p new_len s;
            s \<leftarrow> (if pb_type (pb s q) = PBUF_RAM \<and> rem_len \<noteq> pb_len (pb s q) \<and> pb_flags (pb s q) AND PBUF_FLAG_IS_CUSTOM = 0
                  then pbuf_trim q rem_len s else Some s);
            let s = upd_pb q (\<lambda>b. b\<lparr>pb_len := rem_len, pb_tot_len := rem_len\<rparr>) s;
            s \<leftarrow> (case pb_next (pb s q) of
                    None \<Rightarrow> Some s
                  | Some n \<Rightarrow> map_option snd (pbuf_free cf (Some n) s));
            Some (upd_pb q (\<lambda>b. b\<lparr>pb_next := None\<rparr>) s) })"

text \<open>The new payload pointer; it must stay in its region.\<close>

definition psub :: "ptr \<Rightarrow> int \<Rightarrow> ptr option" where
  "psub p n = (if n \<le> int (snd p) then Some (fst p, nat (int (snd p) - n)) else None)"

definition pbuf_header_impl :: "ptr option \<Rightarrow> int \<Rightarrow> bool \<Rightarrow> ('h, 'z) pbufs_scheme \<Rightarrow> (bool \<times> ('h, 'z) pbufs_scheme) option" where
  "pbuf_header_impl p header_size_increment force s =
     (case p of
        None \<Rightarrow> None
      | Some p \<Rightarrow>
          if header_size_increment = 0 then Some (False, s)
          else
            let b = pb s p;
                increment_magnitude = nat \<bar>header_size_increment\<bar> in
            if header_size_increment < 0 \<and> \<not> increment_magnitude \<le> pb_len b then Some (True, s)
            else
              let move = (\<lambda>payload. Some (False, upd_pb p (\<lambda>b. b\<lparr>pb_payload := payload,
                      pb_len := add16 (pb_len b) header_size_increment,
                      pb_tot_len := add16 (pb_tot_len b) header_size_increment\<rparr>) s)) in
              if pb_type b = PBUF_RAM \<or> pb_type b = PBUF_POOL then do {
                a \<leftarrow> in_region (fst p) (pb_payload b);
                if int a - header_size_increment < int (snd p + SIZEOF_STRUCT_PBUF) then Some (True, s)
                else psub (pb_payload b) header_size_increment \<bind> move }
              else if header_size_increment < 0 \<and> increment_magnitude \<le> pb_len b then
                psub (pb_payload b) header_size_increment \<bind> move
              else if header_size_increment > 0 \<and> force then psub (pb_payload b) header_size_increment \<bind> move
              else Some (True, s))"

definition pbuf_header :: "ptr option \<Rightarrow> int \<Rightarrow> ('h, 'z) pbufs_scheme \<Rightarrow> (bool \<times> ('h, 'z) pbufs_scheme) option" where
  "pbuf_header p n s = pbuf_header_impl p n False s"

definition pbuf_header_force :: "ptr option \<Rightarrow> int \<Rightarrow> ('h, 'z) pbufs_scheme \<Rightarrow> (bool \<times> ('h, 'z) pbufs_scheme) option" where
  "pbuf_header_force p n s = pbuf_header_impl p n True s"

section \<open>Chains\<close>

partial_function (option) pbuf_clen :: "('h, 'z) pbufs_scheme \<Rightarrow> ptr option \<Rightarrow> nat \<Rightarrow> nat option" where
  "pbuf_clen s p len = (case p of None \<Rightarrow> Some len | Some p \<Rightarrow> pbuf_clen s (pb_next (pb s p)) (u16 (len + 1)))"

definition pbuf_ref :: "ptr option \<Rightarrow> ('h, 'z) pbufs_scheme \<Rightarrow> ('h, 'z) pbufs_scheme" where
  "pbuf_ref p s = (case p of None \<Rightarrow> s | Some p \<Rightarrow> upd_pb p (\<lambda>b. b\<lparr>pb_ref := u16 (pb_ref b + 1)\<rparr>) s)"

partial_function (option) cat_loop :: "ptr \<Rightarrow> ptr \<Rightarrow> ('h, 'z) pbufs_scheme \<Rightarrow> ('h, 'z) pbufs_scheme option" where
  "cat_loop p t s =
     (let b = pb s p in
      case pb_next b of
        Some n \<Rightarrow> cat_loop n t (upd_pb p (\<lambda>b. b\<lparr>pb_tot_len := u16 (pb_tot_len b + pb_tot_len (pb s t))\<rparr>) s)
      | None \<Rightarrow> do {
          lwip_assert (pb_tot_len b = pb_len b);
          let s = upd_pb p (\<lambda>b. b\<lparr>pb_tot_len := u16 (pb_tot_len b + pb_tot_len (pb s t))\<rparr>) s;
          Some (upd_pb p (\<lambda>b. b\<lparr>pb_next := Some t\<rparr>) s) })"

definition pbuf_cat :: "ptr option \<Rightarrow> ptr option \<Rightarrow> ('h, 'z) pbufs_scheme \<Rightarrow> ('h, 'z) pbufs_scheme option" where
  "pbuf_cat h t s = (case (h, t) of (Some h, Some t) \<Rightarrow> cat_loop h t s | _ \<Rightarrow> Some s)"

definition pbuf_chain :: "ptr option \<Rightarrow> ptr option \<Rightarrow> ('h, 'z) pbufs_scheme \<Rightarrow> ('h, 'z) pbufs_scheme option" where
  "pbuf_chain h t s = do { s \<leftarrow> pbuf_cat h t s; Some (pbuf_ref t s) }"

definition pbuf_dechain :: "('h, 'z) custom_fn \<Rightarrow> ptr \<Rightarrow> ('h, 'z) pbufs_scheme \<Rightarrow> (ptr option \<times> ('h, 'z) pbufs_scheme) option" where
  "pbuf_dechain cf p s = do {
     let q = pb_next (pb s p);
     (tail_gone, s) \<leftarrow> (case q of
        None \<Rightarrow> Some (1, s)
      | Some q \<Rightarrow> do {
          lwip_assert (int (pb_tot_len (pb s q)) = int (pb_tot_len (pb s p)) - int (pb_len (pb s p)));
          let s = upd_pb q (\<lambda>b. b\<lparr>pb_tot_len := sub16 (pb_tot_len (pb s p)) (pb_len (pb s p))\<rparr>) s;
          let s = upd_pb p (\<lambda>b. b\<lparr>pb_next := None\<rparr>) s;
          let s = upd_pb p (\<lambda>b. b\<lparr>pb_tot_len := pb_len b\<rparr>) s;
          pbuf_free cf (Some q) s });
     lwip_assert (pb_tot_len (pb s p) = pb_len (pb s p));
     Some (if tail_gone > 0 then None else q, s) }"

section \<open>Copying\<close>

text \<open>One round of the loop of \<open>pbuf_copy\<close>: the pointers and offsets after it, or an error to return.\<close>

definition copy_round :: "ptr \<Rightarrow> nat \<Rightarrow> ptr \<Rightarrow> nat \<Rightarrow> ('h, 'z) pbufs_scheme \<Rightarrow>
    ((err_t + ptr option \<times> nat \<times> ptr option \<times> nat) \<times> ('h, 'z) pbufs_scheme) option" where
  "copy_round p_to offset_to p_from offset_from s = do {
     let t = pb s p_to; let f = pb s p_from;
     let len = (if int (pb_len t) - int offset_to \<ge> int (pb_len f) - int offset_from
                then sub16 (pb_len f) offset_from else sub16 (pb_len t) offset_to);
     let s = store (padd (pb_payload t) offset_to) (load_bytes s (padd (pb_payload f) offset_from) len) s;
     let offset_to = u16 (offset_to + len); let offset_from = u16 (offset_from + len);
     lwip_assert (offset_to \<le> pb_len t);
     lwip_assert (offset_from \<le> pb_len f);
     let (from', offset_from) = (if offset_from \<ge> pb_len f then (pb_next f, 0) else (Some p_from, offset_from));
     let (to', offset_to) = (if offset_to = pb_len t then (pb_next t, 0) else (Some p_to, offset_to));
     if to' = None \<and> from' \<noteq> None then Some (Inl ERR_ARG, s)
     else if (case from' of Some q \<Rightarrow> pb_len (pb s q) = pb_tot_len (pb s q) \<and> pb_next (pb s q) \<noteq> None | None \<Rightarrow> False) then Some (Inl ERR_VAL, s)
     else if (case to' of Some q \<Rightarrow> pb_len (pb s q) = pb_tot_len (pb s q) \<and> pb_next (pb s q) \<noteq> None | None \<Rightarrow> False) then Some (Inl ERR_VAL, s)
     else Some (Inr (to', offset_to, from', offset_from), s) }"

partial_function (option) copy_loop :: "ptr \<Rightarrow> nat \<Rightarrow> ptr \<Rightarrow> nat \<Rightarrow> ('h, 'z) pbufs_scheme \<Rightarrow> (err_t \<times> ('h, 'z) pbufs_scheme) option" where
  "copy_loop p_to offset_to p_from offset_from s = do {
     (r, s) \<leftarrow> copy_round p_to offset_to p_from offset_from s;
     (case r of
        Inl e \<Rightarrow> Some (e, s)
      | Inr (to', ot, from', fo) \<Rightarrow>
          (case from' of
             None \<Rightarrow> Some (ERR_OK, s)
           | Some f \<Rightarrow> (case to' of None \<Rightarrow> None | Some t \<Rightarrow> copy_loop t ot f fo s))) }"

definition pbuf_copy :: "ptr option \<Rightarrow> ptr option \<Rightarrow> ('h, 'z) pbufs_scheme \<Rightarrow> (err_t \<times> ('h, 'z) pbufs_scheme) option" where
  "pbuf_copy p_to p_from s =
     (case (p_to, p_from) of
        (Some t, Some f) \<Rightarrow> if pb_tot_len (pb s t) \<ge> pb_tot_len (pb s f) then copy_loop t 0 f 0 s else Some (ERR_ARG, s)
      | _ \<Rightarrow> Some (ERR_ARG, s))"

text \<open>The bytes that \<open>pbuf_copy_partial\<close> writes to \<open>dataptr\<close>; it returns their number as \<open>u16_t\<close>.\<close>

partial_function (option) copy_partial_loop :: "('h, 'z) pbufs_scheme \<Rightarrow> ptr option \<Rightarrow> nat \<Rightarrow> nat \<Rightarrow> u8_t list \<Rightarrow> u8_t list option" where
  "copy_partial_loop s p len offset out =
     (case p of
        None \<Rightarrow> Some out
      | Some p \<Rightarrow>
          if len = 0 then Some out
          else if offset \<noteq> 0 \<and> offset \<ge> pb_len (pb s p) then
            copy_partial_loop s (pb_next (pb s p)) len (offset - pb_len (pb s p)) out
          else
            let buf_copy_len = pb_len (pb s p) - offset;
                buf_copy_len = (if buf_copy_len > len then len else buf_copy_len)
            in copy_partial_loop s (pb_next (pb s p)) (len - buf_copy_len) 0
                 (out @ load_bytes s (padd (pb_payload (pb s p)) offset) buf_copy_len))"

definition pbuf_copy_partial :: "('h, 'z) pbufs_scheme \<Rightarrow> ptr option \<Rightarrow> nat \<Rightarrow> nat \<Rightarrow> (nat \<times> u8_t list) option" where
  "pbuf_copy_partial s buf len offset =
     (case buf of
        None \<Rightarrow> Some (0, [])
      | Some _ \<Rightarrow> map_option (\<lambda>out. (u16 (length out), out)) (copy_partial_loop s buf len offset []))"

partial_function (option) pbuf_skip_const :: "('h, 'z) pbufs_scheme \<Rightarrow> ptr option \<Rightarrow> nat \<Rightarrow> (ptr option \<times> nat) option" where
  "pbuf_skip_const s q offset_left =
     (case q of
        None \<Rightarrow> Some (None, offset_left)
      | Some p \<Rightarrow>
          if pb_len (pb s p) \<le> offset_left then pbuf_skip_const s (pb_next (pb s p)) (offset_left - pb_len (pb s p))
          else Some (q, offset_left))"

definition pbuf_skip :: "('h, 'z) pbufs_scheme \<Rightarrow> ptr option \<Rightarrow> nat \<Rightarrow> (ptr option \<times> nat) option" where
  "pbuf_skip s p in_offset = pbuf_skip_const s p in_offset"

partial_function (option) take_loop :: "ptr option \<Rightarrow> u8_t list \<Rightarrow> ('h, 'z) pbufs_scheme \<Rightarrow> ('h, 'z) pbufs_scheme option" where
  "take_loop p rest s =
     (if rest = [] then Some s
      else case p of
        None \<Rightarrow> None
      | Some p \<Rightarrow>
          let buf_copy_len = (if length rest > pb_len (pb s p) then pb_len (pb s p) else length rest)
          in take_loop (pb_next (pb s p)) (drop buf_copy_len rest) (store (pb_payload (pb s p)) (take buf_copy_len rest) s))"

definition pbuf_take :: "ptr option \<Rightarrow> u8_t list \<Rightarrow> ('h, 'z) pbufs_scheme \<Rightarrow> (err_t \<times> ('h, 'z) pbufs_scheme) option" where
  "pbuf_take buf data s =
     (case buf of
        None \<Rightarrow> Some (ERR_ARG, s)
      | Some p \<Rightarrow>
          if \<not> length data \<le> pb_tot_len (pb s p) then Some (ERR_MEM, s)
          else map_option (Pair ERR_OK) (take_loop buf data s))"

definition pbuf_take_at :: "ptr option \<Rightarrow> u8_t list \<Rightarrow> nat \<Rightarrow> ('h, 'z) pbufs_scheme \<Rightarrow> (err_t \<times> ('h, 'z) pbufs_scheme) option" where
  "pbuf_take_at buf data offset s = do {
     (q, target_offset) \<leftarrow> pbuf_skip s buf offset;
     case q of
       None \<Rightarrow> Some (ERR_MEM, s)
     | Some q \<Rightarrow>
         if pb_tot_len (pb s q) \<ge> target_offset + length data then
           let first_copy_len = min (pb_len (pb s q) - target_offset) (length data);
               s = store (padd (pb_payload (pb s q)) target_offset) (take first_copy_len data) s
           in if length data - first_copy_len > 0 then pbuf_take (pb_next (pb s q)) (drop first_copy_len data) s
              else Some (ERR_OK, s)
         else Some (ERR_MEM, s) }"

definition pbuf_coalesce :: "'h win32 \<Rightarrow> ('h, 'z) custom_fn \<Rightarrow> ptr \<Rightarrow> pbuf_layer \<Rightarrow> ('h, 'z) pbufs_scheme \<Rightarrow> (ptr \<times> ('h, 'z) pbufs_scheme) option" where
  "pbuf_coalesce api cf p layer s =
     (if pb_next (pb s p) = None then Some (p, s)
      else do {
        (q, s) \<leftarrow> pbuf_alloc api cf layer (pb_tot_len (pb s p)) PBUF_RAM s;
        case q of
          None \<Rightarrow> Some (p, s)
        | Some q \<Rightarrow> do {
            (e, s) \<leftarrow> pbuf_copy (Some q) (Some p) s;
            lwip_assert (e = ERR_OK);
            (_, s) \<leftarrow> pbuf_free cf (Some p) s;
            Some (q, s) } })"

definition pbuf_fill_chksum :: "ptr \<Rightarrow> nat \<Rightarrow> u8_t list \<Rightarrow> nat \<Rightarrow> ('h, 'z) pbufs_scheme \<Rightarrow> (err_t \<times> nat \<times> ('h, 'z) pbufs_scheme) option" where
  "pbuf_fill_chksum p start_offset data chksum s = do {
     lwip_assert (data \<noteq> []);
     if start_offset \<ge> pb_len (pb s p) \<or> start_offset + length data > pb_len (pb s p) then Some (ERR_ARG, chksum, s)
     else
       let dst = padd (pb_payload (pb s p)) start_offset;
           (bytes, copy_chksum) = lwip_chksum_copy (snd dst) data;
           s = store dst bytes s;
           copy_chksum = (if start_offset AND 1 \<noteq> 0 then u16 (SWAP_BYTES_IN_WORD copy_chksum) else copy_chksum);
           acc = u32 (chksum + copy_chksum)
       in Some (ERR_OK, u16 (FOLD_U32T acc), s) }"

section \<open>Access by offset\<close>

definition pbuf_try_get_at :: "('h, 'z) pbufs_scheme \<Rightarrow> ptr option \<Rightarrow> nat \<Rightarrow> int option" where
  "pbuf_try_get_at s p offset = do {
     (q, q_idx) \<leftarrow> pbuf_skip_const s p offset;
     (case q of
        Some q \<Rightarrow> if pb_len (pb s q) > q_idx then Some (uint (load s (padd (pb_payload (pb s q)) q_idx))) else Some (- 1)
      | None \<Rightarrow> Some (- 1)) }"

definition pbuf_get_at :: "('h, 'z) pbufs_scheme \<Rightarrow> ptr option \<Rightarrow> nat \<Rightarrow> u8_t option" where
  "pbuf_get_at s p offset = do {
     ret \<leftarrow> pbuf_try_get_at s p offset;
     if ret \<ge> 0 then Some (word_of_int ret) else Some 0 }"

definition pbuf_put_at :: "ptr option \<Rightarrow> nat \<Rightarrow> u8_t \<Rightarrow> ('h, 'z) pbufs_scheme \<Rightarrow> ('h, 'z) pbufs_scheme option" where
  "pbuf_put_at p offset data s = do {
     (q, q_idx) \<leftarrow> pbuf_skip s p offset;
     (case q of
        Some q \<Rightarrow> if pb_len (pb s q) > q_idx then Some (store (padd (pb_payload (pb s q)) q_idx) [data] s) else Some s
      | None \<Rightarrow> Some s) }"

text \<open>The comparison loop of \<open>pbuf_memcmp\<close>; \<open>i\<close> counts up while bytes of \<open>s2\<close> are left.\<close>

fun memcmp_loop :: "('h, 'z) pbufs_scheme \<Rightarrow> ptr option \<Rightarrow> nat \<Rightarrow> nat \<Rightarrow> u8_t list \<Rightarrow> nat option" where
  "memcmp_loop s q start i [] = Some 0"
| "memcmp_loop s q start i (b # bs) = do {
     a \<leftarrow> pbuf_get_at s q (u16 (start + i));
     if a \<noteq> b then Some (u16 (i + 1)) else memcmp_loop s q start (i + 1) bs }"

definition pbuf_memcmp :: "('h, 'z) pbufs_scheme \<Rightarrow> ptr \<Rightarrow> nat \<Rightarrow> u8_t list \<Rightarrow> nat option" where
  "pbuf_memcmp s p offset s2 =
     (if pb_tot_len (pb s p) < offset + length s2 then Some 0xffff
      else do {
        (q, start) \<leftarrow> pbuf_skip_const s (Some p) offset;
        memcmp_loop s q start 0 s2 })"

partial_function (option) memfind_loop :: "('h, 'z) pbufs_scheme \<Rightarrow> ptr \<Rightarrow> u8_t list \<Rightarrow> nat \<Rightarrow> nat \<Rightarrow> nat option" where
  "memfind_loop s p mem mx i =
     (if i \<le> mx then do {
        plus \<leftarrow> pbuf_memcmp s p i mem;
        if plus = 0 then Some i else memfind_loop s p mem mx (u16 (i + 1)) }
      else Some 0xFFFF)"

definition pbuf_memfind :: "('h, 'z) pbufs_scheme \<Rightarrow> ptr \<Rightarrow> u8_t list \<Rightarrow> nat \<Rightarrow> nat option" where
  "pbuf_memfind s p mem start_offset =
     (let mx = sub16 (pb_tot_len (pb s p)) (length mem) in
      if pb_tot_len (pb s p) \<ge> length mem + start_offset then memfind_loop s p mem mx start_offset
      else Some 0xFFFF)"

definition pbuf_strstr :: "('h, 'z) pbufs_scheme \<Rightarrow> ptr \<Rightarrow> u8_t list \<Rightarrow> nat option" where
  "pbuf_strstr s p substr =
     (if substr = [] \<or> pb_tot_len (pb s p) = 0xFFFF then Some 0xFFFF
      else if length substr \<ge> 0xFFFF then Some 0xFFFF
      else pbuf_memfind s p substr 0)"

end
