(* ===== verification/Pbuf_Data.thy ===== *)
theory Pbuf_Data
  imports Pbuf
begin

text \<open>
  What a pbuf chain stands for: the concatenation of the payloads of its pbufs.  The functions of
  \<open>pbuf.c\<close> that read a chain are shown to be the operations on that byte sequence.
\<close>

section \<open>Chains\<close>

definition pb_link :: "('h, 'z) pbufs_scheme \<Rightarrow> ptr \<Rightarrow> ptr option" where
  "pb_link s p = pb_next (pb s p)"

definition seg :: "('h, 'z) pbufs_scheme \<Rightarrow> ptr \<Rightarrow> u8_t list" where
  "seg s p = load_bytes s (pb_payload (pb s p)) (pb_len (pb s p))"

definition pdata :: "('h, 'z) pbufs_scheme \<Rightarrow> ptr list \<Rightarrow> u8_t list" where
  "pdata s ps = concat (map (seg s) ps)"

lemma length_seg [simp]: "length (seg s p) = pb_len (pb s p)"
  by (simp add: seg_def load_bytes_def)

lemma pdata_simps [simp]: "pdata s [] = []" "pdata s (p # ps) = seg s p @ pdata s ps"
  "pdata s (ps @ qs) = pdata s ps @ pdata s qs"
  by (simp_all add: pdata_def)

text \<open>In a packet (as opposed to a queue of packets) \<open>tot_len\<close> is the length from a pbuf to the end.\<close>

fun tots :: "('h, 'z) pbufs_scheme \<Rightarrow> ptr list \<Rightarrow> bool" where
  "tots s [] \<longleftrightarrow> True"
| "tots s (p # ps) \<longleftrightarrow> pb_tot_len (pb s p) = length (pdata s (p # ps)) \<and> tots s ps"

definition packet :: "('h, 'z) pbufs_scheme \<Rightarrow> ptr option \<Rightarrow> ptr list \<Rightarrow> bool" where
  "packet s p ps \<longleftrightarrow> chain (pb_link s) p ps \<and> tots s ps \<and> length (pdata s ps) < 65536"

declare chain.simps(2) [simp del]

lemma tots_append: "tots s (ps @ qs) \<Longrightarrow> tots s qs"
  by (induction ps) auto

lemma chain_Cons [simp]: "chain (pb_link s) p (x # xs) \<longleftrightarrow> p = Some x \<and> chain (pb_link s) (pb_next (pb s x)) xs"
  by (simp only: chain.simps) (simp add: pb_link_def)

lemma nth_load_bytes: "i < n \<Longrightarrow> load_bytes s p n ! i = load s (padd p i)"
  by (simp add: load_bytes_def)

lemma load_bytes_drop_take:
  "o' + n \<le> m \<Longrightarrow> load_bytes s (padd p o') n = take n (drop o' (load_bytes s p m))"
  by (rule nth_equalityI) (auto simp: load_bytes_def padd_def add.assoc)

lemma seg_part:
  assumes "o' + n \<le> pb_len (pb s p)"
  shows "load_bytes s (padd (pb_payload (pb s p)) o') n = take n (drop o' (seg s p))"
  unfolding seg_def by (rule load_bytes_drop_take [OF assms])

section \<open>Positions\<close>

lemma skip_at:
  assumes "chain (pb_link s) p ps" "off < length (pdata s ps)"
  shows "\<exists>us x vs o'. ps = us @ x # vs \<and> pbuf_skip_const s p off = Some (Some x, o') \<and>
    off = length (pdata s us) + o' \<and> o' < pb_len (pb s x) \<and> chain (pb_link s) (Some x) (x # vs)"
  using assms
proof (induction ps arbitrary: p off)
  case (Cons y ps)
  show ?case
  proof (cases "pb_len (pb s y) \<le> off")
    case True
    have "chain (pb_link s) (pb_next (pb s y)) ps" using Cons.prems(1) by (simp add: chain_Cons)
    moreover have "off - pb_len (pb s y) < length (pdata s ps)" using Cons.prems(2) True by simp
    ultimately obtain us x vs o' where "ps = us @ x # vs" "pbuf_skip_const s (pb_next (pb s y)) (off - pb_len (pb s y)) = Some (Some x, o')"
      "off - pb_len (pb s y) = length (pdata s us) + o'" "o' < pb_len (pb s x)" "chain (pb_link s) (Some x) (x # vs)"
      using Cons.IH by blast
    then show ?thesis using Cons.prems(1) True
      by (intro exI [of _ "y # us"] exI [of _ x] exI [of _ vs] exI [of _ o']) (subst pbuf_skip_const.simps, auto)
  next
    case False
    then show ?thesis using Cons.prems(1)
      by (intro exI [of _ "[]"] exI [of _ y] exI [of _ ps] exI [of _ off]) (subst pbuf_skip_const.simps, auto)
  qed
qed simp

lemma skip_past:
  assumes "chain (pb_link s) p ps" "length (pdata s ps) \<le> off"
  shows "pbuf_skip_const s p off = Some (None, off - length (pdata s ps))"
  using assms
proof (induction ps arbitrary: p off)
  case Nil
  then show ?case by (subst pbuf_skip_const.simps) simp
next
  case (Cons y ps)
  have "chain (pb_link s) (pb_next (pb s y)) ps" using Cons.prems(1) by (simp add: chain_Cons)
  then show ?case using Cons by (subst pbuf_skip_const.simps) auto
qed

lemma data_at:
  assumes "ps = us @ x # vs" "off = length (pdata s us) + o'" "o' < pb_len (pb s x)"
  shows "pdata s ps ! off = load s (padd (pb_payload (pb s x)) o')" "off < length (pdata s ps)"
proof -
  show "off < length (pdata s ps)" using assms by simp
  have "pdata s ps ! off = seg s x ! o'" using assms by (simp add: nth_append)
  then show "pdata s ps ! off = load s (padd (pb_payload (pb s x)) o')"
    using assms(3) by (simp add: seg_def nth_load_bytes)
qed

lemma try_get_at:
  assumes "chain (pb_link s) p ps"
  shows "pbuf_try_get_at s p off = Some (if off < length (pdata s ps) then uint (pdata s ps ! off) else - 1)"
proof (cases "off < length (pdata s ps)")
  case True
  then obtain us x vs o' where x: "ps = us @ x # vs" "pbuf_skip_const s p off = Some (Some x, o')"
    "off = length (pdata s us) + o'" "o' < pb_len (pb s x)"
    using skip_at [OF assms] by blast
  then show ?thesis using True data_at [OF x(1,3,4)] by (simp add: pbuf_try_get_at_def)
next
  case False
  then show ?thesis using skip_past [OF assms, of off] by (simp add: pbuf_try_get_at_def)
qed

lemma get_at:
  assumes "chain (pb_link s) p ps"
  shows "pbuf_get_at s p off = Some (if off < length (pdata s ps) then pdata s ps ! off else 0)"
  using try_get_at [OF assms, of off] by (auto simp: pbuf_get_at_def)

section \<open>Comparing and searching\<close>

fun mismatch :: "nat \<Rightarrow> u8_t list \<Rightarrow> u8_t list \<Rightarrow> nat" where
  "mismatch i (a # as) (b # bs) = (if a \<noteq> b then i + 1 else mismatch (i + 1) as bs)"
| "mismatch i _ _ = 0"

lemma mismatch_0: "length bs \<le> length as \<Longrightarrow> mismatch i as bs = 0 \<longleftrightarrow> take (length bs) as = bs"
  by (induction i as bs rule: mismatch.induct) auto

lemma memcmp_loop:
  assumes "chain (pb_link s) q qs" "start + i + length bs \<le> length (pdata s qs)" "length (pdata s qs) < 65536"
  shows "memcmp_loop s q start i bs = Some (mismatch i (drop (start + i) (pdata s qs)) bs)"
  using assms
proof (induction bs arbitrary: i)
  case (Cons b bs)
  then have "start + i < length (pdata s qs)" by simp
  then have "drop (start + i) (pdata s qs) = pdata s qs ! (start + i) # drop (start + (i + 1)) (pdata s qs)"
    by (simp add: Cons_nth_drop_Suc)
  then show ?case using Cons get_at [OF Cons.prems(1), of "start + i"] by (simp add: u16_id)
qed simp

lemma memcmp:
  assumes "packet s (Some p) ps"
  shows "pbuf_memcmp s p off bs = Some (if length (pdata s ps) < off + length bs then 0xffff
    else mismatch 0 (drop off (pdata s ps)) bs)"
proof -
  have c: "chain (pb_link s) (Some p) ps" "pb_tot_len (pb s p) = length (pdata s ps)" "length (pdata s ps) < 65536"
    using assms by (cases ps; auto simp: packet_def)+
  show ?thesis
  proof (cases "off < length (pdata s ps)")
    case True
    then obtain us x vs o' where x: "ps = us @ x # vs" "pbuf_skip_const s (Some p) off = Some (Some x, o')"
      "off = length (pdata s us) + o'" "o' < pb_len (pb s x)" "chain (pb_link s) (Some x) (x # vs)"
      using skip_at [OF c(1)] by blast
    have d: "drop off (pdata s ps) = drop o' (pdata s (x # vs))" using x(1,3) by simp
    then show ?thesis using c x memcmp_loop [OF x(5), of o' 0 bs] by (auto simp: pbuf_memcmp_def)
  next
    case False
    then show ?thesis using c skip_past [OF c(1), of off] by (cases bs) (auto simp: pbuf_memcmp_def)
  qed
qed

lemma memcmp_0:
  assumes "packet s (Some p) ps" "off + length bs \<le> length (pdata s ps)"
  shows "\<exists>r. pbuf_memcmp s p off bs = Some r \<and> (r = 0 \<longleftrightarrow> occurs_at bs (pdata s ps) off)"
  using memcmp [OF assms(1), of off bs] assms(2) mismatch_0 [of bs "drop off (pdata s ps)" 0]
  by (auto simp: occurs_at_def)

lemma memfind_loop:
  assumes p: "packet s (Some p) ps" and mx: "mx + length bs = length (pdata s ps)"
    and i: "i \<le> mx + 1" "i < 65536" "mx < 65535 \<or> bs = []"
  shows "memfind_loop s p bs mx i = Some (case filter (occurs_at bs (pdata s ps)) [i..<mx + 1] of [] \<Rightarrow> 0xffff | k # _ \<Rightarrow> k)"
  using i
proof (induction "mx + 1 - i" arbitrary: i)
  case 0
  then show ?case by (subst memfind_loop.simps) simp
next
  case (Suc n)
  then have le: "i \<le> mx" by simp
  obtain r where r: "pbuf_memcmp s p i bs = Some r" "r = 0 \<longleftrightarrow> occurs_at bs (pdata s ps) i"
    using memcmp_0 [OF p, of i bs] le mx by auto
  have upt: "[i..<mx + 1] = i # [i + 1..<mx + 1]" using le by (simp add: upt_conv_Cons del: upt_Suc)
  show ?case
  proof (cases "r = 0")
    case True
    then show ?thesis using r le unfolding upt by (subst memfind_loop.simps) simp
  next
    case False
    then have "bs \<noteq> []" using r(2) by (auto simp: occurs_at_def)
    then have "i + 1 < 65536" using Suc.prems(3) le by simp
    then have "memfind_loop s p bs mx (i + 1) =
        Some (case filter (occurs_at bs (pdata s ps)) [i + 1..<mx + 1] of [] \<Rightarrow> 0xffff | k # _ \<Rightarrow> k)"
      using Suc.hyps(1) [of "i + 1"] Suc.hyps(2) Suc.prems le by simp
    then show ?thesis using r le False \<open>i + 1 < 65536\<close> unfolding upt
      by (subst memfind_loop.simps) (simp add: u16_id del: upt_Suc)
  qed
qed

section \<open>Copying out\<close>

lemma copy_partial_loop:
  assumes "chain (pb_link s) p ps"
  shows "copy_partial_loop s p n off out = Some (out @ take n (drop off (pdata s ps)))"
  using assms
proof (induction ps arbitrary: p n off out)
  case Nil
  then show ?case by (subst copy_partial_loop.simps) simp
next
  case (Cons x ps)
  have p: "p = Some x" and c: "chain (pb_link s) (pb_next (pb s x)) ps" using Cons.prems by (simp_all add: chain_Cons)
  let ?l = "pb_len (pb s x)"
  consider "n = 0" | "n \<noteq> 0" "off \<noteq> 0" "off \<ge> ?l" | "n \<noteq> 0" "off = 0 \<or> off < ?l" by linarith
  then show ?case
  proof cases
    case 1
    then show ?thesis by (subst copy_partial_loop.simps) (simp add: p)
  next
    case 2
    then show ?thesis using Cons.IH [OF c, of n "off - ?l" out] by (subst copy_partial_loop.simps) (simp add: p)
  next
    case 3
    define k where "k = (if ?l - off > n then n else ?l - off)"
    have k: "off + k \<le> ?l" "k \<le> n" using 3 by (auto simp: k_def)
    have "copy_partial_loop s p n off out =
        copy_partial_loop s (pb_next (pb s x)) (n - k) 0 (out @ take k (drop off (seg s x)))"
      using 3 by (subst copy_partial_loop.simps) (auto simp: p k_def Let_def seg_part)
    also have "\<dots> = Some (out @ take k (drop off (seg s x)) @ take (n - k) (pdata s ps))"
      using Cons.IH [OF c, of "n - k" 0] by simp
    also have "take k (drop off (seg s x)) @ take (n - k) (pdata s ps) = take n (drop off (pdata s (x # ps)))"
      using 3 by (auto simp: k_def)
    finally show ?thesis .
  qed
qed

section \<open>Buffers in memory\<close>

text \<open>A live pbuf that is not custom: its memory is allocated, and the payload of a pbuf with a buffer
  of its own lies in it, behind the structure.\<close>

definition has_buffer :: "('h, 'z) pbufs_scheme \<Rightarrow> ptr \<Rightarrow> bool" where
  "has_buffer s p \<longleftrightarrow> pb_type (pb s p) = PBUF_RAM \<or> pb_type (pb s p) = PBUF_POOL"

definition payload_in :: "('h, 'z) pbufs_scheme \<Rightarrow> ptr \<Rightarrow> nat \<Rightarrow> bool" where
  "payload_in s p n \<longleftrightarrow> fst (pb_payload (pb s p)) = fst p \<and> snd p + SIZEOF_STRUCT_PBUF \<le> snd (pb_payload (pb s p)) \<and>
     snd (pb_payload (pb s p)) + pb_len (pb s p) \<le> snd p + n"

definition live_pbuf :: "(memp_t \<Rightarrow> nat) \<Rightarrow> ('h, 'z) pbufs_scheme \<Rightarrow> ptr \<Rightarrow> bool" where
  "live_pbuf szof s p \<longleftrightarrow> pb_flags (pb s p) AND PBUF_FLAG_IS_CUSTOM = 0 \<and>
     (case pb_type (pb s p) of
        PBUF_RAM \<Rightarrow> fst p = Heap \<and> (\<exists>n. mem_live (heap s) (snd p) = Some n \<and> payload_in s p n)
      | PBUF_POOL \<Rightarrow> fst p = Pool \<and> snd p \<in> memp_live szof (tm_pools s) MEMP_PBUF_POOL \<and> payload_in s p 144
      | _ \<Rightarrow> fst p = RefPool \<and> snd p \<in> memp_live szof (tm_pools s) MEMP_PBUF)"

definition pbufs_inv :: "(memp_t \<Rightarrow> nat) \<Rightarrow> ('h, 'z) pbufs_scheme \<Rightarrow> bool" where
  "pbufs_inv szof s \<longleftrightarrow> mem_inv (heap s) \<and> memps_inv szof (tm_pools s) \<and>
     szof MEMP_PBUF_POOL = 144 \<and> szof MEMP_PBUF = 16 \<and> (\<forall>a. pb_flags (pb s (Pool, a)) AND PBUF_FLAG_IS_CUSTOM = 0)"

definition area :: "('h, 'z) pbufs_scheme \<Rightarrow> ptr \<Rightarrow> ptr set" where
  "area s p = padd (pb_payload (pb s p)) ` {..<pb_len (pb s p)}"

lemma area_iff: "q \<in> area s p \<longleftrightarrow> fst q = fst (pb_payload (pb s p)) \<and> snd (pb_payload (pb s p)) \<le> snd q \<and>
    snd q < snd (pb_payload (pb s p)) + pb_len (pb s p)"
proof
  assume r: "fst q = fst (pb_payload (pb s p)) \<and> snd (pb_payload (pb s p)) \<le> snd q \<and>
    snd q < snd (pb_payload (pb s p)) + pb_len (pb s p)"
  then have "q = padd (pb_payload (pb s p)) (snd q - snd (pb_payload (pb s p)))" by (simp add: padd_def prod_eq_iff)
  moreover have "snd q - snd (pb_payload (pb s p)) \<in> {..<pb_len (pb s p)}" using r by auto
  ultimately show "q \<in> area s p" unfolding area_def by (rule image_eqI)
qed (auto simp: area_def padd_def)

lemma pool_elems_apart:
  assumes "pbufs_inv szof s" "a \<in> memp_live szof (tm_pools s) MEMP_PBUF_POOL" "b \<in> memp_live szof (tm_pools s) MEMP_PBUF_POOL" "a < b"
  shows "a + 144 \<le> b"
proof -
  have e: "elems (memp_pools szof MEMP_PBUF_POOL) = (\<lambda>i. i * 144) ` {..<memp_num MEMP_PBUF_POOL}"
    using assms(1) by (simp add: elems_def memp_pools_def mempool_desc_def pbufs_inv_def align_size)
  obtain i j where "a = i * 144" "b = j * 144"
    using assms(2,3) e by (auto simp: memp_live_def pool_live_def)
  with assms(4) show ?thesis by simp
qed

lemma area_disjoint:
  assumes inv: "pbufs_inv szof s" and p: "live_pbuf szof s p" "has_buffer s p" and q: "live_pbuf szof s q" "has_buffer s q" and ne: "p \<noteq> q"
  shows "area s p \<inter> area s q = {}"
proof -
  have "x \<notin> area s q" if x: "x \<in> area s p" for x
  proof
    assume y: "x \<in> area s q"
    have r: "fst p = fst q" using x y p q by (auto simp: area_iff live_pbuf_def has_buffer_def payload_in_def)
    then have ne': "snd p \<noteq> snd q" using ne by (simp add: prod_eq_iff)
    show False
    proof (cases "fst p = Heap")
      case True
      then obtain n m where "mem_live (heap s) (snd p) = Some n" "payload_in s p n" "mem_live (heap s) (snd q) = Some m" "payload_in s q m"
        using p q r by (auto simp: live_pbuf_def has_buffer_def)
      then show False using live_disjoint [of "heap s" "snd p" n "snd q" m] inv ne' x y
        by (auto simp: pbufs_inv_def payload_in_def area_iff)
    next
      case False
      then have "snd p \<in> memp_live szof (tm_pools s) MEMP_PBUF_POOL" "snd q \<in> memp_live szof (tm_pools s) MEMP_PBUF_POOL"
        "payload_in s p 144" "payload_in s q 144"
        using p q r by (auto simp: live_pbuf_def has_buffer_def)
      then show False using pool_elems_apart [OF inv, of "snd p" "snd q"] pool_elems_apart [OF inv, of "snd q" "snd p"] ne' x y
        by (auto simp: payload_in_def area_iff neq_iff)
    qed
  qed
  then show ?thesis by blast
qed

section \<open>Writing\<close>

lemma load_store:
  "load (store p bs s) q = (if fst q = fst p \<and> snd p \<le> snd q \<and> snd q < snd p + length bs then bs ! (snd q - snd p) else load s q)"
  by (auto simp: load_def store_def upd_bytes_def split: region.splits)

text \<open>Only bytes of memory have changed, the headers of the heap excepted.\<close>

definition written :: "('h, 'z) pbufs_scheme \<Rightarrow> ('h, 'z) pbufs_scheme \<Rightarrow> bool" where
  "written s s' \<longleftrightarrow> (\<exists>f m. s' = s\<lparr>heap := (heap s)\<lparr>ram := f\<rparr>, memory := m\<rparr> \<and> mem_live (heap s') = mem_live (heap s)) "

lemma written_refl [simp]: "written s s"
  unfolding written_def by (intro exI [of _ "ram (heap s)"] exI [of _ "memory s"]) simp

lemma written_trans: "written s t \<Longrightarrow> written t u \<Longrightarrow> written s u"
  unfolding written_def by fastforce

lemma writtenD:
  assumes "written s s'"
  shows "pb s' = pb s" "tm_pools s' = tm_pools s" "mem_live (heap s') = mem_live (heap s)" "custom_free s' = custom_free s"
    "pb_link s' = pb_link s" "live_pbuf szof s' p = live_pbuf szof s p" "has_buffer s' p = has_buffer s p" "area s' p = area s p"
proof -
  have 1: "pb s' = pb s" "tm_pools s' = tm_pools s" "mem_live (heap s') = mem_live (heap s)" "custom_free s' = custom_free s"
    using assms by (auto simp: written_def)
  then show "pb s' = pb s" "tm_pools s' = tm_pools s" "mem_live (heap s') = mem_live (heap s)" "custom_free s' = custom_free s"
    by simp_all
  show "pb_link s' = pb_link s" "live_pbuf szof s' p = live_pbuf szof s p" "has_buffer s' p = has_buffer s p" "area s' p = area s p"
    unfolding fun_eq_iff pb_link_def live_pbuf_def has_buffer_def area_def payload_in_def 1 by (rule refl allI)+
qed

lemma seg_cong:
  assumes "pb s' p = pb s p" "\<And>q. q \<in> area s p \<Longrightarrow> load s' q = load s q"
  shows "seg s' p = seg s p"
  using assms by (simp add: seg_def load_bytes_def area_def)

lemma store_written:
  assumes inv: "pbufs_inv szof s" and p: "live_pbuf szof s p" "has_buffer s p" and fit: "i + length bs \<le> pb_len (pb s p)"
  defines "s' \<equiv> store (padd (pb_payload (pb s p)) i) bs s"
  shows "written s s'" "pbufs_inv szof s'" "seg s' p = take i (seg s p) @ bs @ drop (i + length bs) (seg s p)"
    "\<And>q. q \<notin> area s p \<Longrightarrow> load s' q = load s q"
proof -
  let ?b = "pb_payload (pb s p)"
  show out: "load s' q = load s q" if "q \<notin> area s p" for q
    using that fit by (auto simp: s'_def load_store padd_def area_iff)
  show "seg s' p = take i (seg s p) @ bs @ drop (i + length bs) (seg s p)"
  proof (rule nth_equalityI)
    show "length (seg s' p) = length (take i (seg s p) @ bs @ drop (i + length bs) (seg s p))"
      using fit by (simp add: s'_def store_def split: region.splits)
    fix j assume j: "j < length (seg s' p)"
    have pb: "pb s' = pb s" by (simp add: s'_def store_def split: region.splits)
    have j': "j < pb_len (pb s p)" using j pb by simp
    have "seg s' p ! j = load s' (padd ?b j)" using j' pb by (simp add: seg_def nth_load_bytes)
    also have "\<dots> = (if i \<le> j \<and> j < i + length bs then bs ! (j - i) else load s (padd ?b j))"
      by (auto simp: s'_def load_store padd_def)
    also have "load s (padd ?b j) = seg s p ! j" using j' by (simp add: seg_def nth_load_bytes)
    finally show "seg s' p ! j = (take i (seg s p) @ bs @ drop (i + length bs) (seg s p)) ! j"
      using j fit pb by (auto simp: nth_append)
  qed
  show w: "written s s'"
  proof (cases "fst ?b = Heap")
    case True
    let ?f = "upd_bytes (ram (heap s)) (snd ?b + i) bs"
    obtain n where n: "mem_live (heap s) (snd p) = Some n" "payload_in s p n"
      using p True by (auto simp: live_pbuf_def has_buffer_def payload_in_def)
    have f: "?f j = ram (heap s) j" if "j < snd p \<or> snd p + n \<le> j" for j
      using that n(2) fit by (auto simp: upd_bytes_def payload_in_def)
    have "mem_live ((heap s)\<lparr>ram := ?f\<rparr>) = mem_live (heap s)"
      by (rule store_data(2) [OF _ n(1)]) (use inv f in \<open>auto simp: pbufs_inv_def\<close>)
    then show ?thesis using True unfolding written_def s'_def
      by (intro exI [of _ ?f] exI [of _ "memory s"]) (simp add: store_def padd_def)
  next
    case False
    then show ?thesis unfolding written_def s'_def
      by (intro exI [of _ "ram (heap s)"] exI [of _ "(memory s)(fst ?b := upd_bytes (memory s (fst ?b)) (snd ?b + i) bs)"])
        (cases "fst ?b"; simp add: store_def padd_def)
  qed
  have "mem_inv (heap s')"
  proof (cases "fst ?b = Heap")
    case True
    let ?f = "upd_bytes (ram (heap s)) (snd ?b + i) bs"
    obtain n where n: "mem_live (heap s) (snd p) = Some n" "payload_in s p n"
      using p True by (auto simp: live_pbuf_def has_buffer_def payload_in_def)
    have f: "?f j = ram (heap s) j" if "j < snd p \<or> snd p + n \<le> j" for j
      using that n(2) fit by (auto simp: upd_bytes_def payload_in_def)
    have "mem_inv ((heap s)\<lparr>ram := ?f\<rparr>)"
      by (rule store_data(1) [OF _ n(1)]) (use inv f in \<open>auto simp: pbufs_inv_def\<close>)
    then show ?thesis using True by (simp add: s'_def store_def padd_def)
  next
    case False
    then show ?thesis using inv by (cases "fst ?b") (simp_all add: s'_def store_def padd_def pbufs_inv_def)
  qed
  then show "pbufs_inv szof s'" using inv writtenD [OF w] by (simp add: pbufs_inv_def)
qed

definition buffers :: "(memp_t \<Rightarrow> nat) \<Rightarrow> ('h, 'z) pbufs_scheme \<Rightarrow> ptr list \<Rightarrow> bool" where
  "buffers szof s ps \<longleftrightarrow> (\<forall>p\<in>set ps. live_pbuf szof s p \<and> has_buffer s p)"

text \<open>The pbufs \<open>ps\<close> now hold \<open>d\<close>, and no byte outside of them has changed.\<close>

definition filled :: "(memp_t \<Rightarrow> nat) \<Rightarrow> ('h, 'z) pbufs_scheme \<Rightarrow> ptr list \<Rightarrow> u8_t list \<Rightarrow> ('h, 'z) pbufs_scheme \<Rightarrow> bool" where
  "filled szof s ps d s' \<longleftrightarrow> written s s' \<and> pbufs_inv szof s' \<and> pdata s' ps = d \<and>
     (\<forall>q. (\<forall>p\<in>set ps. q \<notin> area s p) \<longrightarrow> load s' q = load s q)"

lemma pdata_cong: "(\<And>p. p \<in> set ps \<Longrightarrow> seg s' p = seg s p) \<Longrightarrow> pdata s' ps = pdata s ps"
  by (simp add: pdata_def cong: map_cong)

lemma filled_others:
  assumes "filled szof s ps d s'" "\<And>p. p \<in> set ps \<Longrightarrow> area s p \<inter> area s q = {}"
  shows "seg s' q = seg s q"
proof (rule seg_cong)
  show "pb s' q = pb s q" using assms(1) writtenD(1) [of s s'] by (simp add: filled_def)
  show "load s' a = load s a" if "a \<in> area s q" for a
    using assms(1) that disjoint_iff assms(2) unfolding filled_def by metis
qed

lemma append3_eq: "xs @ ys @ zs = xs' @ ys' @ zs' \<Longrightarrow> length xs = length xs' \<Longrightarrow> length ys = length ys' \<Longrightarrow>
    xs = xs' \<and> ys = ys' \<and> zs = zs'"
  by simp

lemma filled_store:
  assumes inv: "pbufs_inv szof s" and ok: "buffers szof s (us @ x # vs)" "distinct (us @ x # vs)" and fit: "i + length bs \<le> pb_len (pb s x)"
  shows "filled szof s (us @ x # vs)
    (pdata s us @ (take i (seg s x) @ bs @ drop (i + length bs) (seg s x)) @ pdata s vs) (store (padd (pb_payload (pb s x)) i) bs s)"
proof -
  let ?s = "store (padd (pb_payload (pb s x)) i) bs s"
  have x: "live_pbuf szof s x" "has_buffer s x" using ok(1) by (auto simp: buffers_def)
  note W = store_written [OF inv x fit]
  have "seg ?s p = seg s p" if "p \<in> set us \<union> set vs" for p
  proof (rule seg_cong)
    show "pb ?s p = pb s p" using writtenD(1) [OF W(1)] by simp
    have "live_pbuf szof s p" "has_buffer s p" "p \<noteq> x" using that ok by (auto simp: buffers_def)
    then have "area s x \<inter> area s p = {}" using area_disjoint [OF inv x] by blast
    then show "load ?s q = load s q" if "q \<in> area s p" for q using that W(4) by blast
  qed
  then have "pdata ?s us = pdata s us" "pdata ?s vs = pdata s vs" by (auto intro: pdata_cong)
  then show ?thesis using W by (simp add: filled_def)
qed

lemma filled_trans:
  assumes "filled szof s ps d s'" "filled szof s' ps e s''"
  shows "filled szof s ps e s''"
  using assms writtenD(8) [of s s'] written_trans [of s s' s''] by (auto simp: filled_def)

lemma buffers_written: "written s s' \<Longrightarrow> buffers szof s' ps = buffers szof s ps"
  by (simp add: buffers_def writtenD)

lemma take_loop_filled:
  assumes "pbufs_inv szof s" "chain (pb_link s) p ps" "buffers szof s (us @ ps)" "distinct (us @ ps)" "length d \<le> length (pdata s ps)"
  shows "\<exists>s'. take_loop p d s = Some s' \<and> filled szof s (us @ ps) (pdata s us @ d @ drop (length d) (pdata s ps)) s'"
  using assms
proof (induction ps arbitrary: p us d s)
  case Nil
  then show ?case by (subst take_loop.simps) (simp add: filled_def)
next
  case (Cons x ps)
  show ?case
  proof (cases "d = []")
    case True
    then show ?thesis using Cons.prems by (subst take_loop.simps) (simp add: filled_def)
  next
    case False
    let ?n = "if length d > pb_len (pb s x) then pb_len (pb s x) else length d"
    let ?s = "store (pb_payload (pb s x)) (take ?n d) s"
    have p: "p = Some x" and c: "chain (pb_link s) (pb_next (pb s x)) ps" using Cons.prems(2) by auto
    have f: "filled szof s (us @ x # ps) (pdata s us @ (take ?n d @ drop ?n (seg s x)) @ pdata s ps) ?s"
      using filled_store [OF Cons.prems(1,3,4), of 0 "take ?n d"] by (auto simp: padd_def)
    then have w: "written s ?s" "pbufs_inv szof ?s" by (simp_all add: filled_def)
    have eq: "take_loop p d s = take_loop (pb_next (pb s x)) (drop ?n d) ?s"
      using False by (subst take_loop.simps) (simp add: p Let_def)
    have "length (pdata ?s ps) = length (pdata s ps)"
      by (simp add: pdata_def length_concat comp_def writtenD(1) [OF w(1)])
    then have "\<exists>s'. take_loop (pb_next (pb s x)) (drop ?n d) ?s = Some s' \<and>
        filled szof ?s ((us @ [x]) @ ps) (pdata ?s (us @ [x]) @ drop ?n d @ drop (length (drop ?n d)) (pdata ?s ps)) s'"
      using Cons.prems c w by (intro Cons.IH) (auto simp: writtenD(5) [OF w(1)] buffers_written [OF w(1)])
    then obtain s' where s': "take_loop p d s = Some s'"
      "filled szof ?s (us @ x # ps) (pdata ?s (us @ [x]) @ drop ?n d @ drop (length (drop ?n d)) (pdata ?s ps)) s'"
      using eq by auto
    have "pdata ?s us @ seg ?s x @ pdata ?s ps = pdata s us @ (take ?n d @ drop ?n (seg s x)) @ pdata s ps"
      using f by (simp add: filled_def)
    moreover have "length (pdata ?s us) = length (pdata s us)"
      by (simp add: pdata_def length_concat comp_def writtenD(1) [OF w(1)])
    moreover have "length (seg ?s x) = length (take ?n d @ drop ?n (seg s x))" by (auto simp: writtenD(1) [OF w(1)])
    ultimately have parts: "pdata ?s us = pdata s us \<and> seg ?s x = take ?n d @ drop ?n (seg s x) \<and> pdata ?s ps = pdata s ps"
      by (rule append3_eq)
    have "pdata ?s (us @ [x]) @ drop ?n d @ drop (length (drop ?n d)) (pdata ?s ps) = pdata s us @ d @ drop (length d) (pdata s (x # ps))"
    proof (cases "length d > pb_len (pb s x)")
      case True
      then have "take ?n d @ drop ?n (seg s x) @ drop ?n d = d" by simp
      then show ?thesis using True parts by simp
    next
      case False
      then show ?thesis using parts by simp
    qed
    then show ?thesis using s' filled_trans [OF f] by metis
  qed
qed

text \<open>A range of the data is overwritten.\<close>

definition patch :: "nat \<Rightarrow> u8_t list \<Rightarrow> u8_t list \<Rightarrow> u8_t list" where
  "patch i bs d = take i d @ bs @ drop (i + length bs) d"

lemma length_patch [simp]: "i + length bs \<le> length d \<Longrightarrow> length (patch i bs d) = length d"
  by (simp add: patch_def)

lemma patch_at:
  assumes "off = length (pdata s us) + i" "i + length bs \<le> pb_len (pb s x)"
  shows "pdata s us @ (take i (seg s x) @ bs @ drop (i + length bs) (seg s x)) @ pdata s vs = patch off bs (pdata s (us @ x # vs))"
  using assms by (simp add: patch_def)

lemma packet_at:
  assumes "packet s p ps" "off < length (pdata s ps)"
  shows "\<exists>us x vs o'. ps = us @ x # vs \<and> pbuf_skip_const s p off = Some (Some x, o') \<and>
    off = length (pdata s us) + o' \<and> o' < pb_len (pb s x) \<and> packet s (Some x) (x # vs)"
proof -
  obtain us x vs o' where x: "ps = us @ x # vs" "pbuf_skip_const s p off = Some (Some x, o')"
    "off = length (pdata s us) + o'" "o' < pb_len (pb s x)" "chain (pb_link s) (Some x) (x # vs)"
    using skip_at [of s p ps off] assms by (auto simp: packet_def)
  moreover have "packet s (Some x) (x # vs)" using x(1,5) tots_append [of s us "x # vs"] assms(1) by (simp add: packet_def)
  ultimately show ?thesis by blast
qed

lemma packet_distinct: "packet s p ps \<Longrightarrow> distinct ps"
  using chain_distinct by (auto simp: packet_def)

lemma packet_tot: "packet s (Some p) ps \<Longrightarrow> pb_tot_len (pb s p) = length (pdata s ps)"
  by (cases ps) (auto simp: packet_def)

lemma packet_next:
  assumes "packet s p (x # vs)"
  shows "packet s (pb_next (pb s x)) vs"
  using assms by (simp add: packet_def)

lemma packet_written: "written s s' \<Longrightarrow> packet s p ps \<Longrightarrow> packet s' p ps"
proof -
  assume w: "written s s'" and p: "packet s p ps"
  have l: "length (pdata s' qs) = length (pdata s qs)" for qs
    by (simp add: pdata_def length_concat comp_def writtenD(1) [OF w])
  then have "tots s' qs = tots s qs" for qs by (induction qs) (simp_all add: writtenD(1) [OF w] del: length_append pdata_simps)
  then show "packet s' p ps" using p l by (simp add: packet_def writtenD(5) [OF w])
qed

lemma take_drop_append: "take n xs @ drop n xs @ ys = xs @ ys"
  by (simp flip: append_assoc)

lemma take_at_filled:
  assumes inv: "pbufs_inv szof s" and p: "packet s p ps" and b: "buffers szof s ps"
    and off: "off < length (pdata s ps)" "off + length d \<le> length (pdata s ps)"
  shows "\<exists>s'. pbuf_take_at p d off s = Some (ERR_OK, s') \<and> filled szof s ps (patch off d (pdata s ps)) s'"
proof -
  obtain us x vs i where x: "ps = us @ x # vs" "pbuf_skip_const s p off = Some (Some x, i)"
    "off = length (pdata s us) + i" "i < pb_len (pb s x)" "packet s (Some x) (x # vs)"
    using packet_at [OF p off(1)] by blast
  let ?n = "min (pb_len (pb s x) - i) (length d)"
  let ?s = "store (padd (pb_payload (pb s x)) i) (take ?n d) s"
  have d: "distinct (us @ x # vs)" using packet_distinct [OF p] x(1) by simp
  have f: "filled szof s (us @ x # vs) (pdata s us @ (take i (seg s x) @ take ?n d @ drop (i + ?n) (seg s x)) @ pdata s vs) ?s"
    using filled_store [OF inv, of us x vs i "take ?n d"] b d x(1,4) by simp
  then have w: "written s ?s" "pbufs_inv szof ?s" by (simp_all add: filled_def)
  have tot: "i + length d \<le> pb_tot_len (pb s x)" using packet_tot [OF x(5)] off(2) x(1,3) by simp
  have parts: "pdata ?s us = pdata s us \<and> seg ?s x = take i (seg s x) @ take ?n d @ drop (i + ?n) (seg s x) \<and> pdata ?s vs = pdata s vs"
    using f x(4) by (intro append3_eq) (auto simp: filled_def pdata_def length_concat comp_def writtenD(1) [OF w(1)])
  show ?thesis
  proof (cases "length d \<le> pb_len (pb s x) - i")
    case True
    then have "pbuf_take_at p d off s = Some (ERR_OK, ?s)" using x(2) tot by (simp add: pbuf_take_at_def pbuf_skip_def)
    then show ?thesis using f patch_at [OF x(3), of d x vs] True x(1,4) by simp
  next
    case False
    let ?p = "pb_next (pb ?s x)"
    have pk: "packet ?s ?p vs" using packet_next [OF packet_written [OF w(1) x(5)]] .
    have c: "chain (pb_link ?s) ?p vs" using pk by (simp add: packet_def)
    have le: "length (drop ?n d) \<le> length (pdata ?s vs)" using False off(2) x(1,3,4) parts by simp
    obtain s' where s': "take_loop ?p (drop ?n d) ?s = Some s'"
      "filled szof ?s ((us @ [x]) @ vs) (pdata ?s (us @ [x]) @ drop ?n d @ drop (length (drop ?n d)) (pdata ?s vs)) s'"
      using take_loop_filled [OF w(2) c, of "us @ [x]" "drop ?n d"] d b x(1) le by (auto simp: buffers_written [OF w(1)])
    obtain y where y: "?p = Some y" using c le False by (cases vs) auto
    then have "pbuf_take ?p (drop ?n d) ?s = Some (ERR_OK, s')"
      using s'(1) packet_tot [of ?s y vs] pk le by (simp add: pbuf_take_def)
    then have "pbuf_take_at p d off s = Some (ERR_OK, s')"
      using x(2) tot False by (simp add: pbuf_take_at_def pbuf_skip_def)
    moreover have "pdata ?s (us @ [x]) @ drop ?n d @ drop (length (drop ?n d)) (pdata ?s vs) = patch off d (pdata s ps)"
      using parts False x(1,3,4) by (simp add: patch_def add.commute take_drop_append)
    ultimately show ?thesis using filled_trans [OF f] s'(2) x(1) by (metis append.assoc append_Cons append_Nil)
  qed
qed

lemma put_at_filled:
  assumes inv: "pbufs_inv szof s" and p: "packet s p ps" and b: "buffers szof s ps"
  shows "\<exists>s'. pbuf_put_at p off c s = Some s' \<and> filled szof s ps ((pdata s ps)[off := c]) s'"
proof (cases "off < length (pdata s ps)")
  case True
  obtain us x vs i where x: "ps = us @ x # vs" "pbuf_skip_const s p off = Some (Some x, i)"
    "off = length (pdata s us) + i" "i < pb_len (pb s x)" "packet s (Some x) (x # vs)"
    using packet_at [OF p True] by blast
  have "patch off [c] (pdata s ps) = (pdata s ps)[off := c]" using True by (simp add: patch_def upd_conv_take_nth_drop)
  then show ?thesis using filled_store [OF inv, of us x vs i "[c]"] x(1,2,4) b packet_distinct [OF p] patch_at [OF x(3), of "[c]" x vs]
    by (simp add: pbuf_put_at_def pbuf_skip_def)
next
  case False
  then show ?thesis using skip_past [of s p ps off] p inv by (simp add: pbuf_put_at_def pbuf_skip_def packet_def filled_def list_update_beyond)
qed

end
