(* ===== verification/Pbuf_Alloc.thy ===== *)
theory Pbuf_Alloc
  imports Pbuf_Data
begin

text \<open>
  Allocation and reference counting of pbufs.  \<open>block\<close> is the memory allocated at an address, in
  the heap and in the two pools; freeing a chain gives back exactly the pbufs whose count reaches zero, and
  allocation adds a well-formed chain or nothing.
\<close>

declare split_paired_All [simp del] split_paired_Ex [simp del]

section \<open>Allocated memory\<close>

definition block :: "(memp_t \<Rightarrow> nat) \<Rightarrow> ('h, 'z) pbufs_scheme \<Rightarrow> ptr \<Rightarrow> nat option" where
  "block szof s p =
     (case fst p of
        Heap \<Rightarrow> mem_live (heap s) (snd p)
      | Pool \<Rightarrow> if snd p \<in> memp_live szof (tm_pools s) MEMP_PBUF_POOL then Some 144 else None
      | RefPool \<Rightarrow> if snd p \<in> memp_live szof (tm_pools s) MEMP_PBUF then Some 16 else None
      | Ext \<Rightarrow> None)"

fun type_region :: "pbuf_type \<Rightarrow> region" where
  "type_region PBUF_RAM = Heap"
| "type_region PBUF_POOL = Pool"
| "type_region PBUF_ROM = RefPool"
| "type_region PBUF_REF = RefPool"

lemma live_pbuf_block:
  "live_pbuf szof s p \<longleftrightarrow> pb_flags (pb s p) AND PBUF_FLAG_IS_CUSTOM = 0 \<and> fst p = type_region (pb_type (pb s p)) \<and>
     (\<exists>n. block szof s p = Some n \<and> (has_buffer s p \<longrightarrow> payload_in s p n))"
  by (cases "pb_type (pb s p)") (auto simp: live_pbuf_def block_def has_buffer_def)

text \<open>The memory of \<open>A\<close> is given back; all that is allocated keeps its bytes, and the state changes in
  the pools, the heap and the pbufs only.\<close>

definition released :: "(memp_t \<Rightarrow> nat) \<Rightarrow> ('h, 'z) pbufs_scheme \<Rightarrow> ptr set \<Rightarrow> ('h, 'z) pbufs_scheme \<Rightarrow> bool" where
  "released szof s A s' \<longleftrightarrow> pbufs_inv szof s' \<and> (\<forall>p. block szof s' p = (if p \<in> A then None else block szof s p)) \<and>
     (\<forall>p n i. block szof s' p = Some n \<and> i < n \<longrightarrow> load s' (padd p i) = load s (padd p i)) \<and>
     (\<forall>t. t \<noteq> MEMP_PBUF_POOL \<and> t \<noteq> MEMP_PBUF \<longrightarrow> tm_pools s' t = tm_pools s t) \<and>
     s' = s\<lparr>tm_pools := tm_pools s', heap := heap s', pb := pb s'\<rparr>"

lemma released_inv: "released szof s A s' \<Longrightarrow> pbufs_inv szof s'"
  by (simp add: released_def)

lemma released_block: "released szof s A s' \<Longrightarrow> block szof s' p = (if p \<in> A then None else block szof s p)"
  unfolding released_def by blast

lemma released_load: "released szof s A s' \<Longrightarrow> block szof s' p = Some n \<Longrightarrow> i < n \<Longrightarrow> load s' (padd p i) = load s (padd p i)"
  unfolding released_def by blast

lemma pool_flags: "pbufs_inv szof s \<Longrightarrow> fst p = Pool \<Longrightarrow> pb_flags (pb s p) AND PBUF_FLAG_IS_CUSTOM = 0"
  by (cases p) (simp add: pbufs_inv_def)

lemma block_upd_pb [simp]: "block szof (upd_pb p f s) = block szof s"
  by (rule ext) (simp add: block_def upd_pb_def split: region.splits)

lemma load_upd_pb [simp]: "load (upd_pb p f s) q = load s q"
  by (simp add: load_def upd_pb_def split: region.splits)

lemma pb_upd_pb [simp]: "pb (upd_pb p f s) = (pb s)(p := f (pb s p))"
  by (simp add: upd_pb_def)

lemma pools_upd_pb [simp]: "tm_pools (upd_pb p f s) = tm_pools s" "heap (upd_pb p f s) = heap s" "memory (upd_pb p f s) = memory s"
  by (simp_all add: upd_pb_def)

lemma pbufs_inv_upd_pb:
  "pbufs_inv szof s \<Longrightarrow> fst p = Pool \<longrightarrow> pb_flags (f (pb s p)) AND PBUF_FLAG_IS_CUSTOM = 0 \<Longrightarrow> pbufs_inv szof (upd_pb p f s)"
  by (auto simp: pbufs_inv_def)

lemma released_upd_pb:
  assumes "pbufs_inv szof s" "fst p = Pool \<longrightarrow> pb_flags (f (pb s p)) AND PBUF_FLAG_IS_CUSTOM = 0"
  shows "released szof s {} (upd_pb p f s)"
  using pbufs_inv_upd_pb [where f = f, OF assms] by (simp add: released_def) (simp add: upd_pb_def)

lemma released_trans:
  assumes "released szof s A t" "released szof t B u"
  shows "released szof s (A \<union> B) u"
proof -
  have T: "block szof t p = (if p \<in> A then None else block szof s p)"
    "block szof t p = Some n \<and> i < n \<longrightarrow> load t (padd p i) = load s (padd p i)"
    "t = s\<lparr>tm_pools := tm_pools t, heap := heap t, pb := pb t\<rparr>" for p n i
    using assms(1) unfolding released_def by blast+
  have U: "block szof u p = (if p \<in> B then None else block szof t p)"
    "block szof u p = Some n \<and> i < n \<longrightarrow> load u (padd p i) = load t (padd p i)"
    "u = t\<lparr>tm_pools := tm_pools u, heap := heap u, pb := pb u\<rparr>" for p n i
    using assms(2) unfolding released_def by blast+
  have "load u (padd p i) = load s (padd p i)" if "block szof u p = Some n" "i < n" for p n i
    using that T(2) [of p n i] U(2) [of p n i] U(1) [of p] by (simp split: if_splits)
  moreover have "u = s\<lparr>tm_pools := tm_pools u, heap := heap u, pb := pb u\<rparr>"
    by (subst U(3), subst T(3)) simp
  moreover have "tm_pools u m = tm_pools s m" if "m \<noteq> MEMP_PBUF_POOL" "m \<noteq> MEMP_PBUF" for m
    using assms that unfolding released_def by simp
  ultimately show ?thesis using assms(2) T(1) U(1) unfolding released_def by auto
qed

lemma pool_free_released:
  assumes inv: "pbufs_inv szof s" and m: "m \<in> memp_live szof (tm_pools s) t"
    and t: "t = MEMP_PBUF_POOL \<and> r = Pool \<or> t = MEMP_PBUF \<and> r = RefPool"
  shows "\<exists>s'. pool_free_ptr t r (r, m) s = Some s' \<and> released szof s {(r, m)} s' \<and> pb s' = pb s"
proof -
  obtain qs where q: "memp_free t (Some m) (tm_pools s) = Some qs" "memps_inv szof qs" "\<forall>t'. t' \<noteq> t \<longrightarrow> qs t' = tm_pools s t'"
    "memp_live szof qs t = memp_live szof (tm_pools s) t - {m}"
    using memp_free_spec [OF _ m] inv by (auto simp: pbufs_inv_def)
  let ?s = "s\<lparr>tm_pools := qs\<rparr>"
  have o: "memp_live szof qs t' = memp_live szof (tm_pools s) t'" if "t' \<noteq> t" for t'
    using q(3) that by (simp add: memp_live_def)
  have "released szof s {(r, m)} ?s"
    unfolding released_def
  proof (intro conjI allI impI)
    show "pbufs_inv szof ?s" using inv q(2) by (simp add: pbufs_inv_def)
    show "block szof ?s p = (if p \<in> {(r, m)} then None else block szof s p)" for p
      using t o q(4) by (cases p; cases "fst p") (auto simp: block_def)
    show "tm_pools ?s t' = tm_pools s t'" if "t' \<noteq> MEMP_PBUF_POOL \<and> t' \<noteq> MEMP_PBUF" for t'
      using that t q(3) by auto
  qed (simp_all add: load_def split: region.splits)
  then show ?thesis using q(1) by (simp add: pool_free_ptr_def in_region_def)
qed

lemma heap_free_released:
  assumes inv: "pbufs_inv szof s" and m: "mem_live (heap s) a = Some n"
  shows "\<exists>s'. heap_free_ptr (Heap, a) s = Some s' \<and> released szof s {(Heap, a)} s' \<and> pb s' = pb s"
proof -
  obtain h where h: "mem_free (Some (int a)) (heap s) = Some h" "mem_inv h" "mem_live h = (mem_live (heap s))(a := None)"
    "\<forall>q m i. mem_live (heap s) q = Some m \<and> i < m \<longrightarrow> ram h (q + i) = ram (heap s) (q + i)"
    using mem_free_spec [OF _ m] inv by (auto simp: pbufs_inv_def free_post_def)
  let ?s = "s\<lparr>heap := h\<rparr>"
  have "released szof s {(Heap, a)} ?s"
    unfolding released_def
  proof (intro conjI allI impI)
    show "pbufs_inv szof ?s" using inv h(2) by (simp add: pbufs_inv_def)
    show "block szof ?s p = (if p \<in> {(Heap, a)} then None else block szof s p)" for p
      using h(3) by (cases p; cases "fst p") (auto simp: block_def)
    show "load ?s (padd p i) = load s (padd p i)" if "block szof ?s p = Some n \<and> i < n" for p n i
      using that h(3,4) by (cases p; cases "fst p") (auto simp: block_def load_def padd_def split: if_splits)
  qed simp_all
  then show ?thesis using h(1) by (simp add: heap_free_ptr_def in_region_def)
qed

lemma dealloc_released:
  assumes inv: "pbufs_inv szof s" and p: "live_pbuf szof s p"
  shows "\<exists>s'. pbuf_dealloc cf p s = Some s' \<and> released szof s {p} s' \<and> pb s' = pb s"
proof (cases "pb_type (pb s p)")
  case PBUF_RAM
  then obtain n where "p = (Heap, snd p)" "mem_live (heap s) (snd p) = Some n"
    using p by (cases p) (auto simp: live_pbuf_def)
  then show ?thesis using heap_free_released [OF inv, of "snd p" n] PBUF_RAM p by (auto simp: pbuf_dealloc_def live_pbuf_def)
next
  case PBUF_POOL
  then have "p = (Pool, snd p)" "snd p \<in> memp_live szof (tm_pools s) MEMP_PBUF_POOL"
    using p by (cases p; auto simp: live_pbuf_def)+
  then show ?thesis using pool_free_released [OF inv, of "snd p" MEMP_PBUF_POOL Pool] PBUF_POOL p by (auto simp: pbuf_dealloc_def live_pbuf_def)
next
  case PBUF_ROM
  then have "p = (RefPool, snd p)" "snd p \<in> memp_live szof (tm_pools s) MEMP_PBUF"
    using p by (cases p; auto simp: live_pbuf_def)+
  then show ?thesis using pool_free_released [OF inv, of "snd p" MEMP_PBUF RefPool] PBUF_ROM p by (auto simp: pbuf_dealloc_def live_pbuf_def)
next
  case PBUF_REF
  then have "p = (RefPool, snd p)" "snd p \<in> memp_live szof (tm_pools s) MEMP_PBUF"
    using p by (cases p; auto simp: live_pbuf_def)+
  then show ?thesis using pool_free_released [OF inv, of "snd p" MEMP_PBUF RefPool] PBUF_REF p by (auto simp: pbuf_dealloc_def live_pbuf_def)
qed

section \<open>Reference counts\<close>

text \<open>The prefix of a chain that \<open>pbuf_free\<close> gives back, and the counts afterwards.\<close>

definition dead :: "('h, 'z) pbufs_scheme \<Rightarrow> ptr list \<Rightarrow> ptr list" where
  "dead s ps = takeWhile (\<lambda>x. pb_ref (pb s x) = 1) ps"

definition unref :: "ptr set \<Rightarrow> (ptr \<Rightarrow> pbuf) \<Rightarrow> ptr \<Rightarrow> pbuf" where
  "unref A f q = (if q \<in> A then (f q)\<lparr>pb_ref := pb_ref (f q) - 1\<rparr> else f q)"

lemma unref_fields [simp]: "pb_next (unref A f q) = pb_next (f q)" "pb_payload (unref A f q) = pb_payload (f q)"
  "pb_tot_len (unref A f q) = pb_tot_len (f q)" "pb_len (unref A f q) = pb_len (f q)"
  "pb_type (unref A f q) = pb_type (f q)" "pb_flags (unref A f q) = pb_flags (f q)"
  by (simp_all add: unref_def)

lemma unref_ref: "pb_ref (unref A f q) = (if q \<in> A then pb_ref (f q) - 1 else pb_ref (f q))"
  by (simp add: unref_def)

lemma unref_Un: "A \<inter> B = {} \<Longrightarrow> unref B (unref A f) = unref (A \<union> B) f"
  by (rule ext) (auto simp: unref_def)


lemma released_live:
  assumes "released szof s A s'" "pb s' q = unref B (pb s) q" "q \<notin> A" "live_pbuf szof s q"
  shows "live_pbuf szof s' q"
proof -
  have "block szof s' q = block szof s q" using assms(3) by (simp add: released_block [OF assms(1)])
  moreover have "has_buffer s' q = has_buffer s q" "payload_in s' q = payload_in s q"
    using assms(2) by (simp_all add: has_buffer_def payload_in_def fun_eq_iff)
  ultimately show ?thesis using assms(2,4) by (simp add: live_pbuf_block)
qed

lemma payload_offset:
  assumes "payload_in s q n" "i < pb_len (pb s q)"
  shows "\<exists>j<n. padd (pb_payload (pb s q)) i = padd q j"
  using assms by (intro exI [of _ "snd (pb_payload (pb s q)) - snd q + i"]) (auto simp: payload_in_def padd_def)

lemma released_seg:
  assumes "released szof s A s'" "pb s' q = unref B (pb s) q" "q \<notin> A" "live_pbuf szof s q" "has_buffer s q"
  shows "seg s' q = seg s q"
proof -
  obtain n where n: "block szof s q = Some n" "payload_in s q n" using assms(4,5) by (auto simp: live_pbuf_block)
  have b: "block szof s' q = Some n" using assms(3) n(1) by (simp add: released_block [OF assms(1)])
  have "load s' (padd (pb_payload (pb s q)) i) = load s (padd (pb_payload (pb s q)) i)" if "i < pb_len (pb s q)" for i
    using payload_offset [OF n(2) that] released_load [OF assms(1) b] by auto
  then show ?thesis using assms(2) by (simp add: seg_def load_bytes_def)
qed

lemma free_loop_released:
  assumes "pbufs_inv szof s" "chain (pb_link s) p ps" "\<forall>x\<in>set ps. 0 < pb_ref (pb s x)" "\<forall>x\<in>set (dead s ps). live_pbuf szof s x" "count < 256"
  shows "\<exists>s'. pbuf_free_loop cf p count s = Some (u8 (count + length (dead s ps)), s') \<and> released szof s (set (dead s ps)) s' \<and>
    pb s' = unref (set (take (length (dead s ps) + 1) ps)) (pb s)"
  using assms
proof (induction ps arbitrary: p count s)
  case Nil
  then show ?case using released_upd_pb [of szof s NULLP id]
    by (subst pbuf_free_loop.simps) (simp add: dead_def released_def u8_id fun_eq_iff unref_def)
next
  case (Cons x ps)
  have p: "p = Some x" and c: "chain (pb_link s) (pb_next (pb s x)) ps" using Cons.prems(2) by auto
  have x: "x \<notin> set ps" using chain_distinct [OF Cons.prems(2)] by simp
  let ?s = "upd_pb x (\<lambda>b. b\<lparr>pb_ref := pb_ref (pb s x) - 1\<rparr>) s"
  have s: "released szof s {} ?s" using Cons.prems(1) by (intro released_upd_pb) (simp_all add: pool_flags)
  have pb: "pb ?s = unref {x} (pb s)" by (auto simp: unref_def)
  show ?case
  proof (cases "pb_ref (pb s x) = 1")
    case False
    then show ?thesis using Cons.prems s pb by (subst pbuf_free_loop.simps) (simp add: p dead_def u8_id Let_def)
  next
    case True
    then have d: "dead s (x # ps) = x # dead s ps" by (simp add: dead_def)
    then have "live_pbuf szof s x" using Cons.prems(4) by simp
    then have "live_pbuf szof ?s x" using released_live [OF s fun_cong [OF pb]] by simp
    then obtain t where t: "pbuf_dealloc cf x ?s = Some t" "released szof ?s {x} t" "pb t = pb ?s"
      using dealloc_released [OF released_inv [OF s]] by blast
    have st: "released szof s {x} t" using released_trans [OF s t(2)] by simp
    have pbt: "pb t = unref {x} (pb s)" using t(3) pb by simp
    have link: "pb_link t = pb_link s" by (rule ext) (simp add: pb_link_def pbt)
    have ref: "pb_ref (pb t y) = pb_ref (pb s y)" if "y \<in> set ps" for y using that x by (auto simp: pbt unref_ref)
    then have dt: "dead t ps = dead s ps" unfolding dead_def by (intro takeWhile_cong) auto
    have "\<exists>s'. pbuf_free_loop cf (pb_next (pb s x)) (u8 (count + 1)) t = Some (u8 (u8 (count + 1) + length (dead t ps)), s') \<and>
        released szof t (set (dead t ps)) s' \<and> pb s' = unref (set (take (length (dead t ps) + 1) ps)) (pb t)"
    proof (rule Cons.IH [OF released_inv [OF st]])
      show "chain (pb_link t) (pb_next (pb s x)) ps" using c link by simp
      show "\<forall>y\<in>set ps. 0 < pb_ref (pb t y)" using Cons.prems(3) ref by simp
      show "\<forall>y\<in>set (dead t ps). live_pbuf szof t y"
      proof
        fix y assume y: "y \<in> set (dead t ps)"
        then have "y \<in> set ps" using set_takeWhileD unfolding dead_def by metis
        then have "y \<notin> {x}" using x by auto
        then show "live_pbuf szof t y"
          using released_live [OF st fun_cong [OF pbt]] Cons.prems(4) y unfolding d dt by simp
      qed
    qed (simp add: u8_def)
    then obtain s' where s': "pbuf_free_loop cf (pb_next (pb s x)) (u8 (count + 1)) t = Some (u8 (u8 (count + 1) + length (dead s ps)), s')"
      "released szof t (set (dead s ps)) s'" "pb s' = unref (set (take (length (dead s ps) + 1) ps)) (pb t)"
      unfolding dt by blast
    have "pbuf_free_loop cf p count s = Some (u8 (u8 (count + 1) + length (dead s ps)), s')"
      using s'(1) t(1) True by (subst pbuf_free_loop.simps) (simp add: p Let_def)
    moreover have "u8 (u8 (count + 1) + length (dead s ps)) = u8 (count + length (x # dead s ps))"
      by (simp add: u8_def mod_simps)
    moreover have "pb s' = unref (set (take (length (x # dead s ps) + 1) (x # ps))) (pb s)"
      using s'(3) pbt x unref_Un [of "{x}" "set (take (length (dead s ps) + 1) ps)" "pb s"] by (auto dest: in_set_takeD)
    ultimately show ?thesis using released_trans [OF st s'(2)] unfolding d by simp
  qed
qed

section \<open>Allocation\<close>

text \<open>What was allocated before is as it was.\<close>

definition preserved :: "(memp_t \<Rightarrow> nat) \<Rightarrow> ('h, 'z) pbufs_scheme \<Rightarrow> ('h, 'z) pbufs_scheme \<Rightarrow> bool" where
  "preserved szof s s' \<longleftrightarrow> pbufs_inv szof s' \<and> memory s' Ext = memory s Ext \<and>
     (\<forall>p n. block szof s p = Some n \<longrightarrow> block szof s' p = Some n \<and> pb s' p = pb s p \<and> (\<forall>i<n. load s' (padd p i) = load s (padd p i)))"

text \<open>Blocks of \<open>n\<close> bytes at \<open>us\<close> are allocated on top of that.\<close>

definition grown :: "(memp_t \<Rightarrow> nat) \<Rightarrow> nat \<Rightarrow> ('h, 'z) pbufs_scheme \<Rightarrow> ptr list \<Rightarrow> ('h, 'z) pbufs_scheme \<Rightarrow> bool" where
  "grown szof n s us s' \<longleftrightarrow> preserved szof s s' \<and> (\<forall>x\<in>set us. block szof s x = None) \<and>
     (\<forall>p. block szof s' p = (if p \<in> set us then Some n else block szof s p))"

lemma preserved_upd_pb:
  assumes "preserved szof s s'" "block szof s p = None" "fst p = Pool \<longrightarrow> pb_flags (f (pb s' p)) AND PBUF_FLAG_IS_CUSTOM = 0"
  shows "preserved szof s (upd_pb p f s')"
  using assms pbufs_inv_upd_pb [of szof s' p f] by (auto simp: preserved_def)

lemma grown_upd_pb:
  assumes "grown szof n s us s'" "p \<in> set us" "fst p = Pool \<longrightarrow> pb_flags (f (pb s' p)) AND PBUF_FLAG_IS_CUSTOM = 0"
  shows "grown szof n s us (upd_pb p f s')"
  using assms preserved_upd_pb [of szof s s' p f] by (simp add: grown_def)

lemma grownD:
  assumes "grown szof n s us s'"
  shows "pbufs_inv szof s'" "x \<in> set us \<Longrightarrow> block szof s' x = Some n" "x \<in> set us \<Longrightarrow> block szof s x = None"
    "x \<notin> set us \<Longrightarrow> block szof s' x = block szof s x"
  using assms unfolding grown_def preserved_def by auto

lemma tcpip_inv_frame:
  assumes "tcpip_inv szof api count maxi s" "memps_inv szof (tm_pools s')" "tcpip_mbox s' = tcpip_mbox s" "tcpip_msgs s' = tcpip_msgs s"
    "tm_pools s' MEMP_TCPIP_MSG_API = tm_pools s MEMP_TCPIP_MSG_API" "tm_pools s' MEMP_TCPIP_MSG_INPKT = tm_pools s MEMP_TCPIP_MSG_INPKT"
  shows "tcpip_inv szof api count maxi s'"
proof -
  have "msg_live szof s' = msg_live szof s" using assms(5,6) by (auto simp: msg_live_def memp_live_def)
  then show ?thesis using assms(1-4) by (simp add: tcpip_inv_def queued_def)
qed

lemma tcpip_inv_upd_pb [simp]: "tcpip_inv szof api count maxi (upd_pb p f s) = tcpip_inv szof api count maxi s"
  by (simp add: tcpip_inv_def upd_pb_def msg_live_def queued_def)

lemma pool_alloc_ok:
  assumes inv: "pbufs_inv szof s" "tcpip_inv szof api count maxi s"
    and t: "t = MEMP_PBUF_POOL \<and> r = Pool \<or> t = MEMP_PBUF \<and> r = RefPool"
  shows "\<exists>q s'. pool_alloc t r s = Some (q, s') \<and> pbufs_inv szof s' \<and> tcpip_inv szof api count maxi s' \<and> s' = s\<lparr>tm_pools := tm_pools s'\<rparr> \<and>
    (case q of None \<Rightarrow> card (memp_live szof (tm_pools s) t) = memp_num t \<and> grown szof 0 s [] s'
     | Some q \<Rightarrow> fst q = r \<and> snd q mod 4 = 0 \<and> grown szof (szof t) s [q] s' \<and>
         card (memp_live szof (tm_pools s') t) = card (memp_live szof (tm_pools s) t) + 1)"
proof -
  have i: "memps_inv szof (tm_pools s)" and d: "desc_ok (memp_pools szof t)" and sz: "szof MEMP_PBUF_POOL = 144" "szof MEMP_PBUF = 16"
    using inv(1) memp_pools_ok by (auto simp: pbufs_inv_def memps_inv_def)
  obtain q ps where q: "memp_malloc t (tm_pools s) = Some (q, ps)" "memps_inv szof ps" "\<forall>t'. t' \<noteq> t \<longrightarrow> ps t' = tm_pools s t'"
    "case q of
       None \<Rightarrow> card (memp_live szof (tm_pools s) t) = memp_num t \<and> memp_live szof ps t = memp_live szof (tm_pools s) t
     | Some m \<Rightarrow> m \<in> elems (memp_pools szof t) \<and> m \<notin> memp_live szof (tm_pools s) t \<and>
         memp_live szof ps t = insert m (memp_live szof (tm_pools s) t)"
    using memp_malloc_spec [OF i] by blast
  let ?s = "s\<lparr>tm_pools := ps\<rparr>"
  have o: "memp_live szof ps t' = memp_live szof (tm_pools s) t'" if "t' \<noteq> t" for t'
    using q(3) that by (simp add: memp_live_def)
  have I: "pbufs_inv szof ?s" using inv(1) q(2) by (simp add: pbufs_inv_def)
  moreover have "tcpip_inv szof api count maxi ?s"
    by (rule tcpip_inv_frame [OF inv(2)]) (use q(2,3) t in auto)
  moreover have ld: "load ?s a = load s a" for a by (simp add: load_def split: region.splits)
  moreover have "case map_option (Pair r) q of None \<Rightarrow> card (memp_live szof (tm_pools s) t) = memp_num t \<and> grown szof 0 s [] ?s
     | Some q \<Rightarrow> fst q = r \<and> snd q mod 4 = 0 \<and> grown szof (szof t) s [q] ?s \<and>
         card (memp_live szof (tm_pools ?s) t) = card (memp_live szof (tm_pools s) t) + 1"
  proof (cases q)
    case None
    then have "block szof ?s a = block szof s a" for a
      using q(4) o [of MEMP_PBUF] o [of MEMP_PBUF_POOL] t by (cases a; cases "fst a") (auto simp: block_def)
    then show ?thesis using None q(4) I ld by (simp add: grown_def preserved_def)
  next
    case (Some m)
    have b: "block szof ?s a = (if a = (r, m) then Some (szof t) else block szof s a)" for a
      using Some q(4) o [of MEMP_PBUF] o [of MEMP_PBUF_POOL] t sz by (cases a; cases "fst a") (auto simp: block_def)
    moreover have n: "block szof s (r, m) = None" using Some q(4) t by (auto simp: block_def)
    ultimately have "grown szof (szof t) s [(r, m)] ?s"
      using I ld unfolding grown_def preserved_def by (intro conjI allI impI) (auto simp del: split_paired_All)
    moreover have "m mod 4 = 0" using elems_aligned [OF d] q(4) Some by simp
    moreover have "finite (memp_live szof (tm_pools s) t)" by (simp add: memp_live_def pool_live_def)
    ultimately show ?thesis using Some q(4) by simp
  qed
  ultimately show ?thesis using q(1)
    by (intro exI [of _ "map_option (Pair r) q"] exI [of _ ?s] conjI) (simp_all add: pool_alloc_def)
qed

text \<open>Asking the TCP layer for memory touches its message queue only.\<close>

lemma memp_malloc_other: "memp_malloc t ps = Some (r, qs) \<Longrightarrow> t' \<noteq> t \<Longrightarrow> qs t' = ps t'"
  by (auto simp: memp_malloc_def bind_eq_Some_conv)

lemma memp_free_other: "memp_free t (Some m) ps = Some qs \<Longrightarrow> t' \<noteq> t \<Longrightarrow> qs t' = ps t'"
  by (auto simp: memp_free_def bind_eq_Some_conv)

lemma try_send_frame:
  fixes s :: "('h, 'z) pbufs_scheme"
  assumes "try_send api c s = Some (e, s')"
  shows "heap s' = heap s" "memory s' = memory s" "pb s' = pb s" "t \<noteq> msg_pool c \<Longrightarrow> tm_pools s' t = tm_pools s t"
  using assms
  by (auto simp: try_send_def msg_alloc_def mbox_trypost_def msg_free_def set_msg_def bind_eq_Some_conv
      split: option.splits if_splits dest!: memp_malloc_other [of _ _ _ _ t] memp_free_other [of _ _ _ _ t])

lemma pool_is_empty_ok:
  assumes inv: "pbufs_inv szof s" "tcpip_inv szof api count maxi s"
  shows "\<exists>s'. pbuf_pool_is_empty api s = Some s' \<and> grown szof 0 s [] s' \<and> tcpip_inv szof api count maxi s' \<and> pb s' = pb s"
proof -
  have frame: "grown szof 0 s [] t" if "heap t = heap s" "memory t = memory s" "pb t = pb s" "memps_inv szof (tm_pools t)"
    "tm_pools t MEMP_PBUF_POOL = tm_pools s MEMP_PBUF_POOL" "tm_pools t MEMP_PBUF = tm_pools s MEMP_PBUF" for t
  proof -
    have "block szof t a = block szof s a" for a using that(1,5,6) by (cases "fst a") (auto simp: block_def memp_live_def)
    moreover have "load t a = load s a" for a using that(1,2) by (cases "fst a") (auto simp: load_def)
    ultimately show ?thesis using inv(1) that by (simp add: grown_def preserved_def pbufs_inv_def)
  qed
  show ?thesis
  proof (cases "pbuf_free_ooseq_pending s")
    case True
    have "grown szof 0 s [] (s\<lparr>pbuf_free_ooseq_pending := True\<rparr>)" using inv by (intro frame) (simp_all add: pbufs_inv_def)
    moreover have "tcpip_inv szof api count maxi (s\<lparr>pbuf_free_ooseq_pending := True\<rparr>)"
      by (rule tcpip_inv_frame [OF inv(2)]) (use inv in \<open>simp_all add: tcpip_inv_def\<close>)
    ultimately show ?thesis using True by (simp add: pbuf_pool_is_empty_def)
  next
    case False
    let ?s = "s\<lparr>pbuf_free_ooseq_pending := True\<rparr>"
    have "tcpip_inv szof api count maxi ?s" by (rule tcpip_inv_frame [OF inv(2)]) (use inv in \<open>simp_all add: tcpip_inv_def\<close>)
    then obtain e t where t: "try_send api (TCPIP_MSG_CALLBACK pbuf_free_ooseq_fn 0) ?s = Some (e, t)" "tcpip_inv szof api count maxi t"
      using try_send_ok [of szof api count maxi ?s "TCPIP_MSG_CALLBACK pbuf_free_ooseq_fn 0"] by (auto simp: static_msg_def)
    note F = try_send_frame [OF t(1)]
    let ?t = "if e \<noteq> ERR_OK then t\<lparr>pbuf_free_ooseq_pending := False\<rparr> else t"
    have "grown szof 0 s [] ?t" using F t(2) by (intro frame) (auto simp: tcpip_inv_def)
    moreover have "tcpip_inv szof api count maxi ?t" by (rule tcpip_inv_frame [OF t(2)]) (use t(2) in \<open>simp_all add: tcpip_inv_def\<close>)
    moreover have "pb ?t = pb s" using F by simp
    ultimately show ?thesis using t(1) False by (intro exI [of _ ?t]) (simp add: pbuf_pool_is_empty_def try_send_eqs)
  qed
qed

text \<open>A pool chain under construction: \<open>rem_len\<close> bytes are missing at the end.\<close>

fun tots_to :: "('h, 'z) pbufs_scheme \<Rightarrow> nat \<Rightarrow> ptr list \<Rightarrow> bool" where
  "tots_to s n [] \<longleftrightarrow> True"
| "tots_to s n (p # ps) \<longleftrightarrow> pb_tot_len (pb s p) = length (pdata s (p # ps)) + n \<and> tots_to s n ps"

lemma tots_to_append: "tots_to s n (us @ vs) \<longleftrightarrow> tots_to s (length (pdata s vs) + n) us \<and> tots_to s n vs"
  by (induction us) (auto simp: add.assoc)

lemma tots_to_0: "tots_to s 0 ps = tots s ps"
  by (induction ps) simp_all

lemma tots_to_cong:
  assumes "\<And>x. x \<in> set ps \<Longrightarrow> pb_tot_len (pb s' x) = pb_tot_len (pb s x) \<and> pb_len (pb s' x) = pb_len (pb s x)"
  shows "length (pdata s' ps) = length (pdata s ps) \<and> tots_to s' n ps = tots_to s n ps"
  using assms by (induction ps) auto

definition pool_seg :: "(memp_t \<Rightarrow> nat) \<Rightarrow> ('h, 'z) pbufs_scheme \<Rightarrow> ptr \<Rightarrow> ptr list \<Rightarrow> nat \<Rightarrow> bool" where
  "pool_seg szof s p us n \<longleftrightarrow> chain (pb_link s) (Some p) us \<and> tots_to s n us \<and>
     (\<forall>x\<in>set us. live_pbuf szof s x \<and> pb_type (pb s x) = PBUF_POOL \<and> pb_ref (pb s x) = 1 \<and> (0 < pb_tot_len (pb s p) \<longrightarrow> 0 < pb_len (pb s x)))"

lemma chain_link:
  assumes "chain nx p us" "us \<noteq> []" "nx' (last us) = t" "chain nx' t vs" "\<And>x. x \<in> set (butlast us) \<Longrightarrow> nx' x = nx x"
  shows "chain nx' p (us @ vs)"
  using assms
proof (induction us arbitrary: p)
  case (Cons x us)
  then show ?case by (cases "us = []") (simp_all add: chain.simps)
qed simp

lemma last_butlast: "distinct us \<Longrightarrow> us \<noteq> [] \<Longrightarrow> last us \<notin> set (butlast us)"
  by (cases us rule: rev_cases) auto

text \<open>One more pbuf at the end.\<close>

lemma pool_seg_snoc:
  assumes us: "pool_seg szof s p us n" "us \<noteq> []" "0 < n" and q: "q \<notin> set us" "live_pbuf szof s' q"
    "pb s' q = \<lparr>pb_next = None, pb_payload = padd q 16, pb_tot_len = n, pb_len = min n 128, pb_type = PBUF_POOL, pb_flags = fl, pb_ref = 1\<rparr>"
    and b: "\<And>x. x \<in> set us \<Longrightarrow> block szof s' x = block szof s x \<and> pb s' x = (if x = last us then (pb s x)\<lparr>pb_next := Some q\<rparr> else pb s x)"
  shows "pool_seg szof s' p (us @ [q]) (n - min n 128)"
proof -
  have d: "distinct us" using us(1) chain_distinct by (auto simp: pool_seg_def)
  have "chain (pb_link s') (Some p) (us @ [q])"
  proof (rule chain_link [of "pb_link s"])
    show "pb_link s' x = pb_link s x" if "x \<in> set (butlast us)" for x
      using that b [of x] last_butlast [OF d us(2)] in_set_butlastD [OF that] by (auto simp: pb_link_def)
  qed (use us q b [of "last us"] in \<open>auto simp: pool_seg_def pb_link_def\<close>)
  moreover have tot: "pb_tot_len (pb s' p) = pb_tot_len (pb s p)" using us(1) b [of p] by (auto simp: pool_seg_def chain_Some)
  moreover have "tots_to s' n us" using us(1) tots_to_cong [of us s' s n] b by (simp add: pool_seg_def)
  moreover have "live_pbuf szof s' x" if "x \<in> set us" for x
    using us(1) that b [OF that] by (auto simp: pool_seg_def live_pbuf_block has_buffer_def payload_in_def)
  moreover have "pb_type (pb s' x) = PBUF_POOL \<and> pb_ref (pb s' x) = 1 \<and> (0 < pb_tot_len (pb s' p) \<longrightarrow> 0 < pb_len (pb s' x))" if "x \<in> set us" for x
    using us(1) that b [OF that] tot by (auto simp: pool_seg_def)
  ultimately show ?thesis using q us(2,3) by (auto simp: pool_seg_def tots_to_append)
qed

lemma grown_trans:
  assumes "grown szof n s us t" "grown szof n t vs u"
  shows "grown szof n s (us @ vs) u"
proof -
  have B: "block szof t p = (if p \<in> set us then Some n else block szof s p)" "block szof u p = (if p \<in> set vs then Some n else block szof t p)" for p
    using assms unfolding grown_def by blast+
  have fresh: "x \<in> set us \<Longrightarrow> block szof s x = None" "x \<in> set vs \<Longrightarrow> block szof t x = None" for x
    using assms unfolding grown_def by blast+
  have K: "block szof s p = Some m \<Longrightarrow> block szof t p = Some m \<and> pb t p = pb s p \<and> (\<forall>i<m. load t (padd p i) = load s (padd p i))"
    "block szof t p = Some m \<Longrightarrow> block szof u p = Some m \<and> pb u p = pb t p \<and> (\<forall>i<m. load u (padd p i) = load t (padd p i))" for p m
    using assms unfolding grown_def preserved_def by blast+
  have "preserved szof s u" using K assms unfolding preserved_def grown_def by auto
  moreover have "block szof s x = None" if "x \<in> set vs" for x using fresh(2) [OF that] B(1) [of x] by (auto split: if_splits)
  ultimately show ?thesis using B fresh(1) unfolding grown_def by auto
qed

lemma grown_empty: "grown szof 0 s [] t \<Longrightarrow> grown szof n s [] t"
  by (simp add: grown_def)

lemma released_frame:
  assumes "released szof s A s'"
  shows "tcpip_mbox s' = tcpip_mbox s" "tcpip_msgs s' = tcpip_msgs s" "memory s' = memory s"
proof -
  have e: "s' = s\<lparr>tm_pools := tm_pools s', heap := heap s', pb := pb s'\<rparr>" using assms by (simp add: released_def)
  show "tcpip_mbox s' = tcpip_mbox s" "tcpip_msgs s' = tcpip_msgs s" "memory s' = memory s" by (subst e, simp)+
qed

lemma released_tcpip:
  assumes "released szof s A s'" "tcpip_inv szof api count maxi s"
  shows "tcpip_inv szof api count maxi s'"
proof -
  note f = released_frame [OF assms(1)]
  show ?thesis using assms by (intro tcpip_inv_frame [OF assms(2)]) (auto simp: f released_def pbufs_inv_def)
qed

text \<open>Freeing all that was allocated.\<close>

lemma grown_released:
  assumes g: "grown szof n s us t" and r: "released szof t (set us) u" and pb: "pb u = unref A (pb t)" "A \<subseteq> set us"
  shows "grown szof n s [] u"
proof -
  have B: "block szof u p = block szof s p" for p
    using released_block [OF r, of p] grownD(3,4) [OF g, of p] by auto
  have "preserved szof s u"
    unfolding preserved_def
  proof (intro conjI allI impI)
    show "pbufs_inv szof u" by (rule released_inv [OF r])
    show "memory u Ext = memory s Ext" using g released_frame(3) [OF r] by (simp add: grown_def preserved_def)
    fix p m assume p: "block szof s p = Some m"
    then have nin: "p \<notin> set us" using grownD(3) [OF g, of p] by auto
    have K: "block szof t p = Some m" "pb t p = pb s p" "\<And>i. i < m \<Longrightarrow> load t (padd p i) = load s (padd p i)"
      using g p unfolding grown_def preserved_def by blast+
    show "block szof u p = Some m" using B p by simp
    then show "load u (padd p i) = load s (padd p i)" if "i < m" for i using released_load [OF r, of p m i] K(3) that by simp
    have "p \<notin> A" using nin pb(2) by blast
    then show "pb u p = pb s p" using K(2) pb(1) by (simp add: unref_def)
  qed
  then show ?thesis using B by (simp add: grown_def)
qed

lemma pool_seg_free:
  assumes "pbufs_inv szof s" "pool_seg szof s p us n"
  shows "\<exists>m s'. pbuf_free cf (Some p) s = Some (m, s') \<and> released szof s (set us) s' \<and> pb s' = unref (set us) (pb s)"
proof -
  have us: "chain (pb_link s) (Some p) us" "\<forall>x\<in>set us. pb_ref (pb s x) = 1" "\<forall>x\<in>set us. live_pbuf szof s x"
    using assms(2) by (auto simp: pool_seg_def)
  then have d: "dead s us = us" by (simp add: dead_def)
  show ?thesis using free_loop_released [OF assms(1) us(1), of 0 cf] us(2,3) unfolding d by (simp add: pbuf_free_def) blast
qed

lemma pool_seg_same:
  assumes "pb t = pb s" "\<And>x. block szof t x = block szof s x"
  shows "pool_seg szof t p us n = pool_seg szof s p us n"
proof -
  have "live_pbuf szof t x = live_pbuf szof s x" for x using assms by (simp add: live_pbuf_block has_buffer_def payload_in_def)
  moreover have "pb_link t = pb_link s" by (rule ext) (simp add: pb_link_def assms(1))
  ultimately show ?thesis using tots_to_cong [of us t s n] by (simp add: pool_seg_def assms(1))
qed

text \<open>When the pool runs empty, the part of the chain built so far is given back.\<close>

lemma pool_chain_fail:
  assumes inv: "tcpip_inv szof api count maxi t" and g: "grown szof 144 s0 us t" and us: "pool_seg szof t p us n"
  shows "\<exists>s1 m s2. pbuf_pool_is_empty api t = Some s1 \<and> pbuf_free cf (Some p) s1 = Some (m, s2) \<and>
    tcpip_inv szof api count maxi s2 \<and> grown szof 144 s0 [] s2"
proof -
  obtain s1 where s1: "pbuf_pool_is_empty api t = Some s1" "grown szof 0 t [] s1" "tcpip_inv szof api count maxi s1" "pb s1 = pb t"
    using pool_is_empty_ok [OF grownD(1) [OF g] inv] by blast
  have "block szof s1 x = block szof t x" for x using grownD(4) [OF s1(2), of x] by simp
  then have "pool_seg szof s1 p us n" using us pool_seg_same [OF s1(4)] by blast
  then obtain m s2 where s2: "pbuf_free cf (Some p) s1 = Some (m, s2)" "released szof s1 (set us) s2" "pb s2 = unref (set us) (pb s1)"
    using pool_seg_free [OF grownD(1) [OF s1(2)]] by blast
  have "grown szof 144 s0 us s1" using grown_trans [OF g grown_empty [OF s1(2)]] by simp
  then have "grown szof 144 s0 [] s2" using grown_released [OF _ s2(2,3)] by simp
  then show ?thesis using s1(1,3) s2(1) released_tcpip [OF s2(2)] by blast
qed

text \<open>The pbuf that a round of the loop adds.\<close>

definition linked_state :: "ptr \<Rightarrow> ptr \<Rightarrow> nat \<Rightarrow> ('h, 'z) pbufs_scheme \<Rightarrow> ('h, 'z) pbufs_scheme" where
  "linked_state r q n s = upd_pb q (\<lambda>b. b\<lparr>pb_tot_len := n, pb_len := min n 128, pb_payload := padd q 16, pb_ref := 1\<rparr>)
     (upd_pb r (\<lambda>b. b\<lparr>pb_next := Some q\<rparr>) (upd_pb q (\<lambda>b. b\<lparr>pb_type := PBUF_POOL, pb_flags := 0, pb_next := None\<rparr>) s))"

lemma upd_pb_upd_pb: "upd_pb p f (upd_pb p g s) = upd_pb p (\<lambda>b. f (g b)) s"
  by (simp add: upd_pb_def)

lemma pool_chain_step:
  assumes "pool_alloc MEMP_PBUF_POOL Pool s = Some (Some q, t)" "0 < n" "n < 65535" "payload_fits p (pb t p)" "q \<noteq> p" "q \<noteq> r" "snd q mod 4 = 0"
  shows "pool_chain api cf p r n s = pool_chain api cf p q (n - min n 128) (linked_state r q n t)"
proof -
  have "snd (padd q 16) mod 4 = 0" using assms(7) by (simp add: padd_def mod_simps) presburger
  moreover have "payload_fits p (pb (linked_state r q n t) p)" using assms(4-6) by (auto simp: linked_state_def payload_fits_def)
  ultimately show ?thesis
    using assms(1-6) by (subst pool_chain.simps) (cases "p = r"; simp add: linked_state_def upd_pb_upd_pb u16_id payload_fits_def MEM_ALIGNMENT_def Let_def)
qed

lemma linked_seg:
  assumes g: "grown szof 144 s0 us s" and us: "pool_seg szof s p us n" "us \<noteq> []" "0 < n" and q: "grown szof 144 s [q] t" "fst q = Pool" "pb t = pb s"
  shows "grown szof 144 s0 (us @ [q]) (linked_state (last us) q n t)" "pool_seg szof (linked_state (last us) q n t) p (us @ [q]) (n - min n 128)"
    "\<forall>x\<in>set us. \<exists>m. pb (linked_state (last us) q n t) x = (pb s x)\<lparr>pb_next := m\<rparr>"
proof -
  let ?s = "linked_state (last us) q n t"
  have new: "q \<notin> set us" using grownD(2) [OF g, of q] grownD(3) [OF q(1), of q] by auto
  then have ne: "q \<noteq> last us" using us(2) by auto
  have last: "fst (last us) = Pool" using us(1,2) by (auto simp: pool_seg_def live_pbuf_block)
  have fl: "pb_flags (pb t x) AND PBUF_FLAG_IS_CUSTOM = 0" if "fst x = Pool" for x using pool_flags [OF grownD(1) [OF q(1)] that] .
  have gt: "grown szof 144 s0 (us @ [q]) t" using grown_trans [OF g q(1)] .
  then show "grown szof 144 s0 (us @ [q]) ?s"
    unfolding linked_state_def using us(2) fl [OF last] ne by (intro grown_upd_pb) auto
  have B: "block szof ?s x = block szof t x" for x by (simp add: linked_state_def)
  have b: "block szof t x = block szof s x" if "x \<in> set us" for x using grownD(4) [OF q(1), of x] that new by auto
  have pbq: "pb ?s q = \<lparr>pb_next = None, pb_payload = padd q 16, pb_tot_len = n, pb_len = min n 128, pb_type = PBUF_POOL, pb_flags = 0, pb_ref = 1\<rparr>"
    using ne by (simp add: linked_state_def)
  have "live_pbuf szof ?s q" using grownD(2) [OF q(1), of q] pbq q(2) B
    by (simp add: live_pbuf_block has_buffer_def payload_in_def padd_def)
  then show "pool_seg szof ?s p (us @ [q]) (n - min n 128)"
    using new ne b B q(3) by (intro pool_seg_snoc [OF us new _ pbq]) (auto simp: linked_state_def)
  show "\<forall>x\<in>set us. \<exists>m. pb ?s x = (pb s x)\<lparr>pb_next := m\<rparr>"
  proof
    fix x assume "x \<in> set us"
    then have "x \<noteq> q" using new by auto
    then have "pb ?s x = (pb s x)\<lparr>pb_next := if x = last us then Some q else pb_next (pb s x)\<rparr>" using q(3) by (simp add: linked_state_def)
    then show "\<exists>m. pb ?s x = (pb s x)\<lparr>pb_next := m\<rparr>" by blast
  qed
qed

lemma pool_chain_ok:
  assumes "tcpip_inv szof api count maxi s" "grown szof 144 s0 us s" "pool_seg szof s p us n" "us \<noteq> []" "n < 65535"
  shows "\<exists>ok s'. pool_chain api cf p (last us) n s = Some (ok, s') \<and> tcpip_inv szof api count maxi s' \<and>
    (ok \<longleftrightarrow> card (memp_live szof (tm_pools s) MEMP_PBUF_POOL) + (n + 127) div 128 \<le> 160) \<and>
    (if ok then \<exists>vs. grown szof 144 s0 (us @ vs) s' \<and> pool_seg szof s' p (us @ vs) 0 \<and> (\<forall>x\<in>set us. \<exists>m. pb s' x = (pb s x)\<lparr>pb_next := m\<rparr>)
     else grown szof 144 s0 [] s')"
  using assms
proof (induction n arbitrary: us s rule: less_induct)
  case (less n)
  let ?live = "\<lambda>s. card (memp_live szof (tm_pools s) MEMP_PBUF_POOL)"
  have inv: "pbufs_inv szof s" using grownD(1) [OF less.prems(2)] .
  have cap: "?live s \<le> 160" using memp.live_cap [of szof "tm_pools s" MEMP_PBUF_POOL] inv by (simp add: pbufs_inv_def)
  show ?case
  proof (cases "n = 0")
    case True
    have "\<exists>m. pb s x = (pb s x)\<lparr>pb_next := m\<rparr>" for x by (rule exI [of _ "pb_next (pb s x)"]) simp
    then have "\<exists>vs. grown szof 144 s0 (us @ vs) s \<and> pool_seg szof s p (us @ vs) 0 \<and> (\<forall>x\<in>set us. \<exists>m. pb s x = (pb s x)\<lparr>pb_next := m\<rparr>)"
      using True less.prems by (intro exI [of _ "[]"]) simp
    then show ?thesis using True less.prems(1) cap by (subst pool_chain.simps) auto
  next
    case False
    obtain q t where t: "pool_alloc MEMP_PBUF_POOL Pool s = Some (q, t)" "tcpip_inv szof api count maxi t" "t = s\<lparr>tm_pools := tm_pools t\<rparr>"
      "case q of None \<Rightarrow> ?live s = memp_num MEMP_PBUF_POOL \<and> grown szof 0 s [] t
       | Some q \<Rightarrow> fst q = Pool \<and> snd q mod 4 = 0 \<and> grown szof (szof MEMP_PBUF_POOL) s [q] t \<and> ?live t = ?live s + 1"
      using pool_alloc_ok [OF inv less.prems(1), of MEMP_PBUF_POOL Pool] by auto
    have pbt: "pb t = pb s" by (subst t(3)) simp
    show ?thesis
    proof (cases q)
      case None
      then have g: "grown szof 144 s0 us t" "\<And>x. block szof t x = block szof s x" "?live s = 160"
        using grown_trans [OF less.prems(2) grown_empty, of t] t(4) grownD(4) [of szof 0 s "[]" t] by auto
      have "pool_seg szof t p us n" using less.prems(3) pool_seg_same [OF pbt g(2)] by simp
      then obtain s1 m s2 where "pbuf_pool_is_empty api t = Some s1" "pbuf_free cf (Some p) s1 = Some (m, s2)"
        "tcpip_inv szof api count maxi s2" "grown szof 144 s0 [] s2"
        using pool_chain_fail [OF t(2) g(1)] by blast
      then show ?thesis using None False t(1) g(3) by (subst pool_chain.simps) simp
    next
      case (Some a)
      then have a: "fst a = Pool" "snd a mod 4 = 0" "grown szof 144 s [a] t" "?live t = ?live s + 1"
        using t(4) inv by (auto simp: pbufs_inv_def)
      let ?s = "linked_state (last us) a n t"
      have n0: "0 < n" using False by simp
      note L = linked_seg [OF less.prems(2,3,4) n0 a(3,1) pbt]
      have p: "live_pbuf szof s p" "pb_type (pb s p) = PBUF_POOL" "p \<in> set us" using less.prems(3,4) by (auto simp: pool_seg_def chain_Some)
      have "a \<notin> set us" using grownD(2) [OF less.prems(2), of a] grownD(3) [OF a(3), of a] by auto
      then have a': "a \<noteq> last us" "a \<noteq> p" using less.prems(4) p(3) by auto
      have "payload_fits p (pb t p)" using p grownD(2) [OF less.prems(2), of p] pbt
        by (auto simp: live_pbuf_block has_buffer_def payload_in_def payload_fits_def)
      then have eq: "pool_chain api cf p (last us) n s = pool_chain api cf p a (n - min n 128) ?s"
        using pool_chain_step [of s a t n p "last us"] t(1) Some False less.prems(5) a' a(2) by simp
      have "?live ?s = ?live s + 1" using a(4) by (simp add: linked_state_def)
      moreover have "tcpip_inv szof api count maxi ?s" using t(2) by (simp add: linked_state_def)
      moreover have "n - min n 128 < n" "n - min n 128 < 65535" using False less.prems(5) by auto
      ultimately obtain ok s' where s': "pool_chain api cf p a (n - min n 128) ?s = Some (ok, s')" "tcpip_inv szof api count maxi s'"
        "ok \<longleftrightarrow> ?live s + 1 + (n - min n 128 + 127) div 128 \<le> 160"
        "if ok then \<exists>vs. grown szof 144 s0 ((us @ [a]) @ vs) s' \<and> pool_seg szof s' p ((us @ [a]) @ vs) 0 \<and>
             (\<forall>x\<in>set (us @ [a]). \<exists>m. pb s' x = (pb ?s x)\<lparr>pb_next := m\<rparr>)
         else grown szof 144 s0 [] s'"
        using less.IH [of "n - min n 128" ?s "us @ [a]"] L less.prems(5) by auto
      have "(n + 127) div 128 = 1 + (n - min n 128 + 127) div 128" using False by (cases "n < 128") auto
      then have ok: "ok \<longleftrightarrow> ?live s + (n + 127) div 128 \<le> 160" using s'(3) by simp
      have "\<exists>vs. grown szof 144 s0 (us @ vs) s' \<and> pool_seg szof s' p (us @ vs) 0 \<and> (\<forall>x\<in>set us. \<exists>m. pb s' x = (pb s x)\<lparr>pb_next := m\<rparr>)" if k: ok
      proof -
        obtain vs where vs: "grown szof 144 s0 (us @ a # vs) s'" "pool_seg szof s' p (us @ a # vs) 0"
          "\<forall>x\<in>set us. \<exists>m. pb s' x = (pb ?s x)\<lparr>pb_next := m\<rparr>" using s'(4) k by auto
        have "\<exists>m. pb s' x = (pb s x)\<lparr>pb_next := m\<rparr>" if "x \<in> set us" for x
          using vs(3) L(3) less.prems(5) that by fastforce
        then show ?thesis using vs(1,2) by blast
      qed
      then show ?thesis using eq s'(1,2,4) ok by (intro exI [of _ ok] exI [of _ s']) simp
    qed
  qed
qed

text \<open>A chain of new pbufs of \<open>len\<close> bytes, with room for the headers of the layer in front.\<close>

definition alloced :: "(memp_t \<Rightarrow> nat) \<Rightarrow> pbuf_layer \<Rightarrow> nat \<Rightarrow> pbuf_type \<Rightarrow> ('h, 'z) pbufs_scheme \<Rightarrow> ptr \<Rightarrow> ('h, 'z) pbufs_scheme \<Rightarrow> bool" where
  "alloced szof layer len type s p s' \<longleftrightarrow> (\<exists>ps n. grown szof n s ps s' \<and> packet s' (Some p) ps \<and> length (pdata s' ps) = len \<and>
     (type \<noteq> PBUF_POOL \<longrightarrow> ps = [p]) \<and> (\<forall>x\<in>set ps. live_pbuf szof s' x \<and> pb_type (pb s' x) = type \<and> pb_ref (pb s' x) = 1 \<and> (0 < len \<longrightarrow> 0 < pb_len (pb s' x)))) \<and>
     (has_buffer s' p \<longrightarrow> snd p + 16 + layer_offset layer \<le> snd (pb_payload (pb s' p)) \<and> snd (pb_payload (pb s' p)) mod 4 = 0)"

definition ram_size :: "pbuf_layer \<Rightarrow> nat \<Rightarrow> nat" where
  "ram_size layer len = LWIP_MEM_ALIGN_SIZE (16 + layer_offset layer) + LWIP_MEM_ALIGN_SIZE len"

definition no_room :: "(memp_t \<Rightarrow> nat) \<Rightarrow> pbuf_layer \<Rightarrow> nat \<Rightarrow> pbuf_type \<Rightarrow> ('h, 'z) pbufs_scheme \<Rightarrow> bool" where
  "no_room szof layer len type s =
     (case type of
        PBUF_RAM \<Rightarrow> \<forall>b\<in>mem_blocks (heap s). b < MEM_SIZE_ALIGNED \<longrightarrow> \<not> fits (heap s) (mem_round (ram_size layer len)) b
      | PBUF_POOL \<Rightarrow> 160 < card (memp_live szof (tm_pools s) MEMP_PBUF_POOL) + 1 + (len - (128 - layer_offset layer) + 127) div 128
      | _ \<Rightarrow> card (memp_live szof (tm_pools s) MEMP_PBUF) = memp_num MEMP_PBUF)"

lemma layer_offset_bound: "layer_offset l \<le> 56" "layer_offset l mod 4 = 0"
  by (cases l; simp)+

lemma alloc_single:
  assumes g: "grown szof n s [p] t" and b: "f (pb t p) = \<lparr>pb_next = None, pb_payload = a, pb_tot_len = len, pb_len = len, pb_type = type, pb_flags = 0, pb_ref = 1\<rparr>"
    and r: "fst p = type_region type" "len < 65536"
    and a: "type = PBUF_RAM \<or> type = PBUF_POOL \<longrightarrow> fst a = fst p \<and> snd p + 16 + layer_offset layer \<le> snd a \<and> snd a + len \<le> snd p + n \<and> snd a mod 4 = 0"
  shows "alloced szof layer len type s p (upd_pb p f t)"
proof -
  let ?s = "upd_pb p f t"
  have g': "grown szof n s [p] ?s" using b by (intro grown_upd_pb [OF g]) simp_all
  have pb: "pb ?s p = \<lparr>pb_next = None, pb_payload = a, pb_tot_len = len, pb_len = len, pb_type = type, pb_flags = 0, pb_ref = 1\<rparr>"
    using b by simp
  have "packet ?s (Some p) [p]" using pb r(2) by (simp add: packet_def)
  moreover have "live_pbuf szof ?s p" using grownD(2) [OF g', of p] pb r(1) a
    by (auto simp: live_pbuf_block has_buffer_def payload_in_def)
  ultimately show ?thesis using g' pb a
    unfolding alloced_def by (intro conjI exI [of _ "[p]"] exI [of _ n]) (auto simp: has_buffer_def)
qed

definition alloc_post :: "(memp_t \<Rightarrow> nat) \<Rightarrow> 'h win32 \<Rightarrow> ('h \<Rightarrow> nat) \<Rightarrow> ('h \<Rightarrow> nat) \<Rightarrow> pbuf_layer \<Rightarrow> nat \<Rightarrow> pbuf_type \<Rightarrow>
    ('h, 'z) pbufs_scheme \<Rightarrow> ptr option \<Rightarrow> ('h, 'z) pbufs_scheme \<Rightarrow> bool" where
  "alloc_post szof api count maxi layer len type s r s' \<longleftrightarrow> tcpip_inv szof api count maxi s' \<and>
     (r = None \<longleftrightarrow> no_room szof layer len type s) \<and>
     (case r of None \<Rightarrow> grown szof 0 s [] s' | Some p \<Rightarrow> alloced szof layer len type s p s')"

lemma alloc_ref_ok:
  assumes inv: "pbufs_inv szof s" "tcpip_inv szof api count maxi s" and len: "len < 65536" and type: "type = PBUF_ROM \<or> type = PBUF_REF"
  shows "\<exists>r s'. pbuf_alloc api cf layer len type s = Some (r, s') \<and> alloc_post szof api count maxi layer len type s r s'"
proof -
  obtain q t where t: "pool_alloc MEMP_PBUF RefPool s = Some (q, t)" "tcpip_inv szof api count maxi t"
    "case q of None \<Rightarrow> card (memp_live szof (tm_pools s) MEMP_PBUF) = memp_num MEMP_PBUF \<and> grown szof 0 s [] t
     | Some q \<Rightarrow> fst q = RefPool \<and> snd q mod 4 = 0 \<and> grown szof (szof MEMP_PBUF) s [q] t \<and>
         card (memp_live szof (tm_pools t) MEMP_PBUF) = card (memp_live szof (tm_pools s) MEMP_PBUF) + 1"
    using pool_alloc_ok [OF inv, of MEMP_PBUF RefPool] by auto
  show ?thesis
  proof (cases q)
    case None
    then show ?thesis using t type by (auto simp: pbuf_alloc_def pbuf_alloc_ref_def alloc_post_def no_room_def)
  next
    case (Some p)
    let ?f = "\<lambda>b. b\<lparr>pb_payload := NULLP, pb_len := len, pb_tot_len := len, pb_next := None, pb_type := type, pb_ref := 1, pb_flags := 0\<rparr>"
    have "alloced szof layer len type s p (upd_pb p ?f t)"
      using t(3) Some type len by (intro alloc_single [of szof "szof MEMP_PBUF" s p t ?f NULLP]) auto
    moreover have "pbuf_alloc api cf layer len type s = Some (Some p, upd_pb p ?f t)"
      using t(1) Some type by (auto simp: pbuf_alloc_def pbuf_alloc_ref_def upd_pb_upd_pb)
    moreover have "card (memp_live szof (tm_pools t) MEMP_PBUF) \<le> memp_num MEMP_PBUF"
      using memp.live_cap [of szof "tm_pools t" MEMP_PBUF] t(2) by (simp add: tcpip_inv_def)
    ultimately show ?thesis using t(2,3) Some type by (auto simp: alloc_post_def no_room_def)
  qed
qed

lemma malloc_grown:
  assumes inv: "pbufs_inv szof s" "tcpip_inv szof api count maxi s" and post: "malloc_post sz (heap s) r h"
  shows "tcpip_inv szof api count maxi (s\<lparr>heap := h\<rparr>)"
    "case r of None \<Rightarrow> grown szof 0 s [] (s\<lparr>heap := h\<rparr>) \<and> (\<forall>b\<in>mem_blocks (heap s). b < MEM_SIZE_ALIGNED \<longrightarrow> \<not> fits (heap s) (mem_round sz) b)
     | Some a \<Rightarrow> \<exists>n. mem_round sz \<le> n \<and> nat a mod 4 = 0 \<and> grown szof n s [(Heap, nat a)] (s\<lparr>heap := h\<rparr>) \<and>
         (\<exists>b\<in>mem_blocks (heap s). b < MEM_SIZE_ALIGNED \<and> fits (heap s) (mem_round sz) b)"
proof -
  let ?s = "s\<lparr>heap := h\<rparr>"
  show "tcpip_inv szof api count maxi ?s"
    by (rule tcpip_inv_frame [OF inv(2)]) (use inv in \<open>simp_all add: pbufs_inv_def\<close>)
  have I: "pbufs_inv szof ?s" using inv(1) post by (simp add: pbufs_inv_def malloc_post_def)
  have ld: "load ?s (padd p i) = load s (padd p i)" if "block szof s p = Some n" "i < n" for p n i
    using that post by (cases "fst p") (auto simp: load_def block_def padd_def malloc_post_def)
  have bl: "block szof ?s p = (case fst p of Heap \<Rightarrow> mem_live h (snd p) | _ \<Rightarrow> block szof s p)" for p
    by (cases "fst p") (simp_all add: block_def)
  show "case r of None \<Rightarrow> grown szof 0 s [] ?s \<and> (\<forall>b\<in>mem_blocks (heap s). b < MEM_SIZE_ALIGNED \<longrightarrow> \<not> fits (heap s) (mem_round sz) b)
     | Some a \<Rightarrow> \<exists>n. mem_round sz \<le> n \<and> nat a mod 4 = 0 \<and> grown szof n s [(Heap, nat a)] ?s \<and>
         (\<exists>b\<in>mem_blocks (heap s). b < MEM_SIZE_ALIGNED \<and> fits (heap s) (mem_round sz) b)"
  proof (cases r)
    case None
    then have "block szof ?s p = block szof s p" for p using post bl [of p] by (cases "fst p") (simp_all add: malloc_post_def block_def)
    then show ?thesis using None post I ld by (simp add: grown_def preserved_def malloc_post_def)
  next
    case (Some a)
    then obtain b n where b: "b \<in> mem_blocks (heap s)" "a = int (b + 8)" "b mod 4 = 0" "mem_round sz \<le> n" "b + 8 + n \<le> MEM_SIZE_ALIGNED"
      "fits (heap s) (mem_round sz) b" "mem_live (heap s) (b + 8) = None" "mem_live h = (mem_live (heap s))(b + 8 \<mapsto> n)"
      using post by (auto simp: malloc_post_def MEM_ALIGNMENT_def)
    have "(b + 8) mod 4 = 0" using b(3) by presburger
    moreover have a: "nat a = b + 8" using b(2) by simp
    ultimately have a4: "nat a mod 4 = 0" by simp
    have B: "block szof ?s p = (if p = (Heap, nat a) then Some n else block szof s p)" for p
      using bl [of p] b(8) a by (cases p; cases "fst p") (auto simp: block_def)
    have new: "block szof s (Heap, nat a) = None" using b(7) a by (simp add: block_def)
    have "preserved szof s ?s" using I ld B new unfolding preserved_def by auto
    then have "grown szof n s [(Heap, nat a)] ?s" using B new by (simp add: grown_def)
    moreover have "b < MEM_SIZE_ALIGNED" using b(5) by simp
    ultimately show ?thesis unfolding Some option.case using b(1,4,6) a4 by (intro exI [of _ n] conjI bexI [of _ b])
  qed
qed

lemma align_bounds:
  assumes "m < 65000"
  shows "m \<le> LWIP_MEM_ALIGN_SIZE m" "LWIP_MEM_ALIGN_SIZE m mod 4 = 0" "a mod 4 = 0 \<Longrightarrow> a + m < 65000 \<Longrightarrow> LWIP_MEM_ALIGN_SIZE (a + m) = a + LWIP_MEM_ALIGN_SIZE m"
proof -
  show "m \<le> LWIP_MEM_ALIGN_SIZE m" "LWIP_MEM_ALIGN_SIZE m mod 4 = 0" using assms by (simp_all add: align_size)
  show "LWIP_MEM_ALIGN_SIZE (a + m) = a + LWIP_MEM_ALIGN_SIZE m" if "a mod 4 = 0" "a + m < 65000"
  proof -
    obtain k where "a = 4 * k" using \<open>a mod 4 = 0\<close> by (auto elim: dvdE simp: mod_eq_0_iff_dvd)
    then show ?thesis using that(2) assms by (simp add: align_size add.assoc)
  qed
qed

lemma mod4_add: "a mod 4 = 0 \<Longrightarrow> b mod 4 = 0 \<Longrightarrow> (a + (16 + b)) mod 4 = (0::nat)"
  by presburger

lemma aligned_align: "a mod 4 = 0 \<Longrightarrow> a < 65000 \<Longrightarrow> LWIP_MEM_ALIGN_SIZE a = a"
  using align_bounds(3) [of 0 a] by (simp add: align_size)

lemma alloc_ram_ok:
  assumes inv: "pbufs_inv szof s" "tcpip_inv szof api count maxi s" and len: "len < 65536" "ram_size layer len \<le> 65532"
  shows "\<exists>r s'. pbuf_alloc api cf layer len PBUF_RAM s = Some (r, s') \<and> alloc_post szof api count maxi layer len PBUF_RAM s r s'"
proof -
  let ?sz = "ram_size layer len" and ?o = "layer_offset layer"
  have o: "LWIP_MEM_ALIGN_SIZE (16 + ?o) = 16 + ?o" by (cases layer) (simp_all add: align_size)
  have l: "len \<le> LWIP_MEM_ALIGN_SIZE len" using len(1) by (simp add: align_size)
  have sz: "0 < ?sz" "?sz < 65536" "?sz = 16 + ?o + LWIP_MEM_ALIGN_SIZE len" using len o by (simp_all add: ram_size_def)
  obtain r h where h: "mem_malloc ?sz (heap s) = Some (r, h)" "malloc_post ?sz (heap s) r h"
    using mem_malloc_spec [OF _ sz(1,2), of "heap s"] inv(1) by (auto simp: pbufs_inv_def)
  note G = malloc_grown [OF inv h(2)]
  have call: "mem_malloc (u16 (LWIP_MEM_ALIGN_SIZE (16 + ?o) + LWIP_MEM_ALIGN_SIZE len)) (heap s) = Some (r, h)"
    using h(1) sz(2) by (simp add: ram_size_def u16_id)
  show ?thesis
  proof (cases r)
    case None
    then show ?thesis using G call by (auto simp: pbuf_alloc_def pbuf_alloc_ram_def alloc_post_def no_room_def)
  next
    case (Some a)
    let ?p = "(Heap, nat a)" and ?t = "s\<lparr>heap := h\<rparr>"
    obtain n where n: "mem_round ?sz \<le> n" "nat a mod 4 = 0" "grown szof n s [?p] ?t"
      "\<exists>b\<in>mem_blocks (heap s). b < MEM_SIZE_ALIGNED \<and> fits (heap s) (mem_round ?sz) b"
      using G(2) unfolding Some option.case by (elim exE conjE) (rule that)
    have "mem_inv h" "mem_live h (nat a) = Some n" using grownD(1,2) [OF n(3)] by (auto simp: pbufs_inv_def block_def)
    then have small: "nat a + n \<le> 10240" by (rule live_bounds)
    have al: "LWIP_MEM_ALIGN_SIZE (nat a + (16 + ?o)) = nat a + (16 + ?o)"
      using align_bounds(3) [of "16 + ?o" "nat a"] layer_offset_bound [of layer] n(2) small o by simp
    have m4: "(nat a + (16 + ?o)) mod 4 = 0" by (rule mod4_add [OF n(2) layer_offset_bound(2)])
    let ?a = "(Heap, nat a + (16 + ?o))"
    let ?f = "\<lambda>b. b\<lparr>pb_payload := ?a, pb_len := len, pb_tot_len := len, pb_next := None, pb_type := PBUF_RAM, pb_ref := 1, pb_flags := 0\<rparr>"
    have "alloced szof layer len PBUF_RAM s ?p (upd_pb ?p ?f ?t)"
      using n(1) m4 l mem_round_props(3) [OF sz(2)] len sz(3) by (intro alloc_single [OF n(3), of ?f ?a]) auto
    moreover have "pbuf_alloc api cf layer len PBUF_RAM s = Some (Some ?p, upd_pb ?p ?f ?t)"
      using call Some al m4 by (simp add: pbuf_alloc_def pbuf_alloc_ram_def upd_pb_upd_pb palign_def padd_def add.assoc MEM_ALIGNMENT_def Let_def)
    ultimately show ?thesis using G(1) n(4) Some by (auto simp: alloc_post_def no_room_def)
  qed
qed

lemma pool_elem_bound:
  assumes "pbufs_inv szof s" "a \<in> memp_live szof (tm_pools s) MEMP_PBUF_POOL"
  shows "a < 23040"
proof -
  have "elems (memp_pools szof MEMP_PBUF_POOL) = (\<lambda>i. i * 144) ` {..<memp_num MEMP_PBUF_POOL}"
    using assms(1) by (simp add: elems_def memp_pools_def mempool_desc_def pbufs_inv_def align_size)
  then show ?thesis using assms(2) by (auto simp: memp_live_def pool_live_def)
qed

lemma pool_seg_flags:
  assumes "pool_seg szof s p us n"
  shows "pool_seg szof (upd_pb p (\<lambda>b. b\<lparr>pb_ref := 1, pb_flags := 0\<rparr>) s) p us n"
proof -
  let ?s = "upd_pb p (\<lambda>b. b\<lparr>pb_ref := 1, pb_flags := 0\<rparr>) s"
  have "pb_link ?s = pb_link s" by (rule ext) (simp add: pb_link_def)
  moreover have "tots_to ?s n us = tots_to s n us" using tots_to_cong [of us ?s s n] by simp
  moreover have "live_pbuf szof ?s x" if "live_pbuf szof s x" for x
    using that by (auto simp: live_pbuf_block has_buffer_def payload_in_def)
  ultimately show ?thesis using assms by (auto simp: pool_seg_def)
qed

lemma alloc_pool_ok:
  assumes inv: "pbufs_inv szof s" "tcpip_inv szof api count maxi s" and len: "len < 65536"
  shows "\<exists>r s'. pbuf_alloc api cf layer len PBUF_POOL s = Some (r, s') \<and> alloc_post szof api count maxi layer len PBUF_POOL s r s'"
proof -
  let ?o = "layer_offset layer" and ?live = "\<lambda>s. card (memp_live szof (tm_pools s) MEMP_PBUF_POOL)"
  note o = layer_offset_bound [of layer]
  have ao: "LWIP_MEM_ALIGN_SIZE ?o = ?o" by (cases layer) (simp_all add: align_size)
  obtain q t where t: "pool_alloc MEMP_PBUF_POOL Pool s = Some (q, t)" "tcpip_inv szof api count maxi t" "pbufs_inv szof t"
    "case q of None \<Rightarrow> ?live s = memp_num MEMP_PBUF_POOL \<and> grown szof 0 s [] t
     | Some q \<Rightarrow> fst q = Pool \<and> snd q mod 4 = 0 \<and> grown szof (szof MEMP_PBUF_POOL) s [q] t \<and> ?live t = ?live s + 1"
    using pool_alloc_ok [OF inv, of MEMP_PBUF_POOL Pool] by auto
  show ?thesis
  proof (cases q)
    case None
    obtain s1 where s1: "pbuf_pool_is_empty api t = Some s1" "grown szof 0 t [] s1" "tcpip_inv szof api count maxi s1"
      using pool_is_empty_ok [OF t(3,2)] by blast
    have "grown szof 0 s [] s1" using grown_trans [of szof 0 s "[]" t "[]" s1] t(4) s1(2) None by simp
    then show ?thesis using None t(1,4) s1 by (auto simp: pbuf_alloc_def pbuf_alloc_pool_def alloc_post_def no_room_def)
  next
    case (Some p)
    have p: "fst p = Pool" "snd p mod 4 = 0" "grown szof 144 s [p] t" "?live t = ?live s + 1" using t(4) Some inv(1) by (auto simp: pbufs_inv_def)
    have "snd p \<in> memp_live szof (tm_pools t) MEMP_PBUF_POOL" using grownD(2) [OF p(3), of p] p(1) by (simp add: block_def split: if_splits)
    then have small: "snd p < 25000" using pool_elem_bound [OF t(3)] by fastforce
    let ?n = "min len (128 - ?o)" and ?a = "(Pool, snd p + (16 + ?o))"
    let ?f = "\<lambda>b. b\<lparr>pb_type := PBUF_POOL, pb_next := None, pb_payload := ?a, pb_tot_len := len, pb_len := ?n, pb_ref := 1\<rparr>"
    let ?t = "upd_pb p ?f t"
    have m4: "(snd p + (16 + ?o)) mod 4 = 0" by (rule mod4_add [OF p(2) o(2)])
    have al: "LWIP_MEM_ALIGN_SIZE (snd p + (16 + ?o)) = snd p + (16 + ?o)" using aligned_align [OF m4] small o(1) by simp
    have fl: "pb_flags (pb t p) AND PBUF_FLAG_IS_CUSTOM = 0" using pool_flags [OF t(3) p(1)] .
    have g: "grown szof 144 s [p] ?t" using fl by (intro grown_upd_pb [OF p(3)]) simp_all
    have seg: "pool_seg szof ?t p [p] (len - ?n)"
      using grownD(2) [OF g, of p] fl p(1) o(1) by (auto simp: pool_seg_def live_pbuf_block has_buffer_def payload_in_def)
    have inv': "tcpip_inv szof api count maxi ?t" using t(2) by simp
    have lt: "len - ?n < 65535" using len o(1) by auto
    obtain ok s' where s': "pool_chain api cf p p (len - ?n) ?t = Some (ok, s')" "tcpip_inv szof api count maxi s'"
      "ok \<longleftrightarrow> ?live t + (len - ?n + 127) div 128 \<le> 160"
      "if ok then \<exists>vs. grown szof 144 s ([p] @ vs) s' \<and> pool_seg szof s' p ([p] @ vs) 0 \<and> (\<forall>x\<in>set [p]. \<exists>m. pb s' x = (pb ?t x)\<lparr>pb_next := m\<rparr>)
       else grown szof 144 s [] s'"
      using pool_chain_ok [OF inv' g seg list.distinct(2) lt, of cf] unfolding last.simps if_P [OF refl] pools_upd_pb by (elim exE conjE) (rule that)
    have call: "pbuf_alloc_pool api cf ?o len s = Some (if ok then Some p else None, s')"
      using t(1) Some s'(1) m4 al ao p(1) o(1)
      by (simp add: pbuf_alloc_pool_def palign_def padd_def upd_pb_upd_pb payload_fits_def MEM_ALIGNMENT_def Let_def add.assoc)
    have rem: "len - ?n = len - (128 - ?o)" by simp
    show ?thesis
    proof (cases ok)
      case False
      then have "no_room szof layer len PBUF_POOL s" using s'(3) p(4) unfolding no_room_def rem by simp
      then show ?thesis using call s'(2,4) False by (simp add: pbuf_alloc_def alloc_post_def grown_def)
    next
      case True
      then obtain vs m where vs: "grown szof 144 s (p # vs) s'" "pool_seg szof s' p (p # vs) 0" "pb s' p = (pb ?t p)\<lparr>pb_next := m\<rparr>"
        using s'(4) by auto
      let ?s = "upd_pb p (\<lambda>b. b\<lparr>pb_ref := 1, pb_flags := 0\<rparr>) s'"
      have g': "grown szof 144 s (p # vs) ?s" by (intro grown_upd_pb [OF vs(1)]) simp_all
      have seg': "pool_seg szof ?s p (p # vs) 0" by (rule pool_seg_flags [OF vs(2)])
      have "pb_tot_len (pb ?s p) = len" using vs(3) by simp
      then have l: "length (pdata ?s (p # vs)) = len" using seg' by (simp add: pool_seg_def)
      then have "packet ?s (Some p) (p # vs)" using seg' len unfolding packet_def pool_seg_def tots_to_0 by simp
      then have "alloced szof layer len PBUF_POOL s p ?s"
        using g' seg' l m4 vs(3) unfolding alloced_def pool_seg_def by (intro conjI exI [of _ "p # vs"] exI [of _ 144]) auto
      moreover have "\<not> no_room szof layer len PBUF_POOL s" using s'(3) p(4) True unfolding no_room_def rem by simp
      ultimately show ?thesis using call s'(2) True by (simp add: pbuf_alloc_def alloc_post_def)
    qed
  qed
qed

section \<open>Properties\<close>

text \<open>The state after initialisation, with the sizes of the pool elements of a 32-bit build.\<close>

definition szof_pbuf :: "memp_t \<Rightarrow> nat" where
  "szof_pbuf t = (case t of MEMP_PBUF_POOL \<Rightarrow> 144 | MEMP_PBUF \<Rightarrow> 16 | _ \<Rightarrow> 32)"

definition pbuf_blank :: pbuf where
  "pbuf_blank = \<lparr>pb_next = None, pb_payload = NULLP, pb_tot_len = 0, pb_len = 0, pb_type = PBUF_RAM, pb_flags = 0, pb_ref = 0\<rparr>"

definition pbufs_start :: "('h, msg_ptr) mbox \<Rightarrow> 'h pbufs" where
  "pbufs_start q = \<lparr>next_timeout = None, timeouts_last_time = 0,
     timeo = \<lambda>_. \<lparr>to_next = None, to_time = 0, to_h = None, to_arg = 0\<rparr>, tm_pools = memp_init szof_pbuf memps_zero,
     tcpip_tcp_timer_active = False, tcp_pcbs = False, clock = 0,
     tcpip_mbox = q, tcpip_msgs = \<lambda>_. TCPIP_MSG_CALLBACK 0 0,
     heap = mem_init mem_zero, memory = \<lambda>_ _. 0, pb = \<lambda>_. pbuf_blank, custom_free = \<lambda>_. None, pbuf_free_ooseq_pending = False\<rparr>"

lemma szof_pbuf_ok: "szof_ok szof_pbuf"
  by (auto simp: szof_ok_def szof_pbuf_def split: memp_t.splits)

lemma pbufs_start_live: "memp_live szof_pbuf (tm_pools (pbufs_start q)) t = {}"
  using memp_init_inv(2) [OF szof_pbuf_ok, of memps_zero t] by (simp add: pbufs_start_def memps_zero_def)

lemma pbufs_start_inv:
  assumes "mbox_inv api count maxi 0 q" "ring q = []"
  shows "pbufs_inv szof_pbuf (pbufs_start q)" "tcpip_inv szof_pbuf api count maxi (pbufs_start q)"
proof -
  have p: "memps_inv szof_pbuf (tm_pools (pbufs_start q))"
    unfolding pbufs_start_def using memp_init_inv(1) [OF szof_pbuf_ok, of memps_zero] by (simp add: memps_zero_def)
  then show "pbufs_inv szof_pbuf (pbufs_start q)"
    using mem_init_inv by (simp add: pbufs_inv_def) (simp add: pbufs_start_def szof_pbuf_def pbuf_blank_def)
  have "msg_live szof_pbuf (pbufs_start q) = {}" by (simp add: msg_live_def pbufs_start_live)
  then show "tcpip_inv szof_pbuf api count maxi (pbufs_start q)" using assms p
    by (simp add: tcpip_inv_def msgs_ok_def queued_def) (simp add: pbufs_start_def)
qed

lemma alloc_ok:
  assumes "pbufs_inv szof s" "tcpip_inv szof api count maxi s" "len < 65536" "type = PBUF_RAM \<longrightarrow> ram_size layer len \<le> 65532"
  shows "\<exists>r s'. pbuf_alloc api cf layer len type s = Some (r, s') \<and> alloc_post szof api count maxi layer len type s r s'"
  using alloc_ram_ok [OF assms(1-3)] alloc_pool_ok [OF assms(1-3)] alloc_ref_ok [OF assms(1-3)] assms(4) by (cases type) auto

text \<open>C8: \<open>pbuf_alloc\<close> of every type and layer returns: no assertion fails and the loop ends.  It fails exactly when the
  heap has no block or the pool not enough elements for the request, and then nothing stays allocated, also when
  the pool runs empty in the middle of a chain.  Otherwise it returns a chain of new pbufs of the
  type with count 1, whose payloads lie in their own memory, with \<open>tot_len\<close> fields that agree and the requested
  length in all, and the headers of the layer fit in front of an aligned payload.  All that was allocated before keeps its
  place, its structure and its bytes.  A RAM request must not exceed what the 16-bit size of \<open>mem_malloc\<close> holds.\<close>

theorem pbuf_alloc_fresh:
  assumes "pbufs_inv szof s" "tcpip_inv szof api count maxi s" "len < 65536" "type = PBUF_RAM \<longrightarrow> ram_size layer len \<le> 65532"
  shows "\<exists>r s'. pbuf_alloc api cf layer len type s = Some (r, s') \<and> tcpip_inv szof api count maxi s' \<and>
    (r = None \<longleftrightarrow> no_room szof layer len type s) \<and>
    (case r of None \<Rightarrow> grown szof 0 s [] s' | Some p \<Rightarrow> alloced szof layer len type s p s')"
  using alloc_ok [OF assms] by (simp add: alloc_post_def)

theorem pbuf_alloc_fresh_witness:
  "\<exists>q p s'. pbuf_alloc win32_pair (\<lambda>_ _ _. None) PBUF_TRANSPORT 300 PBUF_POOL (pbufs_start q) = Some (Some p, s') \<and>
     alloced szof_pbuf PBUF_TRANSPORT 300 PBUF_POOL (pbufs_start q) p s'"
proof -
  obtain q :: "(nat \<times> nat, msg_ptr) mbox" where q: "mbox_inv win32_pair fst snd 0 q" "ring q = []" by (rule fresh_mbox)
  have "\<not> no_room szof_pbuf PBUF_TRANSPORT 300 PBUF_POOL (pbufs_start q)" by (simp add: no_room_def pbufs_start_live)
  then show ?thesis
    using pbuf_alloc_fresh [OF pbufs_start_inv [OF q], of 300 PBUF_POOL PBUF_TRANSPORT "\<lambda>_ _ _. None"] by (auto split: option.splits)
qed

text \<open>C9: \<open>pbuf_free\<close> decrements the counts of a chain from its head up to and including the first pbuf that stays referenced,
  gives back exactly those before it, each to the heap or pool it came from, and returns their
  number as an 8-bit value.  Every other pbuf keeps its structure and its data.\<close>

theorem pbuf_free_counts:
  assumes "pbufs_inv szof s" "chain (pb_link s) (Some p) ps" "\<forall>x\<in>set ps. 0 < pb_ref (pb s x)" "\<forall>x\<in>set (dead s ps). live_pbuf szof s x"
  shows "\<exists>s'. pbuf_free cf (Some p) s = Some (u8 (length (dead s ps)), s') \<and> released szof s (set (dead s ps)) s' \<and>
    pb s' = unref (set (take (length (dead s ps) + 1) ps)) (pb s) \<and>
    (\<forall>q. live_pbuf szof s q \<and> has_buffer s q \<and> q \<notin> set (dead s ps) \<longrightarrow> live_pbuf szof s' q \<and> seg s' q = seg s q)"
proof -
  obtain s' where s': "pbuf_free_loop cf (Some p) 0 s = Some (u8 (0 + length (dead s ps)), s')" "released szof s (set (dead s ps)) s'"
    "pb s' = unref (set (take (length (dead s ps) + 1) ps)) (pb s)"
    using free_loop_released [OF assms, of 0 cf] by auto
  then show ?thesis using released_live [OF s'(2) fun_cong [OF s'(3)]] released_seg [OF s'(2) fun_cong [OF s'(3)]]
    by (auto simp: pbuf_free_def)
qed

theorem pbuf_free_counts_witness:
  "\<exists>q p s' n s''. pbuf_alloc win32_pair (\<lambda>_ _ _. None) PBUF_RAW 40 PBUF_REF (pbufs_start q) = Some (Some p, s') \<and>
     pbuf_free (\<lambda>_ _ _. None) (Some p) s' = Some (n, s'') \<and> block szof_pbuf s'' p = None \<and> block szof_pbuf s' p \<noteq> None"
proof -
  obtain q :: "(nat \<times> nat, msg_ptr) mbox" where q: "mbox_inv win32_pair fst snd 0 q" "ring q = []" by (rule fresh_mbox)
  have "\<not> no_room szof_pbuf PBUF_RAW 40 PBUF_REF (pbufs_start q)" by (simp add: no_room_def pbufs_start_live)
  then obtain p s' where s': "pbuf_alloc win32_pair (\<lambda>_ _ _. None) PBUF_RAW 40 PBUF_REF (pbufs_start q) = Some (Some p, s')"
    "alloced szof_pbuf PBUF_RAW 40 PBUF_REF (pbufs_start q) p s'"
    using alloc_ok [OF pbufs_start_inv [OF q], of 40 PBUF_REF PBUF_RAW "\<lambda>_ _ _. None"] by (auto simp: alloc_post_def split: option.splits)
  obtain ps n where ps: "grown szof_pbuf n (pbufs_start q) ps s'" "packet s' (Some p) ps"
    "\<forall>x\<in>set ps. live_pbuf szof_pbuf s' x \<and> pb_ref (pb s' x) = 1" using s'(2) by (auto simp: alloced_def)
  have c: "chain (pb_link s') (Some p) ps" "p \<in> set ps" using ps(2) by (auto simp: packet_def chain_Some)
  have "dead s' ps = ps" using ps(3) by (simp add: dead_def)
  then obtain s'' where "pbuf_free (\<lambda>_ _ _. None) (Some p) s' = Some (u8 (length ps), s'')" "released szof_pbuf s' (set ps) s''"
    using pbuf_free_counts [OF grownD(1) [OF ps(1)] c(1), of "\<lambda>_ _ _. None"] ps(3) by auto
  then show ?thesis using s'(1) c(2) grownD(2) [OF ps(1), of p] released_block [of szof_pbuf s' "set ps" s'' p]
    by (intro exI [of _ q] exI [of _ p] exI [of _ s'] exI [of _ "u8 (length ps)"] exI [of _ s'']) simp
qed

text \<open>C36: A RAM request whose rounded size does not fit in 16 bits wraps: for 65535 bytes the heap is asked for 16, and the
  pbuf that is returned claims a payload of 65535 bytes in a block of less than 36.\<close>

theorem pbuf_alloc_ram_wraps:
  "\<exists>n s'. pbuf_alloc api cf PBUF_RAW 65535 PBUF_RAM (s\<lparr>heap := mem_init h\<rparr>) = Some (Some (Heap, 8), s') \<and>
     pb_len (pb s' (Heap, 8)) = 65535 \<and> pb_payload (pb s' (Heap, 8)) = (Heap, 24) \<and> mem_live (heap s') 8 = Some n \<and> n < 36"
proof -
  obtain n t where t: "mem_malloc 16 (mem_init h) = Some (Some 8, t)" "mem_live t = [8 \<mapsto> n]" "n < mem_round 16 + 20"
    using mem_malloc_init [of 16 h] by auto
  have "mem_round 16 = 16" by (simp add: mem_round_def align_size u16_id)
  then show ?thesis using t
    by (simp add: pbuf_alloc_def pbuf_alloc_ram_def align_size u16_def palign_def padd_def MEM_ALIGNMENT_def Let_def)
qed

end
