(* ===== verification/Pbuf_Ops.thy ===== *)
theory Pbuf_Ops
  imports Pbuf_Alloc
begin

text \<open>
  Operations on whole packets: concatenation and splitting of chains, moving the payload for headers, truncation,
  copying between chains and merging a chain into one pbuf.
\<close>

section \<open>Concatenation\<close>

definition cat_pb :: "ptr list \<Rightarrow> ptr \<Rightarrow> (ptr \<Rightarrow> pbuf) \<Rightarrow> ptr \<Rightarrow> pbuf" where
  "cat_pb hs t f x = (if x \<in> set hs then (f x)\<lparr>pb_tot_len := u16 (pb_tot_len (f x) + pb_tot_len (f t)),
     pb_next := if x = last hs then Some t else pb_next (f x)\<rparr> else f x)"

lemma cat_loop_state:
  assumes "chain (pb_link s) (Some h) (h # hs)" "pb_tot_len (pb s (last (h # hs))) = pb_len (pb s (last (h # hs)))" "t \<notin> set (h # hs)"
  shows "cat_loop h t s = Some (s\<lparr>pb := cat_pb (h # hs) t (pb s)\<rparr>)"
  using assms
proof (induction hs arbitrary: h s)
  case Nil
  then show ?case by (subst cat_loop.simps) (auto simp: upd_pb_def Let_def cat_pb_def fun_eq_iff intro!: arg_cong [where f = "\<lambda>f. s\<lparr>pb := f\<rparr>"])
next
  case (Cons x hs)
  let ?s = "upd_pb h (\<lambda>b. b\<lparr>pb_tot_len := u16 (pb_tot_len b + pb_tot_len (pb s t))\<rparr>) s"
  have n: "pb_next (pb s h) = Some x" and c: "chain (pb_link s) (Some x) (x # hs)" using Cons.prems(1) by auto
  have d: "distinct (h # x # hs)" using chain_distinct [OF Cons.prems(1)] .
  have link: "pb_link ?s = pb_link s" by (rule ext) (simp add: pb_link_def)
  have last: "last (x # hs) \<noteq> h" using d last_in_set [of "x # hs"] by auto
  have l2: "last (h # x # hs) = last (x # hs)" by simp
  have "cat_loop x t ?s = Some (?s\<lparr>pb := cat_pb (x # hs) t (pb ?s)\<rparr>)"
    using c Cons.prems(2) [unfolded l2] Cons.prems(3) d last by (intro Cons.IH) (auto simp: link simp del: last.simps)
  moreover have "cat_loop h t s = cat_loop x t ?s" using n by (subst cat_loop.simps) (simp add: Let_def)
  moreover have "cat_pb (x # hs) t (pb ?s) = cat_pb (h # x # hs) t (pb s)"
    using d last n Cons.prems(3) by (auto simp: cat_pb_def fun_eq_iff simp del: last.simps) (auto simp: last_ConsR)
  ultimately show ?case by (simp add: upd_pb_def)
qed

lemma load_pb [simp]: "load (s\<lparr>pb := f\<rparr>) q = load s q"
  by (simp add: load_def split: region.splits)

lemma seg_fields:
  assumes "pb_payload (pb s' x) = pb_payload (pb s x)" "pb_len (pb s' x) = pb_len (pb s x)" "\<And>q. load s' q = load s q"
  shows "seg s' x = seg s x"
  using assms by (simp add: seg_def load_bytes_def)

lemma tots_to_shift:
  assumes "\<And>x. x \<in> set ps \<Longrightarrow> pb_tot_len (pb s' x) = pb_tot_len (pb s x) + k \<and> pb_len (pb s' x) = pb_len (pb s x)" "tots s ps"
  shows "length (pdata s' ps) = length (pdata s ps) \<and> tots_to s' k ps"
  using assms by (induction ps) auto

lemma tots_le: "tots s ps \<Longrightarrow> x \<in> set ps \<Longrightarrow> pb_tot_len (pb s x) \<le> length (pdata s ps)"
  by (induction ps) auto

lemma tots_last: "tots s ps \<Longrightarrow> ps \<noteq> [] \<Longrightarrow> pb_tot_len (pb s (last ps)) = pb_len (pb s (last ps))"
  by (induction ps) auto

lemma cat_packet:
  assumes h: "packet s (Some h) hs" and t: "packet s (Some t) ts" and dis: "set hs \<inter> set ts = {}"
    and len: "length (pdata s hs) + length (pdata s ts) < 65536"
  defines "s' \<equiv> s\<lparr>pb := cat_pb hs t (pb s)\<rparr>"
  shows "pbuf_cat (Some h) (Some t) s = Some s'" "packet s' (Some h) (hs @ ts)" "pdata s' (hs @ ts) = pdata s hs @ pdata s ts"
proof -
  obtain hs' ts' where H: "hs = h # hs'" "ts = t # ts'" using h t by (auto simp: packet_def chain_Some)
  have c: "chain (pb_link s) (Some h) hs" "chain (pb_link s) (Some t) ts" "tots s hs" "tots s ts" using h t by (auto simp: packet_def)
  have tot: "pb_tot_len (pb s t) = length (pdata s ts)" using packet_tot [OF t] .
  have pbh: "pb s' x = (pb s x)\<lparr>pb_tot_len := pb_tot_len (pb s x) + length (pdata s ts), pb_next := if x = last hs then Some t else pb_next (pb s x)\<rparr>"
    if "x \<in> set hs" for x using tots_le [OF c(3) that] len that by (simp add: s'_def cat_pb_def tot u16_id)
  have pbt: "pb s' x = pb s x" if "x \<in> set ts" for x using that dis by (auto simp: s'_def cat_pb_def)
  show "pbuf_cat (Some h) (Some t) s = Some s'"
    using cat_loop_state [of s h hs' t] c(1) tots_last [OF c(3)] dis H by (auto simp: pbuf_cat_def s'_def)
  have "seg s' x = seg s x" for x by (intro seg_fields) (simp_all add: s'_def cat_pb_def)
  then have d: "pdata s' hs = pdata s hs" "pdata s' ts = pdata s ts" by (auto intro: pdata_cong)
  then show data: "pdata s' (hs @ ts) = pdata s hs @ pdata s ts" by simp
  have dh: "distinct hs" using chain_distinct [OF c(1)] .
  have "chain (pb_link s') (Some h) (hs @ ts)"
  proof (rule chain_link [OF c(1)])
    show "pb_link s' (last hs) = Some t" using pbh [of "last hs"] H by (simp add: pb_link_def)
    show "chain (pb_link s') (Some t) ts" using c(2) pbt chain_cong [of ts "pb_link s'" "pb_link s"] by (simp add: pb_link_def)
    show "pb_link s' x = pb_link s x" if "x \<in> set (butlast hs)" for x
      using pbh [OF in_set_butlastD [OF that]] last_butlast [OF dh] that H by (auto simp: pb_link_def)
  qed (use H in simp)
  moreover have "tots_to s' (length (pdata s ts)) hs" using tots_to_shift [of hs s' s] pbh c(3) by simp
  moreover have "tots s' ts" using tots_to_cong [of ts s' s 0] pbt c(4) by (simp add: tots_to_0)
  ultimately show "packet s' (Some h) (hs @ ts)"
    using tots_to_append [of s' 0 hs ts] data len unfolding packet_def tots_to_0 d by simp
qed

lemma free_shared:
  assumes "1 < pb_ref (pb s p)"
  shows "pbuf_free cf (Some p) s = Some (0, upd_pb p (\<lambda>b. b\<lparr>pb_ref := pb_ref (pb s p) - 1\<rparr>) s)"
  using assms by (simp add: pbuf_free_def pbuf_free_loop.simps Let_def)

lemma tots_cong:
  assumes "\<And>x. x \<in> set ps \<Longrightarrow> pb_tot_len (pb s' x) = pb_tot_len (pb s x) \<and> pb_len (pb s' x) = pb_len (pb s x)"
  shows "tots s' ps = tots s ps"
  using tots_to_cong [OF assms, of ps 0] by (simp add: tots_to_0)

lemma packet_ref:
  "packet (upd_pb x (\<lambda>b. b\<lparr>pb_ref := r\<rparr>) s) p ps = packet s p ps" "pdata (upd_pb x (\<lambda>b. b\<lparr>pb_ref := r\<rparr>) s) ps = pdata s ps"
proof -
  let ?s = "upd_pb x (\<lambda>b. b\<lparr>pb_ref := r\<rparr>) s"
  have "seg ?s y = seg s y" for y by (rule seg_fields) simp_all
  then show d: "pdata ?s ps = pdata s ps" by (rule pdata_cong)
  have "pb_link ?s = pb_link s" by (rule ext) (simp add: pb_link_def)
  moreover have "tots ?s ps = tots s ps" by (rule tots_cong) simp
  ultimately show "packet ?s p ps = packet s p ps" by (simp add: packet_def d)
qed

lemma upd_pb_id: "f (pb s p) = pb s p \<Longrightarrow> upd_pb p f s = s"
  by (simp add: upd_pb_def)

lemma chain_dechain:
  assumes h: "packet s (Some h) [h]" and t: "packet s (Some t) ts" and dis: "h \<notin> set ts"
    and len: "pb_len (pb s h) + length (pdata s ts) < 65536" and ref: "0 < pb_ref (pb s t)" "pb_ref (pb s t) < 65535"
  shows "\<exists>s1. pbuf_chain (Some h) (Some t) s = Some s1 \<and> packet s1 (Some h) (h # ts) \<and>
    pdata s1 (h # ts) = seg s h @ pdata s ts \<and> pbuf_dechain cf h s1 = Some (Some t, s)"
proof -
  let ?c = "s\<lparr>pb := cat_pb [h] t (pb s)\<rparr>"
  let ?s = "upd_pb t (\<lambda>b. b\<lparr>pb_ref := u16 (pb_ref b + 1)\<rparr>) ?c"
  have C: "pbuf_cat (Some h) (Some t) s = Some ?c" "packet ?c (Some h) (h # ts)" "pdata ?c (h # ts) = seg s h @ pdata s ts"
    using cat_packet [OF h t] dis len by simp_all
  have ts: "t \<noteq> h" "pb_tot_len (pb s t) = length (pdata s ts)" using t dis packet_tot [OF t] by (auto simp: packet_def chain_Some)
  have hp: "pb_next (pb s h) = None" "pb_tot_len (pb s h) = pb_len (pb s h)" using h by (auto simp: packet_def)
  define u where "u = ?s"
  have s: "u = upd_pb t (\<lambda>b. b\<lparr>pb_ref := pb_ref (pb s t) + 1\<rparr>) ?c" using ref ts(1) by (simp add: u_def upd_pb_def cat_pb_def u16_id)
  have u: "u = s\<lparr>pb := pb u\<rparr>" by (simp add: u_def upd_pb_def)
  have pbh: "pb u h = (pb s h)\<lparr>pb_tot_len := pb_len (pb s h) + length (pdata s ts), pb_next := Some t\<rparr>"
    using ts len hp by (simp add: u_def cat_pb_def u16_id)
  have pbt: "pb u t = (pb s t)\<lparr>pb_ref := pb_ref (pb s t) + 1\<rparr>" using ref ts(1) by (simp add: u_def cat_pb_def u16_id)
  have pbo: "pb u x = pb s x" if "x \<noteq> h" "x \<noteq> t" for x using that by (simp add: u_def cat_pb_def)
  have same: "upd_pb t (\<lambda>b. b\<lparr>pb_tot_len := length (pdata s ts)\<rparr>) u = u"
    using pbt ts(2) by (intro upd_pb_id) simp
  let ?d = "upd_pb h (\<lambda>b. b\<lparr>pb_next := None, pb_tot_len := pb_len b\<rparr>) u"
  let ?e = "upd_pb t (\<lambda>b. b\<lparr>pb_ref := pb_ref (pb s t)\<rparr>) ?d"
  have "pbuf_free cf (Some t) ?d = Some (0, ?e)"
    using free_shared [of ?d t cf] pbt ref(1) ts(1) by simp
  moreover have "?e = s"
  proof -
    have "pb ?e x = pb s x" for x using pbh pbt pbo ts(1) hp by (cases "x = t"; cases "x = h") simp_all
    then have "pb ?e = pb s" by (rule ext)
    moreover have "?e = s\<lparr>pb := pb ?e\<rparr>" by (subst u) (simp add: upd_pb_def)
    ultimately show ?thesis by simp
  qed
  moreover have "sub16 (pb_len (pb s h) + length (pdata s ts)) (pb_len (pb s h)) = length (pdata s ts)" using len by (simp add: sub16_id)
  ultimately have "pbuf_dechain cf h u = Some (Some t, s)"
    using pbh pbt ts hp same by (simp add: pbuf_dechain_def Let_def upd_pb_upd_pb)
  moreover have "pbuf_chain (Some h) (Some t) s = Some u" using C(1) by (simp add: pbuf_chain_def pbuf_ref_def u_def)
  moreover have "packet u (Some h) (h # ts)" "pdata u (h # ts) = seg s h @ pdata s ts"
    using C(2,3) unfolding s packet_ref by simp_all
  ultimately show ?thesis by blast
qed

section \<open>Headers\<close>

text \<open>The pbuf after its payload pointer has moved towards the front by \<open>d\<close>.\<close>

definition move_pb :: "int \<Rightarrow> pbuf \<Rightarrow> pbuf" where
  "move_pb d b = b\<lparr>pb_payload := (fst (pb_payload b), nat (int (snd (pb_payload b)) - d)),
     pb_len := nat (int (pb_len b) + d), pb_tot_len := nat (int (pb_tot_len b) + d)\<rparr>"

lemma add16_id: "0 \<le> int n + d \<Longrightarrow> int n + d < 65536 \<Longrightarrow> add16 n d = nat (int n + d)"
  by (simp add: add16_def)

definition header_room :: "('h, 'z) pbufs_scheme \<Rightarrow> ptr \<Rightarrow> nat" where
  "header_room s p = snd (pb_payload (pb s p)) - (snd p + 16)"

lemma header_impl:
  assumes p: "live_pbuf szof s p" "has_buffer s p" and tot: "pb_len (pb s p) \<le> pb_tot_len (pb s p)" "int (pb_tot_len (pb s p)) + d < 65536"
  shows "pbuf_header (Some p) d s =
    (if int (header_room s p) < d \<or> int (pb_len (pb s p)) < - d then Some (True, s) else Some (False, upd_pb p (move_pb d) s))"
proof -
  have in': "fst (pb_payload (pb s p)) = fst p" "snd p + 16 \<le> snd (pb_payload (pb s p))"
    using p by (auto simp: live_pbuf_block payload_in_def)
  have t: "pb_type (pb s p) = PBUF_RAM \<or> pb_type (pb s p) = PBUF_POOL" using p(2) by (simp add: has_buffer_def)
  have id: "upd_pb p (move_pb 0) s = s" by (rule upd_pb_id) (simp add: move_pb_def)
  consider "d = 0" | "int (pb_len (pb s p)) < - d" | "d \<noteq> 0" "- d \<le> int (pb_len (pb s p))" by linarith
  then show ?thesis
  proof cases
    case 1
    then show ?thesis using id by (simp add: pbuf_header_def pbuf_header_impl_def)
  next
    case 2
    then show ?thesis by (simp add: pbuf_header_def pbuf_header_impl_def Let_def) linarith
  next
    case 3
    have 16: "add16 (pb_len (pb s p)) d = nat (int (pb_len (pb s p)) + d)" "add16 (pb_tot_len (pb s p)) d = nat (int (pb_tot_len (pb s p)) + d)"
      using 3 tot by (auto intro: add16_id)
    show ?thesis
    proof (cases "int (header_room s p) < d")
      case True
      then show ?thesis using 3 t in' by (auto simp: pbuf_header_def pbuf_header_impl_def Let_def in_region_def header_room_def)
    next
      case False
      then have "psub (pb_payload (pb s p)) d = Some (fst p, nat (int (snd (pb_payload (pb s p))) - d))"
        using in' by (auto simp: psub_def header_room_def)
      moreover have "upd_pb p (\<lambda>b. b\<lparr>pb_payload := (fst p, nat (int (snd (pb_payload (pb s p))) - d)),
          pb_len := add16 (pb_len b) d, pb_tot_len := add16 (pb_tot_len b) d\<rparr>) s = upd_pb p (move_pb d) s"
        using 16 in' by (simp add: upd_pb_def move_pb_def)
      ultimately show ?thesis using 3 t in' False
        by (auto simp: pbuf_header_def pbuf_header_impl_def Let_def in_region_def header_room_def)
    qed
  qed
qed

lemma nth_seg: "i < pb_len (pb s p) \<Longrightarrow> seg s p ! i = load s (padd (pb_payload (pb s p)) i)"
  by (simp add: seg_def nth_load_bytes)

lemma move_live:
  assumes p: "live_pbuf szof s p" "has_buffer s p" and d: "d \<le> int (header_room s p)" "- d \<le> int (pb_len (pb s p))"
  shows "live_pbuf szof (upd_pb p (move_pb d) s) p" "has_buffer (upd_pb p (move_pb d) s) p"
    "int (header_room (upd_pb p (move_pb d) s) p) = int (header_room s p) - d"
    "drop (nat (- d)) (seg s p) = drop (nat d) (seg (upd_pb p (move_pb d) s) p)"
proof -
  let ?s = "upd_pb p (move_pb d) s"
  obtain n where n: "block szof s p = Some n" "payload_in s p n" using p by (auto simp: live_pbuf_block)
  have "payload_in ?s p n" using n(2) d by (auto simp: payload_in_def move_pb_def header_room_def)
  then show "live_pbuf szof ?s p" "has_buffer ?s p"
    using p n(1) by (auto simp: live_pbuf_block has_buffer_def move_pb_def)
  show "int (header_room ?s p) = int (header_room s p) - d"
    using n(2) d by (auto simp: payload_in_def move_pb_def header_room_def)
  have a: "nat d \<le> snd (pb_payload (pb s p))" using n(2) d by (auto simp: payload_in_def header_room_def)
  show "drop (nat (- d)) (seg s p) = drop (nat d) (seg ?s p)"
  proof (rule nth_equalityI)
    show "length (drop (nat (- d)) (seg s p)) = length (drop (nat d) (seg ?s p))" using d by (simp add: move_pb_def)
    fix i assume "i < length (drop (nat (- d)) (seg s p))"
    then have i: "i + nat (- d) < pb_len (pb s p)" by simp
    have "nat (int (snd (pb_payload (pb s p))) - d) + (nat d + i) = snd (pb_payload (pb s p)) + (nat (- d) + i)" using a by linarith
    then have "padd (pb_payload (pb ?s p)) (nat d + i) = padd (pb_payload (pb s p)) (nat (- d) + i)" by (simp add: padd_def move_pb_def)
    moreover have "nat d + i < pb_len (pb ?s p)" using i d by (simp add: move_pb_def)
    ultimately show "drop (nat (- d)) (seg s p) ! i = drop (nat d) (seg ?s p) ! i"
      using i by (simp add: nth_seg add.commute)
  qed
qed

lemma move_back:
  assumes "live_pbuf szof s p" "has_buffer s p" "d \<le> int (header_room s p)" "- d \<le> int (pb_len (pb s p))" "0 \<le> int (pb_tot_len (pb s p)) + d"
  shows "upd_pb p (move_pb (- d)) (upd_pb p (move_pb d) s) = s"
proof -
  have "d \<le> int (snd (pb_payload (pb s p)))" using assms(3) by (auto simp: header_room_def)
  then have "move_pb (- d) (move_pb d (pb s p)) = pb s p" using assms(4,5) by (simp add: move_pb_def)
  then show ?thesis unfolding upd_pb_upd_pb by (rule upd_pb_id)
qed

section \<open>Copying\<close>

lemma patch_patch: "i + length a + length b \<le> length d \<Longrightarrow> patch (i + length a) b (patch i a d) = patch i (a @ b) d"
  by (simp add: patch_def ac_simps)

text \<open>A position in a chain after a byte of \<open>x\<close>: the next pbuf if \<open>x\<close> is used up.\<close>

definition nxt :: "('h, 'z) pbufs_scheme \<Rightarrow> ptr \<Rightarrow> nat \<Rightarrow> ptr option \<times> nat" where
  "nxt s x i = (if i = pb_len (pb s x) then (pb_next (pb s x), 0) else (Some x, i))"

lemma advance:
  assumes c: "chain (pb_link s) T (us @ x # vs)" and pos: "\<forall>z\<in>set vs. 0 < pb_len (pb s z)" and i: "i \<le> pb_len (pb s x)" "i = pb_len (pb s x) \<longrightarrow> vs \<noteq> []"
  shows "\<exists>us' x' vs' j. us @ x # vs = us' @ x' # vs' \<and> nxt s x i = (Some x', j) \<and> length (pdata s us') + j = length (pdata s us) + i \<and>
    j < pb_len (pb s x') \<and> length vs' \<le> length vs \<and> (i = pb_len (pb s x) \<longrightarrow> length vs' < length vs)"
proof (cases "i = pb_len (pb s x)")
  case True
  then obtain y ys where y: "vs = y # ys" using i by (cases vs) auto
  have "pb_next (pb s x) = Some y" using chain_suffix [OF c] y by simp
  then show ?thesis using True y pos by (intro exI [of _ "us @ [x]"] exI [of _ y] exI [of _ ys] exI [of _ 0]) (simp add: nxt_def)
next
  case False
  then show ?thesis using i by (intro exI [of _ us] exI [of _ x] exI [of _ vs] exI [of _ i]) (simp add: nxt_def)
qed

definition queue_head :: "('h, 'z) pbufs_scheme \<Rightarrow> ptr option \<Rightarrow> bool" where
  "queue_head s q = (case q of Some q \<Rightarrow> pb_len (pb s q) = pb_tot_len (pb s q) \<and> pb_next (pb s q) \<noteq> None | None \<Rightarrow> False)"

lemma copy_round_eq:
  assumes "ot < pb_len (pb s x)" "fo < pb_len (pb s y)" "pb_len (pb s x) < 65536" "pb_len (pb s y) < 65536"
  defines "n \<equiv> min (pb_len (pb s y) - fo) (pb_len (pb s x) - ot)"
  defines "s' \<equiv> store (padd (pb_payload (pb s x)) ot) (take n (drop fo (seg s y))) s"
  shows "copy_round x ot y fo s =
    (let (t, i) = nxt s x (ot + n); (f, j) = nxt s y (fo + n) in
     if t = None \<and> f \<noteq> None then Some (Inl ERR_ARG, s')
     else if queue_head s f \<or> queue_head s t then Some (Inl ERR_VAL, s') else Some (Inr (t, i, f, j), s'))"
proof -
  have n: "(if int (pb_len (pb s x)) - int ot \<ge> int (pb_len (pb s y)) - int fo then sub16 (pb_len (pb s y)) fo else sub16 (pb_len (pb s x)) ot) = n"
    using assms(1-4) by (auto simp: n_def sub16_id)
  have s': "store (padd (pb_payload (pb s x)) ot) (load_bytes s (padd (pb_payload (pb s y)) fo) n) s = s'"
    using seg_part [of fo n s y] assms(1,2) by (simp add: s'_def n_def)
  have pb: "pb s' = pb s" by (simp add: s'_def store_def split: region.splits)
  have le: "ot + n \<le> pb_len (pb s x)" "fo + n \<le> pb_len (pb s y)" using assms(1,2) by (auto simp: n_def)
  then have u: "u16 (ot + n) = ot + n" "u16 (fo + n) = fo + n" using assms(3,4) by (auto intro: u16_id)
  show ?thesis
    unfolding copy_round_def Let_def n s' u queue_head_def nxt_def using le
    by (auto simp: pb split: option.splits)
qed

lemma packet_suffix:
  assumes "packet s P (us @ x # vs)"
  shows "packet s (Some x) (x # vs)"
proof -
  have "chain (pb_link s) P (us @ x # vs)" "tots s (us @ x # vs)" "length (pdata s (us @ x # vs)) < 65536"
    using assms unfolding packet_def by blast+
  then show ?thesis unfolding packet_def using tots_append by (intro conjI) (rule chain_suffix, assumption, blast, simp)
qed

lemma no_queue_head:
  assumes "packet s P (us @ x # vs)" "\<forall>z\<in>set vs. 0 < pb_len (pb s z)"
  shows "\<not> queue_head s (Some x)"
proof -
  have "chain (pb_link s) (Some x) (x # vs)" "tots s (x # vs)" using packet_suffix [OF assms(1)] by (simp_all add: packet_def)
  then show ?thesis using assms(2) by (cases vs) (auto simp: queue_head_def)
qed

lemma nxt_no_queue:
  assumes "packet s P (us @ x # vs)" "\<forall>z\<in>set vs. 0 < pb_len (pb s z)"
  shows "\<not> queue_head s (fst (nxt s x i))"
proof (cases "i = pb_len (pb s x) \<and> vs \<noteq> []")
  case True
  then obtain y ys where y: "vs = y # ys" by (cases vs) auto
  have "chain (pb_link s) (Some x) (x # vs)" using packet_suffix [OF assms(1)] by (simp add: packet_def)
  then show ?thesis using True y no_queue_head [of s P "us @ [x]" y ys] assms by (simp add: nxt_def)
next
  case False
  have "chain (pb_link s) (Some x) (x # vs)" using packet_suffix [OF assms(1)] by (simp add: packet_def)
  then show ?thesis using False no_queue_head [OF assms] by (auto simp: nxt_def queue_head_def)
qed

definition separate :: "('h, 'z) pbufs_scheme \<Rightarrow> ptr list \<Rightarrow> ptr list \<Rightarrow> bool" where
  "separate s ts fs \<longleftrightarrow> (\<forall>t\<in>set ts. \<forall>f\<in>set fs. area s t \<inter> area s f = {})"

lemma pdata_filled_others:
  assumes "filled szof s ts d s'" "separate s ts fs"
  shows "pdata s' fs = pdata s fs"
  using assms by (intro pdata_cong filled_others) (auto simp: separate_def)

lemma separate_written: "written s s' \<Longrightarrow> separate s' ts fs = separate s ts fs"
  by (simp add: separate_def writtenD)

lemma pdata_split: "length (pdata s (us @ x # vs)) = length (pdata s us) + pb_len (pb s x) + length (pdata s vs)"
  by simp

lemma pdata_nonempty: "vs \<noteq> [] \<Longrightarrow> \<forall>z\<in>set vs. 0 < pb_len (pb s z) \<Longrightarrow> 0 < length (pdata s vs)"
  by (cases vs) auto

lemma copy_loop_ok:
  assumes "pbufs_inv szof s" "packet s T (us @ x # vs)" "packet s F (gs @ y # ws)" "buffers szof s (us @ x # vs)" "separate s (us @ x # vs) (gs @ y # ws)"
    "\<forall>z\<in>set (us @ x # vs) \<union> set (gs @ y # ws). 0 < pb_len (pb s z)" "ot < pb_len (pb s x)" "fo < pb_len (pb s y)"
    "length (pdata s (gs @ y # ws)) - (length (pdata s gs) + fo) \<le> length (pdata s (us @ x # vs)) - (length (pdata s us) + ot)"
  shows "\<exists>s'. copy_loop x ot y fo s = Some (ERR_OK, s') \<and> filled szof s (us @ x # vs)
    (patch (length (pdata s us) + ot) (drop (length (pdata s gs) + fo) (pdata s (gs @ y # ws))) (pdata s (us @ x # vs))) s'"
  using assms
proof (induction "length vs + length ws" arbitrary: us x vs gs y ws ot fo s rule: less_induct)
  case less
  let ?ts = "us @ x # vs" and ?fs = "gs @ y # ws"
  define n where "n = min (pb_len (pb s y) - fo) (pb_len (pb s x) - ot)"
  define D where "D = take n (drop fo (seg s y))"
  define s1 where "s1 = store (padd (pb_payload (pb s x)) ot) D s"
  have lt: "length (pdata s ?ts) < 65536" "length (pdata s ?fs) < 65536" using less.prems(2,3) by (auto simp: packet_def)
  have len: "length D = n" "ot + n \<le> pb_len (pb s x)" "fo + n \<le> pb_len (pb s y)"
    using less.prems(7,8) by (auto simp: D_def n_def)
  have d: "distinct ?ts" using packet_distinct [OF less.prems(2)] .
  have f: "filled szof s ?ts (patch (length (pdata s us) + ot) D (pdata s ?ts)) s1"
    using filled_store [OF less.prems(1,4) d, of ot D] patch_at [OF refl, of ot D s x us vs] len by (simp add: s1_def)
  then have w: "written s s1" "pbufs_inv szof s1" "pdata s1 ?ts = patch (length (pdata s us) + ot) D (pdata s ?ts)" by (simp_all add: filled_def)
  have pb: "pb s1 = pb s" using writtenD(1) [OF w(1)] .
  have len1: "length (pdata s1 zs) = length (pdata s zs)" for zs by (simp add: pdata_def length_concat comp_def pb)
  have src: "pdata s1 ?fs = pdata s ?fs" using pdata_filled_others [OF f less.prems(5)] .
  have D: "drop (length (pdata s gs) + fo) (pdata s ?fs) = D @ drop (length (pdata s gs) + fo + n) (pdata s ?fs)"
  proof -
    have "drop fo (seg s y) = D @ drop (fo + n) (seg s y)" using append_take_drop_id [of n "drop fo (seg s y)"] by (simp add: D_def add.commute)
    then show ?thesis using less.prems(8) len(3) by simp
  qed
  have round: "copy_round x ot y fo s =
    (let (t, i) = nxt s x (ot + n); (f, j) = nxt s y (fo + n) in
     if t = None \<and> f \<noteq> None then Some (Inl ERR_ARG, s1)
     else if queue_head s f \<or> queue_head s t then Some (Inl ERR_VAL, s1) else Some (Inr (t, i, f, j), s1))"
    unfolding s1_def D_def n_def by (rule copy_round_eq) (use less.prems(7,8) lt in simp_all)
  show ?case
  proof (cases "fo + n = pb_len (pb s y) \<and> ws = []")
    case True
    then have "nxt s y (fo + n) = (None, 0)" using packet_suffix [OF less.prems(3)] by (auto simp: nxt_def packet_def)
    then have "copy_round x ot y fo s = Some (Inr (fst (nxt s x (ot + n)), snd (nxt s x (ot + n)), None, 0), s1)"
      using round nxt_no_queue [OF less.prems(2), of "ot + n"] less.prems(6) by (simp add: case_prod_beta queue_head_def)
    then have "copy_loop x ot y fo s = Some (ERR_OK, s1)" by (subst copy_loop.simps) simp
    moreover have "drop (length (pdata s gs) + fo + n) (pdata s ?fs) = []" using True by simp
    ultimately show ?thesis using f D by simp
  next
    case False
    have c: "chain (pb_link s) T ?ts" "chain (pb_link s) F ?fs" using less.prems(2,3) by (auto simp: packet_def)
    have pos: "\<forall>z\<in>set vs. 0 < pb_len (pb s z)" "\<forall>z\<in>set ws. 0 < pb_len (pb s z)" using less.prems(6) by auto
    obtain gs' y' ws' fo' where F: "?fs = gs' @ y' # ws'" "nxt s y (fo + n) = (Some y', fo')"
      "length (pdata s gs') + fo' = length (pdata s gs) + (fo + n)" "fo' < pb_len (pb s y')" "length ws' \<le> length ws"
      "fo + n = pb_len (pb s y) \<longrightarrow> length ws' < length ws"
      using advance [OF c(2) pos(2) len(3)] False by blast
    have "fo + n < pb_len (pb s y) + length (pdata s ws)"
    proof (cases "ws = []")
      case False
      then show ?thesis using pdata_nonempty [OF _ pos(2)] len(3) by linarith
    qed (use len(3) False in simp)
    then have "vs \<noteq> []" if "ot + n = pb_len (pb s x)" using less.prems(9) that unfolding pdata_split by auto
    then obtain us' x' vs' ot' where T: "?ts = us' @ x' # vs'" "nxt s x (ot + n) = (Some x', ot')"
      "length (pdata s us') + ot' = length (pdata s us) + (ot + n)" "ot' < pb_len (pb s x')" "length vs' \<le> length vs"
      "ot + n = pb_len (pb s x) \<longrightarrow> length vs' < length vs"
      using advance [OF c(1) pos(1) len(2)] by blast
    have dec: "length vs' + length ws' < length vs + length ws"
    proof (cases "fo + n = pb_len (pb s y)")
      case True
      then show ?thesis using F(6) T(5) by simp
    next
      case False
      then have "ot + n = pb_len (pb s x)" using less.prems(7,8) by (auto simp: n_def)
      then show ?thesis using F(5) T(6) by simp
    qed
    have "\<not> queue_head s (Some x')" "\<not> queue_head s (Some y')"
      using nxt_no_queue [OF less.prems(2) pos(1), of "ot + n"] nxt_no_queue [OF less.prems(3) pos(2), of "fo + n"] F(2) T(2) by auto
    then have "copy_round x ot y fo s = Some (Inr (Some x', ot', Some y', fo'), s1)" using round F(2) T(2) by simp
    then have eq: "copy_loop x ot y fo s = copy_loop x' ot' y' fo' s1" by (subst copy_loop.simps) simp
    have "\<exists>s'. copy_loop x' ot' y' fo' s1 = Some (ERR_OK, s') \<and> filled szof s1 ?ts
        (patch (length (pdata s1 us') + ot') (drop (length (pdata s1 gs') + fo') (pdata s1 ?fs)) (pdata s1 ?ts)) s'"
      using less.hyps [OF dec w(2), of us' x' gs' y' ot' fo'] less.prems packet_written [OF w(1)] F(4) T(4)
      unfolding F(1) [symmetric] T(1) [symmetric] buffers_written [OF w(1)] separate_written [OF w(1)] pb len1 F(3) T(3) by simp
    then obtain s' where s': "copy_loop x' ot' y' fo' s1 = Some (ERR_OK, s')"
      "filled szof s1 ?ts (patch (length (pdata s us) + (ot + n)) (drop (length (pdata s gs) + (fo + n)) (pdata s ?fs))
         (patch (length (pdata s us) + ot) D (pdata s ?ts))) s'"
      unfolding len1 F(3) T(3) src w(3) by blast
    have "patch (length (pdata s us) + (ot + n)) (drop (length (pdata s gs) + (fo + n)) (pdata s ?fs)) (patch (length (pdata s us) + ot) D (pdata s ?ts)) =
        patch (length (pdata s us) + ot) (drop (length (pdata s gs) + fo) (pdata s ?fs)) (pdata s ?ts)"
      unfolding D using patch_patch [of "length (pdata s us) + ot" D _ "pdata s ?ts"] less.prems(7-9) len by (simp add: add.assoc)
    then show ?thesis using eq s' filled_trans [OF f] by auto
  qed
qed

lemma copy_packet:
  assumes "pbufs_inv szof s" "packet s (Some t) ts" "packet s (Some f) fs" "buffers szof s ts" "separate s ts fs"
    "\<forall>z\<in>set ts \<union> set fs. 0 < pb_len (pb s z)" "length (pdata s fs) \<le> length (pdata s ts)"
  shows "\<exists>s'. pbuf_copy (Some t) (Some f) s = Some (ERR_OK, s') \<and> filled szof s ts (patch 0 (pdata s fs) (pdata s ts)) s'"
proof -
  obtain ts' fs' where *: "ts = t # ts'" "fs = f # fs'" using assms(2,3) by (auto simp: packet_def chain_Some)
  obtain s' where "copy_loop t 0 f 0 s = Some (ERR_OK, s')" "filled szof s ts (patch 0 (pdata s fs) (pdata s ts)) s'"
    using copy_loop_ok [of szof s "Some t" "[]" t ts' "Some f" "[]" f fs' 0 0] assms * by auto
  then show ?thesis using packet_tot [OF assms(2)] packet_tot [OF assms(3)] assms(7) by (simp add: pbuf_copy_def)
qed

section \<open>Merging\<close>

lemma preserved_live:
  assumes "preserved szof s s'" "live_pbuf szof s x"
  shows "live_pbuf szof s' x" "pb s' x = pb s x"
proof -
  obtain n where n: "block szof s x = Some n" "has_buffer s x \<longrightarrow> payload_in s x n" using assms(2) by (auto simp: live_pbuf_block)
  then have k: "block szof s' x = Some n" "pb s' x = pb s x" using assms(1) by (auto simp: preserved_def)
  then show "live_pbuf szof s' x" "pb s' x = pb s x"
    using assms(2) n by (auto simp: live_pbuf_block has_buffer_def payload_in_def)
qed

lemma preserved_seg:
  assumes "preserved szof s s'" "live_pbuf szof s x" "has_buffer s x"
  shows "seg s' x = seg s x"
proof -
  obtain n where n: "block szof s x = Some n" "payload_in s x n" using assms(2,3) by (auto simp: live_pbuf_block)
  then have k: "pb s' x = pb s x" "\<forall>i<n. load s' (padd x i) = load s (padd x i)" using assms(1) by (auto simp: preserved_def)
  have "load s' (padd (pb_payload (pb s x)) i) = load s (padd (pb_payload (pb s x)) i)" if "i < pb_len (pb s x)" for i
    using payload_offset [OF n(2) that] k(2) by auto
  then show ?thesis using k(1) by (simp add: seg_def load_bytes_def)
qed

lemma preserved_packet:
  assumes k: "preserved szof s s'" and p: "packet s P ps" and b: "buffers szof s ps"
  shows "packet s' P ps" "buffers szof s' ps" "pdata s' ps = pdata s ps" "\<And>x. x \<in> set ps \<Longrightarrow> pb s' x = pb s x"
proof -
  show pb: "pb s' x = pb s x" if "x \<in> set ps" for x using preserved_live(2) [OF k] b that by (auto simp: buffers_def)
  show d: "pdata s' ps = pdata s ps" using preserved_seg [OF k] b by (intro pdata_cong) (auto simp: buffers_def)
  show "buffers szof s' ps" using preserved_live [OF k] b by (auto simp: buffers_def has_buffer_def)
  have "chain (pb_link s') P ps = chain (pb_link s) P ps" using pb by (intro chain_cong) (simp add: pb_link_def)
  moreover have "tots s' ps = tots s ps" using pb by (intro tots_cong) simp
  ultimately show "packet s' P ps" using p d by (simp add: packet_def)
qed

lemma preserved_refl: "pbufs_inv szof s \<Longrightarrow> preserved szof s s"
  by (simp add: preserved_def)

text \<open>The old chain has been freed after its data was copied to \<open>q\<close>.\<close>

definition merged :: "(memp_t \<Rightarrow> nat) \<Rightarrow> ('h, 'z) pbufs_scheme \<Rightarrow> ptr list \<Rightarrow> ptr \<Rightarrow> ('h, 'z) pbufs_scheme \<Rightarrow> bool" where
  "merged szof s ps q s' \<longleftrightarrow> block szof s q = None \<and> live_pbuf szof s' q \<and> pb_ref (pb s' q) = 1 \<and> packet s' (Some q) [q] \<and> pdata s' [q] = pdata s ps \<and>
     (\<forall>x. x \<noteq> q \<longrightarrow> block szof s' x = (if x \<in> set (dead s ps) then None else block szof s x))"

lemma merge_ok:
  assumes p: "packet s (Some p) ps" "buffers szof s ps" "\<forall>x\<in>set ps. 0 < pb_len (pb s x) \<and> 0 < pb_ref (pb s x)"
    and q: "alloced szof layer (length (pdata s ps)) PBUF_RAM s q s1"
  shows "\<exists>s2 n s3. pbuf_copy (Some q) (Some p) s1 = Some (ERR_OK, s2) \<and> pbuf_free cf (Some p) s2 = Some (n, s3) \<and>
    pbufs_inv szof s3 \<and> merged szof s ps q s3"
proof -
  obtain n where g: "grown szof n s [q] s1" "packet s1 (Some q) [q]" "pb_len (pb s1 q) = length (pdata s ps)"
    "live_pbuf szof s1 q" "pb_type (pb s1 q) = PBUF_RAM" "pb_ref (pb s1 q) = 1" using q by (auto simp: alloced_def)
  have k: "preserved szof s s1" using g(1) by (simp add: grown_def)
  note P = preserved_packet [OF k p(1,2)]
  have bq: "buffers szof s1 [q]" using g(4,5) by (simp add: buffers_def has_buffer_def)
  have q': "q \<notin> set ps" using grownD(3) [OF g(1), of q] p(2) by (auto simp: buffers_def live_pbuf_block)
  have ne: "ps \<noteq> []" using p(1) by (auto simp: packet_def)
  have "area s1 q \<inter> area s1 x = {}" if "x \<in> set ps" for x
    using area_disjoint [OF grownD(1) [OF g(1)], of q x] bq P(2) q' that by (auto simp: buffers_def)
  then have sep: "separate s1 [q] ps" by (simp add: separate_def)
  have pos: "\<forall>z\<in>set [q] \<union> set ps. 0 < pb_len (pb s1 z)"
    using p(3) P(4) g(3) ne by (cases ps) auto
  obtain s2 where s2: "pbuf_copy (Some q) (Some p) s1 = Some (ERR_OK, s2)" "filled szof s1 [q] (patch 0 (pdata s1 ps) (pdata s1 [q])) s2"
    using copy_packet [OF grownD(1) [OF g(1)] g(2) P(1) bq sep pos] g(3) P(3) by auto
  have w: "written s1 s2" "pbufs_inv szof s2" "pdata s2 [q] = pdata s ps"
    using s2(2) g(3) P(3) by (auto simp: filled_def patch_def)
  have pb2: "pb s2 = pb s1" using writtenD(1) [OF w(1)] .
  have block2: "block szof s2 = block szof s1" by (intro ext) (simp only: block_def writtenD(2,3) [OF w(1)])
  have dead2: "dead s2 ps = dead s ps" unfolding dead_def pb2 using P(4) by (intro takeWhile_cong) auto
  have sub: "set (dead s ps) \<subseteq> set ps" unfolding dead_def using set_takeWhileD by fastforce
  have c2: "chain (pb_link s2) (Some p) ps" using P(1) writtenD(5) [OF w(1)] by (simp add: packet_def)
  have "\<forall>x\<in>set ps. 0 < pb_ref (pb s2 x)" using p(3) P(4) pb2 by simp
  moreover have "\<forall>x\<in>set (dead s2 ps). live_pbuf szof s2 x" using P(2) sub writtenD(6) [OF w(1)] unfolding dead2 by (auto simp: buffers_def)
  ultimately obtain s3 where s3: "pbuf_free_loop cf (Some p) 0 s2 = Some (u8 (length (dead s ps)), s3)" "released szof s2 (set (dead s ps)) s3"
    "pb s3 = unref (set (take (length (dead s ps) + 1) ps)) (pb s2)"
    using free_loop_released [OF w(2) c2, of 0 cf] unfolding dead2 by auto
  have nq: "q \<notin> set (dead s ps)" "q \<notin> set (take (length (dead s ps) + 1) ps)" using q' sub by (auto dest: in_set_takeD)
  have lq: "live_pbuf szof s2 q" "has_buffer s2 q" using g(4) bq writtenD(6,7) [OF w(1)] by (auto simp: buffers_def)
  have q3: "live_pbuf szof s3 q" "seg s3 q = seg s2 q" "pb s3 q = pb s1 q"
    using released_live [OF s3(2) fun_cong [OF s3(3)] nq(1) lq(1)] released_seg [OF s3(2) fun_cong [OF s3(3)] nq(1) lq] nq(2) s3(3) pb2
    by (simp_all add: unref_def)
  have "packet s3 (Some q) [q]" using g(2) q3(3) by (simp add: packet_def)
  moreover have "block szof s3 x = (if x \<in> set (dead s ps) then None else block szof s x)" if "x \<noteq> q" for x
    using released_block [OF s3(2), of x] block2 grownD(4) [OF g(1), of x] that by simp
  ultimately have "merged szof s ps q s3" using q3 w(3) g(6) grownD(3) [OF g(1), of q] by (simp add: merged_def)
  then show ?thesis using s2(1) s3(1) released_inv [OF s3(2)] by (auto simp: pbuf_free_def)
qed

lemma coalesce_ok:
  assumes inv: "pbufs_inv szof s" "tcpip_inv szof api count maxi s"
    and p: "packet s (Some p) ps" "buffers szof s ps" "\<forall>x\<in>set ps. 0 < pb_len (pb s x) \<and> 0 < pb_ref (pb s x)"
    and len: "ram_size layer (length (pdata s ps)) \<le> 65532"
  shows "\<exists>q s'. pbuf_coalesce api cf p layer s = Some (q, s') \<and> pbufs_inv szof s' \<and>
    (if q = p then grown szof 0 s [] s' \<and> packet s' (Some p) ps \<and> pdata s' ps = pdata s ps else merged szof s ps q s')"
proof (cases "pb_next (pb s p) = None")
  case True
  then show ?thesis using inv(1) p(1) preserved_refl [OF inv(1)] by (simp add: pbuf_coalesce_def grown_def)
next
  case False
  have tot: "pb_tot_len (pb s p) = length (pdata s ps)" "length (pdata s ps) < 65536" using packet_tot [OF p(1)] p(1) by (auto simp: packet_def)
  obtain r s1 where r: "pbuf_alloc api cf layer (length (pdata s ps)) PBUF_RAM s = Some (r, s1)"
    "alloc_post szof api count maxi layer (length (pdata s ps)) PBUF_RAM s r s1" using alloc_ram_ok [OF inv tot(2) len] by blast
  show ?thesis
  proof (cases r)
    case None
    then have g: "grown szof 0 s [] s1" using r(2) by (simp add: alloc_post_def)
    then have "preserved szof s s1" by (simp add: grown_def)
    then have "packet s1 (Some p) ps" "pdata s1 ps = pdata s ps" using preserved_packet [OF _ p(1,2)] by blast+
    moreover have "pbuf_coalesce api cf p layer s = Some (p, s1)" using None False r(1) tot by (auto simp: pbuf_coalesce_def)
    ultimately show ?thesis using g grownD(1) [OF g] by auto
  next
    case (Some q)
    then have q: "alloced szof layer (length (pdata s ps)) PBUF_RAM s q s1" using r(2) by (simp add: alloc_post_def)
    obtain s2 n s3 where s3: "pbuf_copy (Some q) (Some p) s1 = Some (ERR_OK, s2)" "pbuf_free cf (Some p) s2 = Some (n, s3)"
      "pbufs_inv szof s3" "merged szof s ps q s3" using merge_ok [OF p q, of cf] by blast
    have "p \<in> set ps" using p(1) by (auto simp: packet_def chain_Some)
    then have "q \<noteq> p" using s3(4) p(2) by (auto simp: merged_def buffers_def live_pbuf_block)
    moreover have "pbuf_coalesce api cf p layer s = Some (q, s3)" using Some False r(1) tot s3(1,2) by (auto simp: pbuf_coalesce_def)
    ultimately show ?thesis using s3(3,4) by auto
  qed
qed

section \<open>Properties\<close>

text \<open>A packet of pool pbufs in the initial state, for the examples.\<close>

lemma fresh_packet:
  assumes "0 < len" "len < 2000"
  obtains q :: "(nat \<times> nat, msg_ptr) mbox" and p s ps where "pbuf_alloc win32_pair (\<lambda>_ _ _. None) PBUF_RAW len PBUF_POOL (pbufs_start q) = Some (Some p, s)"
    "pbufs_inv szof_pbuf s" "tcpip_inv szof_pbuf win32_pair fst snd s" "packet s (Some p) ps" "buffers szof_pbuf s ps" "length (pdata s ps) = len"
    "\<forall>x\<in>set ps. 0 < pb_len (pb s x) \<and> pb_ref (pb s x) = 1 \<and> pb_type (pb s x) = PBUF_POOL" "\<And>m. block szof_pbuf s (RefPool, m) = None"
proof -
  obtain q :: "(nat \<times> nat, msg_ptr) mbox" where q: "mbox_inv win32_pair fst snd 0 q" "ring q = []" by (rule fresh_mbox)
  have "(len - 128 + 127) div 128 \<le> 20" using assms(2) by simp
  then have "\<not> no_room szof_pbuf PBUF_RAW len PBUF_POOL (pbufs_start q)" by (simp add: no_room_def pbufs_start_live)
  then obtain p s where s: "pbuf_alloc win32_pair (\<lambda>_ _ _. None) PBUF_RAW len PBUF_POOL (pbufs_start q) = Some (Some p, s)"
    "tcpip_inv szof_pbuf win32_pair fst snd s" "alloced szof_pbuf PBUF_RAW len PBUF_POOL (pbufs_start q) p s"
    using alloc_ok [OF pbufs_start_inv [OF q], of len PBUF_POOL PBUF_RAW "\<lambda>_ _ _. None"] assms by (auto simp: alloc_post_def split: option.splits)
  obtain ps n where ps: "grown szof_pbuf n (pbufs_start q) ps s" "packet s (Some p) ps" "length (pdata s ps) = len"
    "\<forall>x\<in>set ps. live_pbuf szof_pbuf s x \<and> pb_type (pb s x) = PBUF_POOL \<and> pb_ref (pb s x) = 1 \<and> 0 < pb_len (pb s x)"
    using s(3) assms(1) by (auto simp: alloced_def)
  have r: "block szof_pbuf s (RefPool, m) = None" for m
    using grownD(4) [OF ps(1), of "(RefPool, m)"] ps(4) by (force simp: live_pbuf_block block_def pbufs_start_live)
  show ?thesis by (rule that [OF s(1) grownD(1) [OF ps(1)] s(2) ps(2) _ ps(3)]) (use ps(4) r in \<open>auto simp: buffers_def has_buffer_def\<close>)
qed

text \<open>C10: On a packet, whatever its division into pbufs, \<open>pbuf_get_at\<close>, \<open>pbuf_copy_partial\<close>, \<open>pbuf_memcmp\<close> and \<open>pbuf_memfind\<close> are the
  operations on the byte sequence the packet stands for: the byte at an offset (0 behind the end), a range clipped at the
  end, 0 for equality or else 1 plus the index of the first difference, and the first occurrence at or behind an
  offset.  All of them return.\<close>

theorem pbuf_access_refines:
  assumes "packet s (Some p) ps"
  shows "pbuf_get_at s (Some p) off = Some (if off < length (pdata s ps) then pdata s ps ! off else 0) \<and>
    pbuf_copy_partial s (Some p) n off = Some (length (take n (drop off (pdata s ps))), take n (drop off (pdata s ps))) \<and>
    pbuf_memcmp s p off bs = Some (if length (pdata s ps) < off + length bs then 0xffff else mismatch 0 (drop off (pdata s ps)) bs) \<and>
    pbuf_memfind s p bs off = Some (if length (pdata s ps) < off + length bs then 0xffff
      else case filter (occurs_at bs (pdata s ps)) [off..<length (pdata s ps) - length bs + 1] of [] \<Rightarrow> 0xffff | k # _ \<Rightarrow> k)"
proof -
  have c: "chain (pb_link s) (Some p) ps" "length (pdata s ps) < 65536" using assms by (simp_all add: packet_def)
  have "min (length (pdata s ps) - off) n < 65536" using c(2) by simp
  then have "pbuf_copy_partial s (Some p) n off = Some (length (take n (drop off (pdata s ps))), take n (drop off (pdata s ps)))"
    using copy_partial_loop [OF c(1), of n off "[]"] by (simp add: pbuf_copy_partial_def u16_id)
  moreover have "pbuf_memfind s p bs off = Some (if length (pdata s ps) < off + length bs then 0xffff
      else case filter (occurs_at bs (pdata s ps)) [off..<length (pdata s ps) - length bs + 1] of [] \<Rightarrow> 0xffff | k # _ \<Rightarrow> k)"
  proof (cases "length (pdata s ps) < off + length bs")
    case False
    then have "length (pdata s ps) - length bs < 65535 \<or> bs = []" using c(2) by (cases bs) auto
    then show ?thesis using False memfind_loop [OF assms, of "length (pdata s ps) - length bs" bs off] c(2) packet_tot [OF assms]
      by (simp add: pbuf_memfind_def sub16_id)
  qed (simp add: pbuf_memfind_def packet_tot [OF assms] add.commute)
  ultimately show ?thesis using get_at [OF c(1)] memcmp [OF assms] by blast
qed

theorem pbuf_access_refines_witness:
  "\<exists>q p s ps. pbuf_alloc win32_pair (\<lambda>_ _ _. None) PBUF_RAW 300 PBUF_POOL (pbufs_start q) = Some (Some p, s) \<and>
     packet s (Some p) ps \<and> pbuf_get_at s (Some p) 299 = Some (pdata s ps ! 299) \<and> pbuf_get_at s (Some p) 300 = Some 0"
proof -
  obtain q :: "(nat \<times> nat, msg_ptr) mbox" and p s ps where s: "pbuf_alloc win32_pair (\<lambda>_ _ _. None) PBUF_RAW 300 PBUF_POOL (pbufs_start q) = Some (Some p, s)"
    "packet s (Some p) ps" "length (pdata s ps) = 300" by (rule fresh_packet [of 300]) auto
  then show ?thesis using pbuf_access_refines [OF s(2), of 299 0 "[]"] pbuf_access_refines [OF s(2), of 300 0 "[]"]
    by (intro exI [of _ q] exI [of _ p] exI [of _ s] exI [of _ ps]) simp
qed

text \<open>C11: \<open>pbuf_take_at\<close> within the bounds of a packet of RAM or pool pbufs overwrites exactly the given range of its
  data, across pbuf borders, and no byte outside the payloads of its pbufs, so the heap stays intact and every other
  pbuf keeps its data; \<open>pbuf_copy_partial\<close> reads the bytes back.  \<open>pbuf_put_at\<close> changes one byte, or
  none behind the end.\<close>

theorem pbuf_take_at_patches:
  assumes "pbufs_inv szof s" "packet s p ps" "buffers szof s ps" "off < length (pdata s ps)" "off + length d \<le> length (pdata s ps)"
  shows "\<exists>s'. pbuf_take_at p d off s = Some (ERR_OK, s') \<and> filled szof s ps (patch off d (pdata s ps)) s' \<and>
    pbuf_copy_partial s' p (length d) off = Some (length d, d) \<and>
    (\<exists>s''. pbuf_put_at p i c s = Some s'' \<and> filled szof s ps ((pdata s ps)[i := c]) s'')"
proof -
  obtain s' where s': "pbuf_take_at p d off s = Some (ERR_OK, s')" "filled szof s ps (patch off d (pdata s ps)) s'"
    using take_at_filled [OF assms] by blast
  obtain x where x: "p = Some x" using assms(2,4) by (cases p) (auto simp: packet_def)
  have w: "written s s'" "pdata s' ps = patch off d (pdata s ps)" using s'(2) by (simp_all add: filled_def)
  have c: "chain (pb_link s') p ps" using packet_written [OF w(1) assms(2)] by (simp add: packet_def)
  have "take (length d) (drop off (pdata s' ps)) = d" using assms(5) w(2) by (simp add: patch_def)
  then have "pbuf_copy_partial s' p (length d) off = Some (length d, d)"
    using copy_partial_loop [OF c, of "length d" off "[]"] x assms(2,5) by (simp add: pbuf_copy_partial_def u16_id packet_def)
  then show ?thesis using s' put_at_filled [OF assms(1-3)] by blast
qed

theorem pbuf_take_at_patches_witness:
  "\<exists>q p s s'. pbuf_alloc win32_pair (\<lambda>_ _ _. None) PBUF_RAW 300 PBUF_POOL (pbufs_start q) = Some (Some p, s) \<and>
     pbuf_take_at (Some p) [1, 2, 3, 4] 126 s = Some (ERR_OK, s') \<and> pbuf_copy_partial s' (Some p) 4 126 = Some (4, [1, 2, 3, 4])"
proof -
  obtain q :: "(nat \<times> nat, msg_ptr) mbox" and p s ps where s: "pbuf_alloc win32_pair (\<lambda>_ _ _. None) PBUF_RAW 300 PBUF_POOL (pbufs_start q) = Some (Some p, s)"
    "pbufs_inv szof_pbuf s" "packet s (Some p) ps" "buffers szof_pbuf s ps" "length (pdata s ps) = 300" by (rule fresh_packet [of 300]) auto
  obtain s' where "pbuf_take_at (Some p) [1, 2, 3, 4] 126 s = Some (ERR_OK, s')" "pbuf_copy_partial s' (Some p) 4 126 = Some (4, [1, 2, 3, 4])"
    using pbuf_take_at_patches [OF s(2-4), of 126 "[1, 2, 3, 4]" 0 0] s(5) by (auto simp: eval_nat_numeral)
  then show ?thesis using s(1) by (intro exI [of _ q] exI [of _ p] exI [of _ s] exI [of _ s']) simp
qed





text \<open>C14: \<open>pbuf_header\<close> on a RAM or pool pbuf refuses, without a change, exactly when the header would reach into the structure or more
  bytes are hidden than the pbuf holds.  Otherwise the payload stays inside the pbuf's memory, hiding drops the first
  bytes and revealing keeps the data behind the new header, and the opposite call restores the state.\<close>

theorem pbuf_header_moves:
  assumes "live_pbuf szof s p" "has_buffer s p" "pb_len (pb s p) \<le> pb_tot_len (pb s p)" "int (pb_tot_len (pb s p)) + d < 65536" "pb_tot_len (pb s p) < 65536"
  shows "if int (header_room s p) < d \<or> int (pb_len (pb s p)) < - d then pbuf_header (Some p) d s = Some (True, s)
    else \<exists>s'. pbuf_header (Some p) d s = Some (False, s') \<and> live_pbuf szof s' p \<and>
      drop (nat (- d)) (seg s p) = drop (nat d) (seg s' p) \<and> int (length (seg s' p)) = int (length (seg s p)) + d \<and>
      pbuf_header (Some p) (- d) s' = Some (False, s)"
proof (cases "int (header_room s p) < d \<or> int (pb_len (pb s p)) < - d")
  case True
  then show ?thesis using header_impl [OF assms(1,2), of d] assms(3,4) by auto
next
  case False
  let ?s = "upd_pb p (move_pb d) s"
  have le: "d \<le> int (header_room s p)" "- d \<le> int (pb_len (pb s p))" using False by auto
  note M = move_live [OF assms(1,2) le]
  have f: "pb_tot_len (pb ?s p) = nat (int (pb_tot_len (pb s p)) + d)" "pb_len (pb ?s p) = nat (int (pb_len (pb s p)) + d)" by (simp_all add: move_pb_def)
  have "pbuf_header (Some p) d s = Some (False, ?s)" using header_impl [OF assms(1,2), of d] le assms(3,4) by auto
  moreover have "pbuf_header (Some p) (- d) ?s = Some (False, s)"
    using header_impl [OF M(1,2), of "- d"] move_back [OF assms(1,2) le] le assms(3-5) f M(3) by auto
  ultimately show ?thesis using False M(1,4) f le by auto
qed

theorem pbuf_header_moves_witness:
  "\<exists>q p s s'. pbuf_alloc win32_pair (\<lambda>_ _ _. None) PBUF_RAW 300 PBUF_POOL (pbufs_start q) = Some (Some p, s) \<and>
     pbuf_header (Some p) (- 1) s = Some (False, s') \<and> seg s' p = drop 1 (seg s p) \<and> pbuf_header (Some p) 1 s' = Some (False, s)"
proof -
  obtain q :: "(nat \<times> nat, msg_ptr) mbox" and p s ps where s: "pbuf_alloc win32_pair (\<lambda>_ _ _. None) PBUF_RAW 300 PBUF_POOL (pbufs_start q) = Some (Some p, s)"
    "packet s (Some p) ps" "buffers szof_pbuf s ps" "length (pdata s ps) = 300" "\<forall>x\<in>set ps. 0 < pb_len (pb s x) \<and> pb_ref (pb s x) = 1"
    by (rule fresh_packet [of 300]) auto
  have p: "p \<in> set ps" "pb_tot_len (pb s p) = 300" "pb_len (pb s p) \<le> 300" using s(2,4) packet_tot [OF s(2)] by (auto simp: packet_def chain_Some)
  then have l: "live_pbuf szof_pbuf s p" "has_buffer s p" "0 < pb_len (pb s p)" using s(3,5) by (auto simp: buffers_def)
  obtain s' where "pbuf_header (Some p) (- 1) s = Some (False, s')" "seg s' p = drop 1 (seg s p)" "pbuf_header (Some p) 1 s' = Some (False, s)"
    using pbuf_header_moves [OF l(1,2), of "- 1"] p l(3) by auto
  then show ?thesis using s(1) by (intro exI [of _ q] exI [of _ p] exI [of _ s] exI [of _ s']) simp
qed

end
