(* ===== verification/Snmp_Asn1.thy ===== *)
theory Snmp_Asn1
  imports Pbuf_Ops
begin

text \<open>
  The ASN.1/BER coder of the SNMP agent, \<open>src/lwip/src/apps/snmp/snmp_asn1.c\<close>, on the byte stream over a
  pbuf chain of \<open>snmp_pbuf_stream.c\<close>.  A stream is a window of a chain; reading and writing move its start.
  The encoders change the memory of the pbufs, so they take and return the state of \<open>Pbuf\<close>; the decoders
  only read it.  A decoder returns \<open>Inl\<close> with the error code, or \<open>Inr\<close> with what it stores in its out parameters.
\<close>

unbundle bit_operations_syntax

section \<open>The stream\<close>

record snmp_pbuf_stream =
  st_pbuf :: "ptr option"
  st_offset :: nat
  st_length :: nat

definition snmp_pbuf_stream_init :: "ptr option \<Rightarrow> nat \<Rightarrow> nat \<Rightarrow> err_t \<times> snmp_pbuf_stream" where
  "snmp_pbuf_stream_init p offset len = (ERR_OK, \<lparr>st_pbuf = p, st_offset = offset, st_length = len\<rparr>)"

definition snmp_pbuf_stream_read :: "('h, 'z) pbufs_scheme \<Rightarrow> snmp_pbuf_stream \<Rightarrow> ((err_t + u8_t) \<times> snmp_pbuf_stream) option" where
  "snmp_pbuf_stream_read s st =
     (if st_length st = 0 then Some (Inl ERR_BUF, st)
      else do {
        (n, bs) \<leftarrow> pbuf_copy_partial s (st_pbuf st) 1 (st_offset st);
        if n = 0 then Some (Inl ERR_BUF, st)
        else Some (Inr (hd bs), st\<lparr>st_offset := u16 (st_offset st + 1), st_length := st_length st - 1\<rparr>) })"

definition snmp_pbuf_stream_writebuf ::
  "u8_t list \<Rightarrow> snmp_pbuf_stream \<Rightarrow> ('h, 'z) pbufs_scheme \<Rightarrow> (err_t \<times> snmp_pbuf_stream \<times> ('h, 'z) pbufs_scheme) option" where
  "snmp_pbuf_stream_writebuf buf st s =
     (if st_length st < length buf then Some (ERR_BUF, st, s)
      else do {
        (e, s) \<leftarrow> pbuf_take_at (st_pbuf st) buf (st_offset st) s;
        if e \<noteq> ERR_OK then Some (ERR_BUF, st, s)
        else Some (ERR_OK, st\<lparr>st_offset := u16 (st_offset st + length buf), st_length := st_length st - length buf\<rparr>, s) })"

definition snmp_pbuf_stream_write ::
  "u8_t \<Rightarrow> snmp_pbuf_stream \<Rightarrow> ('h, 'z) pbufs_scheme \<Rightarrow> (err_t \<times> snmp_pbuf_stream \<times> ('h, 'z) pbufs_scheme) option" where
  "snmp_pbuf_stream_write data st s = snmp_pbuf_stream_writebuf [data] st s"

text \<open>The loop of \<open>snmp_pbuf_stream_writeto\<close>.  A pbuf chunk is addressed by pointer, so bytes behind the payload are those of
  the memory there.\<close>

partial_function (option) writeto_loop :: "nat \<Rightarrow> snmp_pbuf_stream \<Rightarrow> snmp_pbuf_stream \<Rightarrow> ('h, 'z) pbufs_scheme \<Rightarrow>
    (err_t \<times> snmp_pbuf_stream \<times> snmp_pbuf_stream \<times> ('h, 'z) pbufs_scheme) option" where
  "writeto_loop len st target s =
     (if len = 0 then Some (ERR_OK, st, target, s)
      else do {
        (q, target_offset) \<leftarrow> pbuf_skip s (st_pbuf st) (st_offset st);
        case q of
          None \<Rightarrow> Some (ERR_BUF, st, target, s)
        | Some q \<Rightarrow>
            if pb_len (pb s q) = 0 then Some (ERR_BUF, st, target, s)
            else
              let chunk_len = min len (pb_len (pb s q)) in do {
                (e, target, s) \<leftarrow> snmp_pbuf_stream_writebuf (load_bytes s (padd (pb_payload (pb s q)) target_offset) chunk_len) target s;
                if e \<noteq> ERR_OK then Some (e, st, target, s)
                else writeto_loop (len - chunk_len)
                  (st\<lparr>st_offset := u16 (st_offset st + chunk_len), st_length := sub16 (st_length st) chunk_len\<rparr>) target s } })"

definition snmp_pbuf_stream_writeto :: "snmp_pbuf_stream option \<Rightarrow> snmp_pbuf_stream option \<Rightarrow> nat \<Rightarrow> ('h, 'z) pbufs_scheme \<Rightarrow>
    (err_t \<times> snmp_pbuf_stream option \<times> snmp_pbuf_stream option \<times> ('h, 'z) pbufs_scheme) option" where
  "snmp_pbuf_stream_writeto pbuf_stream target_pbuf_stream len s =
     (case (pbuf_stream, target_pbuf_stream) of
        (Some st, Some target) \<Rightarrow>
          if len > st_length st \<or> len > st_length target then Some (ERR_ARG, Some st, Some target, s)
          else
            let len = (if len = 0 then min (st_length st) (st_length target) else len)
            in map_option (\<lambda>(e, st, target, s). (e, Some st, Some target, s)) (writeto_loop len st target s)
      | _ \<Rightarrow> Some (ERR_ARG, pbuf_stream, target_pbuf_stream, s))"

definition snmp_pbuf_stream_seek :: "int \<Rightarrow> snmp_pbuf_stream \<Rightarrow> err_t \<times> snmp_pbuf_stream" where
  "snmp_pbuf_stream_seek offset st =
     (if offset < 0 \<or> offset > int (st_length st) then (ERR_ARG, st)
      else (ERR_OK, st\<lparr>st_offset := u16 (st_offset st + u16 (nat offset)), st_length := sub16 (st_length st) (u16 (nat offset))\<rparr>))"

definition snmp_pbuf_stream_seek_abs :: "nat \<Rightarrow> snmp_pbuf_stream \<Rightarrow> err_t \<times> snmp_pbuf_stream" where
  "snmp_pbuf_stream_seek_abs offset st =
     (let rel_offset = sint (of_nat offset - of_nat (st_offset st) :: u32_t) in snmp_pbuf_stream_seek rel_offset st)"

section \<open>Encoding\<close>

text \<open>The macro \<open>PBUF_OP_EXEC\<close>: a failed stream operation ends the function with \<open>ERR_BUF\<close>.  \<open>res\<close> is what the function
  then leaves behind; the second form is the one around reads.\<close>

definition PBUF_OP_EXEC :: "'r \<Rightarrow> (err_t \<times> snmp_pbuf_stream \<times> 's) option \<Rightarrow> (snmp_pbuf_stream \<Rightarrow> 's \<Rightarrow> ('r \<times> snmp_pbuf_stream \<times> 's) option) \<Rightarrow>
    ('r \<times> snmp_pbuf_stream \<times> 's) option" where
  "PBUF_OP_EXEC res code k = do {
     (e, st, s) \<leftarrow> code;
     if e \<noteq> ERR_OK then Some (res, st, s) else k st s }"

definition PBUF_OP_READ :: "((err_t + 'a) \<times> snmp_pbuf_stream) option \<Rightarrow> ('a \<Rightarrow> snmp_pbuf_stream \<Rightarrow> ((err_t + 'v) \<times> snmp_pbuf_stream) option) \<Rightarrow>
    ((err_t + 'v) \<times> snmp_pbuf_stream) option" where
  "PBUF_OP_READ code k =
     (case code of
        None \<Rightarrow> None
      | Some (Inl e, st) \<Rightarrow> Some (Inl ERR_BUF, st)
      | Some (Inr data, st) \<Rightarrow> k data st)"

lemma PBUF_OP_READ_cong [fundef_cong]:
  "m = m' \<Longrightarrow> (\<And>data st. m' = Some (Inr data, st) \<Longrightarrow> k data st = k' data st) \<Longrightarrow> PBUF_OP_READ m k = PBUF_OP_READ m' k'"
  by (auto simp: PBUF_OP_READ_def split: option.splits sum.splits)

record snmp_asn1_tlv =
  tlv_type :: u8_t
  type_len :: nat
  length_len :: nat
  value_len :: nat

definition SNMP_ASN1_DATATYPE_MASK :: u8_t where "SNMP_ASN1_DATATYPE_MASK = 0x1F"
definition SNMP_ASN1_DATATYPE_EXTENDED :: u8_t where "SNMP_ASN1_DATATYPE_EXTENDED = 0x1F"

text \<open>The length octets in front of the lowest one.\<close>

fun enc_length_loop :: "nat \<Rightarrow> nat \<Rightarrow> snmp_pbuf_stream \<Rightarrow> ('h, 'z) pbufs_scheme \<Rightarrow> (err_t \<times> snmp_pbuf_stream \<times> ('h, 'z) pbufs_scheme) option" where
  "enc_length_loop length_bytes_required vlen st s =
     (if length_bytes_required > 1 then
        let data = (if length_bytes_required = 2 then of_nat (drop_bit 8 vlen) else 0)
        in PBUF_OP_EXEC ERR_BUF (snmp_pbuf_stream_write data st s) (enc_length_loop (length_bytes_required - 1) vlen)
      else Some (ERR_OK, st, s))"

declare enc_length_loop.simps [simp del]

definition snmp_ans1_enc_tlv :: "snmp_asn1_tlv \<Rightarrow> snmp_pbuf_stream \<Rightarrow> ('h, 'z) pbufs_scheme \<Rightarrow>
    ((err_t \<times> snmp_asn1_tlv) \<times> snmp_pbuf_stream \<times> ('h, 'z) pbufs_scheme) option" where
  "snmp_ans1_enc_tlv tlv st s =
     (if tlv_type tlv AND SNMP_ASN1_DATATYPE_MASK = SNMP_ASN1_DATATYPE_EXTENDED then Some ((ERR_ARG, tlv), st, s)
      else if type_len tlv \<noteq> 0 then Some ((ERR_ARG, tlv), st, s)
      else PBUF_OP_EXEC (ERR_BUF, tlv) (snmp_pbuf_stream_write (tlv_type tlv) st s) (\<lambda>st s.
        let tlv = tlv\<lparr>type_len := 1\<rparr>;
            required = (if value_len tlv \<le> 127 then 1 else if value_len tlv \<le> 255 then 2 else 3)
        in if length_len tlv > 0 \<and> length_len tlv < required then Some ((ERR_ARG, tlv), st, s)
           else
             let (required, tlv) = (if length_len tlv > 0 then (length_len tlv, tlv) else (required, tlv\<lparr>length_len := required\<rparr>));
                 low = (\<lambda>st s. PBUF_OP_EXEC (ERR_BUF, tlv) (snmp_pbuf_stream_write (of_nat (value_len tlv AND 0xFF)) st s)
                   (\<lambda>st s. Some ((ERR_OK, tlv), st, s)))
             in if required > 1 then
                  PBUF_OP_EXEC (ERR_BUF, tlv) (snmp_pbuf_stream_write (0x80 OR of_nat (required - 1)) st s) (\<lambda>st s.
                  PBUF_OP_EXEC (ERR_BUF, tlv) (enc_length_loop (required - 1) (value_len tlv) st s) low)
                else low st s))"

definition snmp_asn1_enc_raw :: "u8_t list \<Rightarrow> snmp_pbuf_stream \<Rightarrow> ('h, 'z) pbufs_scheme \<Rightarrow> (err_t \<times> snmp_pbuf_stream \<times> ('h, 'z) pbufs_scheme) option" where
  "snmp_asn1_enc_raw raw st s = PBUF_OP_EXEC ERR_BUF (snmp_pbuf_stream_writebuf raw st s) (\<lambda>st s. Some (ERR_OK, st, s))"

text \<open>The loops of the integer encoders: they count \<open>octets_needed\<close> down to \<open>lo\<close> and write the octets with these numbers.\<close>

fun enc_octets_loop :: "nat \<Rightarrow> (nat \<Rightarrow> u8_t) \<Rightarrow> nat \<Rightarrow> snmp_pbuf_stream \<Rightarrow> ('h, 'z) pbufs_scheme \<Rightarrow> (err_t \<times> snmp_pbuf_stream \<times> ('h, 'z) pbufs_scheme) option" where
  "enc_octets_loop lo oct octets_needed st s =
     (if octets_needed > lo then
        PBUF_OP_EXEC ERR_BUF (snmp_pbuf_stream_write (oct (octets_needed - 1)) st s) (enc_octets_loop lo oct (octets_needed - 1))
      else Some (ERR_OK, st, s))"

declare enc_octets_loop.simps [simp del]

definition snmp_asn1_enc_u32t :: "nat \<Rightarrow> u32_t \<Rightarrow> snmp_pbuf_stream \<Rightarrow> ('h, 'z) pbufs_scheme \<Rightarrow> (err_t \<times> snmp_pbuf_stream \<times> ('h, 'z) pbufs_scheme) option" where
  "snmp_asn1_enc_u32t octets_needed value st s =
     (let rest = (\<lambda>octets_needed st s.
            PBUF_OP_EXEC ERR_BUF (enc_octets_loop 1 (\<lambda>i. ucast (drop_bit (push_bit 3 i) value)) octets_needed st s) (\<lambda>st s.
            PBUF_OP_EXEC ERR_BUF (snmp_pbuf_stream_write (ucast value) st s) (\<lambda>st s. Some (ERR_OK, st, s))))
      in if octets_needed > 5 then Some (ERR_ARG, st, s)
         else if octets_needed = 5 then PBUF_OP_EXEC ERR_BUF (snmp_pbuf_stream_write 0 st s) (rest (octets_needed - 1))
         else rest octets_needed st s)"

text \<open>A \<open>u64_t\<close> is two words, the high one first.\<close>

definition snmp_asn1_enc_u64t :: "nat \<Rightarrow> u32_t \<times> u32_t \<Rightarrow> snmp_pbuf_stream \<Rightarrow> ('h, 'z) pbufs_scheme \<Rightarrow> (err_t \<times> snmp_pbuf_stream \<times> ('h, 'z) pbufs_scheme) option" where
  "snmp_asn1_enc_u64t octets_needed value st s =
     (let rest = (\<lambda>octets_needed st s.
            PBUF_OP_EXEC ERR_BUF (enc_octets_loop 4 (\<lambda>i. ucast (drop_bit (push_bit 3 (i - 4)) (fst value))) octets_needed st s) (\<lambda>st s.
            PBUF_OP_EXEC ERR_BUF (enc_octets_loop 1 (\<lambda>i. ucast (drop_bit (push_bit 3 i) (snd value))) (min octets_needed 4) st s) (\<lambda>st s.
            PBUF_OP_EXEC ERR_BUF (snmp_pbuf_stream_write (ucast (snd value)) st s) (\<lambda>st s. Some (ERR_OK, st, s)))))
      in if octets_needed > 9 then Some (ERR_ARG, st, s)
         else if octets_needed = 9 then PBUF_OP_EXEC ERR_BUF (snmp_pbuf_stream_write 0 st s) (rest (octets_needed - 1))
         else rest octets_needed st s)"

text \<open>An \<open>s32_t\<close> is its two's complement bit pattern; \<open>>>\<close> is the arithmetic shift.\<close>

type_synonym s32_t = "32 word"

definition snmp_asn1_enc_s32t :: "nat \<Rightarrow> s32_t \<Rightarrow> snmp_pbuf_stream \<Rightarrow> ('h, 'z) pbufs_scheme \<Rightarrow> (err_t \<times> snmp_pbuf_stream \<times> ('h, 'z) pbufs_scheme) option" where
  "snmp_asn1_enc_s32t octets_needed value st s =
     PBUF_OP_EXEC ERR_BUF (enc_octets_loop 1 (\<lambda>i. ucast (signed_drop_bit (push_bit 3 i) value)) octets_needed st s) (\<lambda>st s.
     PBUF_OP_EXEC ERR_BUF (snmp_pbuf_stream_write (ucast value) st s) (\<lambda>st s. Some (ERR_OK, st, s)))"

fun enc_sub_id_loop :: "nat \<Rightarrow> bool \<Rightarrow> u32_t \<Rightarrow> snmp_pbuf_stream \<Rightarrow> ('h, 'z) pbufs_scheme \<Rightarrow> (err_t \<times> snmp_pbuf_stream \<times> ('h, 'z) pbufs_scheme) option" where
  "enc_sub_id_loop shift tail sub_id st s =
     (if shift > 0 then
        let code = ucast (drop_bit shift sub_id) :: u8_t
        in if code \<noteq> 0 \<or> tail then
             PBUF_OP_EXEC ERR_BUF (snmp_pbuf_stream_write (code OR 0x80) st s) (enc_sub_id_loop (shift - 7) True sub_id)
           else enc_sub_id_loop (shift - 7) tail sub_id st s
      else Some (ERR_OK, st, s))"

declare enc_sub_id_loop.simps [simp del]

fun enc_oid_loop :: "u32_t list \<Rightarrow> snmp_pbuf_stream \<Rightarrow> ('h, 'z) pbufs_scheme \<Rightarrow> (err_t \<times> snmp_pbuf_stream \<times> ('h, 'z) pbufs_scheme) option" where
  "enc_oid_loop [] st s = Some (ERR_OK, st, s)"
| "enc_oid_loop (sub_id # oid) st s =
     PBUF_OP_EXEC ERR_BUF (enc_sub_id_loop 28 False sub_id st s) (\<lambda>st s.
     PBUF_OP_EXEC ERR_BUF (snmp_pbuf_stream_write (ucast sub_id AND 0x7F) st s) (enc_oid_loop oid))"

definition snmp_asn1_enc_oid :: "u32_t list \<Rightarrow> snmp_pbuf_stream \<Rightarrow> ('h, 'z) pbufs_scheme \<Rightarrow> (err_t \<times> snmp_pbuf_stream \<times> ('h, 'z) pbufs_scheme) option" where
  "snmp_asn1_enc_oid oid st s =
     (if length oid > 1 then
        let compressed_byte = oid ! 0 * 40 + oid ! 1
        in PBUF_OP_EXEC ERR_BUF (snmp_pbuf_stream_write (ucast compressed_byte) st s) (enc_oid_loop (drop 2 oid))
      else Some (ERR_ARG, st, s))"

section \<open>Encoded lengths\<close>

definition snmp_asn1_enc_length_cnt :: "nat \<Rightarrow> nat" where
  "snmp_asn1_enc_length_cnt len = (if len < 0x80 then 1 else if len < 0x100 then 2 else 3)"

definition snmp_asn1_enc_u32t_cnt :: "u32_t \<Rightarrow> nat" where
  "snmp_asn1_enc_u32t_cnt value =
     (if value < 0x80 then 1 else if value < 0x8000 then 2 else if value < 0x800000 then 3 else if value < 0x80000000 then 4 else 5)"

definition snmp_asn1_enc_u64t_cnt :: "u32_t \<times> u32_t \<Rightarrow> nat" where
  "snmp_asn1_enc_u64t_cnt value =
     (if fst value = 0 then snmp_asn1_enc_u32t_cnt (snd value) else snmp_asn1_enc_u32t_cnt (fst value) + 4)"

definition snmp_asn1_enc_s32t_cnt :: "s32_t \<Rightarrow> nat" where
  "snmp_asn1_enc_s32t_cnt value =
     (let value = (if sint value < 0 then NOT value else value)
      in if sint value < 0x80 then 1 else if sint value < 0x8000 then 2 else if sint value < 0x800000 then 3 else 4)"

lemma drop_bit_7_less: "(0::u32_t) < x \<Longrightarrow> unat (drop_bit 7 x) < unat x"
  by (subst unat_drop_bit_eq) (simp add: drop_bit_eq_div word_less_nat_alt)

function sub_id_cnt_loop :: "u32_t \<Rightarrow> nat \<Rightarrow> nat" where
  "sub_id_cnt_loop sub_id n = (if sub_id > 0 then sub_id_cnt_loop (drop_bit 7 sub_id) (u16 (n + 1)) else n)"
  by pat_completeness auto
termination by (relation "measure (unat \<circ> fst)") (simp_all add: drop_bit_7_less)

declare sub_id_cnt_loop.simps [simp del]

fun oid_cnt_loop :: "u32_t list \<Rightarrow> nat \<Rightarrow> nat" where
  "oid_cnt_loop [] n = n"
| "oid_cnt_loop (sub_id # oid) n = oid_cnt_loop oid (sub_id_cnt_loop (drop_bit 7 sub_id) (u16 (n + 1)))"

definition snmp_asn1_enc_oid_cnt :: "u32_t list \<Rightarrow> nat" where
  "snmp_asn1_enc_oid_cnt oid = (if length oid > 1 then oid_cnt_loop (drop 2 oid) 1 else oid_cnt_loop oid 0)"

section \<open>Decoding\<close>

fun dec_length_loop :: "('h, 'z) pbufs_scheme \<Rightarrow> nat \<Rightarrow> nat \<Rightarrow> snmp_pbuf_stream \<Rightarrow> ((err_t + nat) \<times> snmp_pbuf_stream) option" where
  "dec_length_loop s length_bytes vlen st =
     (if length_bytes > 0 then
        if vlen > 0xFF then Some (Inl ERR_VAL, st)
        else PBUF_OP_READ (snmp_pbuf_stream_read s st) (\<lambda>data st.
          let vlen = u16 (push_bit 8 vlen) OR unat data
          in if vlen = 0xFFFF then Some (Inl ERR_VAL, st) else dec_length_loop s (length_bytes - 1) vlen st)
      else Some (Inr vlen, st))"

declare dec_length_loop.simps [simp del]

definition snmp_asn1_dec_tlv :: "('h, 'z) pbufs_scheme \<Rightarrow> snmp_pbuf_stream \<Rightarrow> ((err_t + snmp_asn1_tlv) \<times> snmp_pbuf_stream) option" where
  "snmp_asn1_dec_tlv s st =
     PBUF_OP_READ (snmp_pbuf_stream_read s st) (\<lambda>ty st.
       if ty AND SNMP_ASN1_DATATYPE_MASK = SNMP_ASN1_DATATYPE_EXTENDED then Some (Inl ERR_VAL, st)
       else PBUF_OP_READ (snmp_pbuf_stream_read s st) (\<lambda>data st.
         if data < 0x80 then Some (Inr \<lparr>tlv_type = ty, type_len = 1, length_len = 1, value_len = unat data\<rparr>, st)
         else if data > 0x80 then
           let length_bytes = unat (data - 0x80) in
           case dec_length_loop s length_bytes 0 st of
             None \<Rightarrow> None
           | Some (Inl e, st) \<Rightarrow> Some (Inl e, st)
           | Some (Inr vlen, st) \<Rightarrow> Some (Inr \<lparr>tlv_type = ty, type_len = 1, length_len = length_bytes + 1, value_len = vlen\<rparr>, st)
         else Some (Inl ERR_VAL, st)))"

fun dec_u32t_loop :: "('h, 'z) pbufs_scheme \<Rightarrow> nat \<Rightarrow> u32_t \<Rightarrow> snmp_pbuf_stream \<Rightarrow> ((err_t + u32_t) \<times> snmp_pbuf_stream) option" where
  "dec_u32t_loop s len value st =
     (if len > 0 then
        PBUF_OP_READ (snmp_pbuf_stream_read s st) (\<lambda>data st. dec_u32t_loop s (len - 1) (push_bit 8 value OR ucast data) st)
      else Some (Inr value, st))"

declare dec_u32t_loop.simps [simp del]

definition snmp_asn1_dec_u32t :: "('h, 'z) pbufs_scheme \<Rightarrow> nat \<Rightarrow> snmp_pbuf_stream \<Rightarrow> ((err_t + u32_t) \<times> snmp_pbuf_stream) option" where
  "snmp_asn1_dec_u32t s len st =
     (if len > 0 \<and> len \<le> 5 then
        PBUF_OP_READ (snmp_pbuf_stream_read s st) (\<lambda>data st.
          if len = 5 \<and> data = 0 \<or> len < 5 \<and> data AND 0x80 = 0 then dec_u32t_loop s (len - 1) (ucast data) st
          else Some (Inl ERR_VAL, st))
      else Some (Inl ERR_VAL, st))"

text \<open>\<open>low\<close> tells which word of the array \<open>*value\<close> is.\<close>

definition set_word :: "bool \<Rightarrow> (u32_t \<Rightarrow> u32_t) \<Rightarrow> u32_t \<times> u32_t \<Rightarrow> u32_t \<times> u32_t" where
  "set_word low f v = (if low then (fst v, f (snd v)) else (f (fst v), snd v))"

fun dec_u64t_loop :: "('h, 'z) pbufs_scheme \<Rightarrow> nat \<Rightarrow> bool \<Rightarrow> u32_t \<times> u32_t \<Rightarrow> snmp_pbuf_stream \<Rightarrow> ((err_t + u32_t \<times> u32_t) \<times> snmp_pbuf_stream) option" where
  "dec_u64t_loop s len low value st =
     (if len > 0 then
        PBUF_OP_READ (snmp_pbuf_stream_read s st) (\<lambda>data st.
          let (low, value) = (if len = 4 then (True, set_word True (\<lambda>_. 0) value) else (low, set_word low (push_bit 8) value))
          in dec_u64t_loop s (len - 1) low (set_word low (\<lambda>w. w OR ucast data) value) st)
      else Some (Inr value, st))"

declare dec_u64t_loop.simps [simp del]

text \<open>\<open>value\<close> is the contents of the caller's array.\<close>

definition snmp_asn1_dec_u64t :: "('h, 'z) pbufs_scheme \<Rightarrow> nat \<Rightarrow> u32_t \<times> u32_t \<Rightarrow> snmp_pbuf_stream \<Rightarrow> ((err_t + u32_t \<times> u32_t) \<times> snmp_pbuf_stream) option" where
  "snmp_asn1_dec_u64t s len value st =
     (let (low, value) = (if len \<le> 4 then (True, set_word False (\<lambda>_. 0) value) else (False, value))
      in if len > 0 \<and> len \<le> 9 then
           PBUF_OP_READ (snmp_pbuf_stream_read s st) (\<lambda>data st.
             if len = 9 \<and> data = 0 \<or> len < 9 \<and> data AND 0x80 = 0 then
               dec_u64t_loop s (len - 1) low (set_word low (\<lambda>_. ucast data) value) st
             else Some (Inl ERR_VAL, st))
         else Some (Inl ERR_VAL, st))"

text \<open>Updates of \<open>*lsb_ptr\<close>, the lowest byte of \<open>*value\<close> on a little-endian host.\<close>

definition lsb_and :: "u8_t \<Rightarrow> s32_t \<Rightarrow> s32_t" where
  "lsb_and data value = (value AND NOT 0xFF) OR ucast ((ucast value :: u8_t) AND data)"

definition lsb_or :: "u8_t \<Rightarrow> s32_t \<Rightarrow> s32_t" where
  "lsb_or data value = (value AND NOT 0xFF) OR ucast ((ucast value :: u8_t) OR data)"

fun dec_s32t_loop :: "('h, 'z) pbufs_scheme \<Rightarrow> nat \<Rightarrow> bool \<Rightarrow> s32_t \<Rightarrow> snmp_pbuf_stream \<Rightarrow> ((err_t + s32_t) \<times> snmp_pbuf_stream) option" where
  "dec_s32t_loop s len neg value st =
     (if len > 0 then
        PBUF_OP_READ (snmp_pbuf_stream_read s st) (\<lambda>data st.
          let value = push_bit 8 value;
              value = (if neg then lsb_and data (lsb_or 255 value) else lsb_or data value)
          in dec_s32t_loop s (len - 1) neg value st)
      else Some (Inr value, st))"

declare dec_s32t_loop.simps [simp del]

definition snmp_asn1_dec_s32t :: "('h, 'z) pbufs_scheme \<Rightarrow> nat \<Rightarrow> snmp_pbuf_stream \<Rightarrow> ((err_t + s32_t) \<times> snmp_pbuf_stream) option" where
  "snmp_asn1_dec_s32t s len st =
     (if len > 0 \<and> len < 5 then
        PBUF_OP_READ (snmp_pbuf_stream_read s st) (\<lambda>data st.
          if data AND 0x80 \<noteq> 0 then dec_s32t_loop s (len - 1) True (lsb_and data (- 1)) st
          else dec_s32t_loop s (len - 1) False (lsb_or data 0) st)
      else Some (Inl ERR_VAL, st))"

text \<open>The octets of one sub-identifier; the result is what is left of \<open>len\<close>, the last octet and \<open>sub_id\<close>.\<close>

fun dec_sub_id_loop :: "('h, 'z) pbufs_scheme \<Rightarrow> nat \<Rightarrow> u8_t \<Rightarrow> u32_t \<Rightarrow> snmp_pbuf_stream \<Rightarrow> ((err_t + nat \<times> u8_t \<times> u32_t) \<times> snmp_pbuf_stream) option" where
  "dec_sub_id_loop s len data sub_id st =
     (if len > 0 \<and> data AND 0x80 \<noteq> 0 then
        PBUF_OP_READ (snmp_pbuf_stream_read s st) (\<lambda>data st.
          dec_sub_id_loop s (len - 1) data (push_bit 7 sub_id + ucast (data AND NOT 0x80)) st)
      else Some (Inr (len, data, sub_id), st))"

declare dec_sub_id_loop.simps [simp del]

lemma PBUF_OP_READ_Inr: "PBUF_OP_READ m k = Some (Inr v, st) \<longleftrightarrow> (\<exists>data st'. m = Some (Inr data, st') \<and> k data st' = Some (Inr v, st))"
  by (auto simp: PBUF_OP_READ_def split: option.splits sum.splits)

lemma dec_sub_id_len: "dec_sub_id_loop s len data sub_id st = Some (Inr (len', data', sub_id'), st') \<Longrightarrow> len' \<le> len"
proof (induction s len data sub_id st rule: dec_sub_id_loop.induct)
  case (1 s len data sub_id st)
  show ?case
  proof (cases "len > 0 \<and> data AND 0x80 \<noteq> 0")
    case True
    with 1(2) obtain d t where "snmp_pbuf_stream_read s st = Some (Inr d, t)"
      "dec_sub_id_loop s (len - 1) d (push_bit 7 sub_id + ucast (d AND NOT 0x80)) t = Some (Inr (len', data', sub_id'), st')"
      by (subst (asm) dec_sub_id_loop.simps) (auto simp: PBUF_OP_READ_Inr)
    from 1(1) [OF True this] show ?thesis by simp
  next
    case False
    then show ?thesis using 1(2) by (subst (asm) dec_sub_id_loop.simps) auto
  qed
qed

function dec_oid_loop :: "('h, 'z) pbufs_scheme \<Rightarrow> nat \<Rightarrow> nat \<Rightarrow> u32_t list \<Rightarrow> snmp_pbuf_stream \<Rightarrow> ((err_t + u32_t list) \<times> snmp_pbuf_stream) option" where
  "dec_oid_loop s len oid_max_len oid st =
     (if len > 0 \<and> length oid < oid_max_len then
        PBUF_OP_READ (snmp_pbuf_stream_read s st) (\<lambda>data st.
          if data AND 0x80 = 0 then dec_oid_loop s (len - 1) oid_max_len (oid @ [ucast data]) st
          else PBUF_OP_READ (dec_sub_id_loop s (len - 1) data (ucast (data AND NOT 0x80)) st) (\<lambda>(len', data, sub_id) st.
            if data AND 0x80 \<noteq> 0 then Some (Inl ERR_VAL, st)
            else dec_oid_loop s len' oid_max_len (oid @ [sub_id]) st))
      else if len > 0 then Some (Inl ERR_MEM, st)
      else Some (Inr oid, st))"
  by pat_completeness auto
termination by (relation "measure (\<lambda>(s, len, _). len)") (auto dest!: dec_sub_id_len)

declare dec_oid_loop.simps [simp del]

definition snmp_asn1_dec_oid :: "('h, 'z) pbufs_scheme \<Rightarrow> nat \<Rightarrow> nat \<Rightarrow> snmp_pbuf_stream \<Rightarrow> ((err_t + u32_t list) \<times> snmp_pbuf_stream) option" where
  "snmp_asn1_dec_oid s len oid_max_len st =
     (if len > 0 then
        if oid_max_len < 2 then Some (Inl ERR_MEM, st)
        else PBUF_OP_READ (snmp_pbuf_stream_read s st) (\<lambda>data st.
          let oid = (if data = 0x2B then [1, 3] else if data < 40 then [0, ucast data]
            else if data < 80 then [1, ucast data - 40] else [2, ucast data - 80])
          in dec_oid_loop s (len - 1) oid_max_len oid st)
      else Some (Inr [], st))"

fun dec_raw_loop :: "('h, 'z) pbufs_scheme \<Rightarrow> nat \<Rightarrow> u8_t list \<Rightarrow> snmp_pbuf_stream \<Rightarrow> ((err_t + u8_t list) \<times> snmp_pbuf_stream) option" where
  "dec_raw_loop s len buf st =
     (if len > 0 then PBUF_OP_READ (snmp_pbuf_stream_read s st) (\<lambda>data st. dec_raw_loop s (len - 1) (buf @ [data]) st)
      else Some (Inr buf, st))"

declare dec_raw_loop.simps [simp del]

definition snmp_asn1_dec_raw :: "('h, 'z) pbufs_scheme \<Rightarrow> nat \<Rightarrow> nat \<Rightarrow> snmp_pbuf_stream \<Rightarrow> ((err_t + u8_t list) \<times> snmp_pbuf_stream) option" where
  "snmp_asn1_dec_raw s len buf_max_len st = (if len > buf_max_len then Some (Inl ERR_MEM, st) else dec_raw_loop s len [] st)"

end
