(* ===== verification/Snmp_Codec.thy ===== *)
theory Snmp_Codec
  imports Snmp_Asn1
begin

text \<open>
  The SNMP stream is a byte list and the coders of \<open>Snmp_Asn1\<close> are inverse to each other.  What an encoder writes is
  given by a list of octets (\<open>emits\<close>); what a decoder accepts by the octets it consumes and its result (\<open>consumes\<close>).
\<close>

section \<open>Writing\<close>

definition moved :: "nat \<Rightarrow> snmp_pbuf_stream \<Rightarrow> snmp_pbuf_stream" where
  "moved n st = st\<lparr>st_offset := st_offset st + n, st_length := st_length st - n\<rparr>"

lemma moved_simps [simp]: "st_pbuf (moved n st) = st_pbuf st" "st_offset (moved n st) = st_offset st + n"
  "st_length (moved n st) = st_length st - n" "moved m (moved n st) = moved (n + m) st" "moved 0 st = st"
  by (simp_all add: moved_def add.assoc)

text \<open>The stream \<open>st\<close> is a window of the packet \<open>ps\<close>; for writing, the pbufs of the packet have buffers.\<close>

definition window :: "('h, 'z) pbufs_scheme \<Rightarrow> ptr list \<Rightarrow> snmp_pbuf_stream \<Rightarrow> bool" where
  "window s ps st \<longleftrightarrow> packet s (st_pbuf st) ps \<and> st_offset st + st_length st \<le> length (pdata s ps)"

definition writable :: "(memp_t \<Rightarrow> nat) \<Rightarrow> ('h, 'z) pbufs_scheme \<Rightarrow> ptr list \<Rightarrow> snmp_pbuf_stream \<Rightarrow> bool" where
  "writable szof s ps st \<longleftrightarrow> pbufs_inv szof s \<and> buffers szof s ps \<and> window s ps st"

text \<open>The run \<open>r\<close> writes the octets \<open>bs\<close> at the start of the window and nothing else.  When they do not fit it
  fails with \<open>ERR_BUF\<close>, having written some of them, all inside the window.\<close>

definition emits :: "(memp_t \<Rightarrow> nat) \<Rightarrow> ('h, 'z) pbufs_scheme \<Rightarrow> ptr list \<Rightarrow> snmp_pbuf_stream \<Rightarrow> u8_t list \<Rightarrow> 'r \<Rightarrow> 'r \<Rightarrow>
    ('r \<times> snmp_pbuf_stream \<times> ('h, 'z) pbufs_scheme) option \<Rightarrow> bool" where
  "emits szof s ps st bs ok bad r \<longleftrightarrow>
     (\<exists>s' k. k \<le> st_length st \<and> r = Some (if length bs \<le> st_length st then ok else bad, moved k st, s') \<and>
       (length bs \<le> st_length st \<longrightarrow> k = length bs) \<and> filled szof s ps (patch (st_offset st) (take k bs) (pdata s ps)) s')"

lemma writable_filled: "writable szof s ps st \<Longrightarrow> filled szof s ps d s' \<Longrightarrow> length d = length (pdata s ps) \<Longrightarrow> n \<le> st_length st \<Longrightarrow>
    writable szof s' ps (moved n st)"
  by (auto simp: writable_def window_def filled_def buffers_written packet_written)

lemma patch_Nil [simp]: "patch i [] d = d"
  by (simp add: patch_def)

lemma emits_Nil: "writable szof s ps st \<Longrightarrow> emits szof s ps st [] ok bad (Some (ok, st, s))"
  unfolding emits_def by (intro exI [of _ s] exI [of _ 0]) (simp add: writable_def filled_def)

lemma emits_writebuf:
  assumes w: "writable szof s ps st" and ne: "bs \<noteq> []"
  shows "emits szof s ps st bs ERR_OK ERR_BUF (snmp_pbuf_stream_writebuf bs st s)"
proof (cases "length bs \<le> st_length st")
  case True
  have W: "pbufs_inv szof s" "packet s (st_pbuf st) ps" "buffers szof s ps" "st_offset st + st_length st \<le> length (pdata s ps)"
    using w by (simp_all add: writable_def window_def)
  then have "length (pdata s ps) < 65536" by (simp add: packet_def)
  moreover have "st_offset st < length (pdata s ps)" using W(4) True ne by (cases bs) auto
  moreover have "st_offset st + length bs \<le> length (pdata s ps)" using W(4) True by simp
  ultimately show ?thesis using take_at_filled [OF W(1-3), of "st_offset st" bs] True W(4)
    by (auto simp: emits_def snmp_pbuf_stream_writebuf_def moved_def u16_id)
next
  case False
  then show ?thesis using w unfolding emits_def
    by (intro exI [of _ s] exI [of _ 0]) (simp add: snmp_pbuf_stream_writebuf_def writable_def filled_def)
qed

lemma emits_write: "writable szof s ps st \<Longrightarrow> emits szof s ps st [b] ERR_OK ERR_BUF (snmp_pbuf_stream_write b st s)"
  by (simp add: snmp_pbuf_stream_write_def emits_writebuf)

lemma emits_seq:
  assumes w: "writable szof s ps st" and m: "emits szof s ps st bs ERR_OK ERR_BUF m"
    and k: "\<And>s'. writable szof s' ps (moved (length bs) st) \<Longrightarrow> emits szof s' ps (moved (length bs) st) cs ok bad (k (moved (length bs) st) s')"
  shows "emits szof s ps st (bs @ cs) ok bad (PBUF_OP_EXEC bad m k)"
proof (cases "length bs \<le> st_length st")
  case True
  then obtain s' where s': "m = Some (ERR_OK, moved (length bs) st, s')" "filled szof s ps (patch (st_offset st) bs (pdata s ps)) s'"
    using m by (auto simp: emits_def)
  have fit: "st_offset st + st_length st \<le> length (pdata s ps)" using w by (simp add: writable_def window_def)
  have w': "writable szof s' ps (moved (length bs) st)" using writable_filled [OF w s'(2)] True fit by simp
  let ?ok = "length (bs @ cs) \<le> st_length st"
  obtain s'' n where s'': "n \<le> st_length st - length bs" "k (moved (length bs) st) s' = Some (if ?ok then ok else bad, moved (length bs + n) st, s'')"
    "?ok \<longrightarrow> n = length cs" "filled szof s' ps (patch (st_offset st + length bs) (take n cs) (pdata s' ps)) s''"
    using k [OF w'] True by (auto simp: emits_def le_diff_conv2 add.commute)
  have "patch (st_offset st + length bs) (take n cs) (pdata s' ps) = patch (st_offset st) (take (length bs + n) (bs @ cs)) (pdata s ps)"
    using s'(2) s''(1) fit True by (simp add: filled_def patch_patch)
  then have "filled szof s ps (patch (st_offset st) (take (length bs + n) (bs @ cs)) (pdata s ps)) s''"
    using filled_trans [OF s'(2) s''(4)] by simp
  then show ?thesis using s'(1) s''(1-3) True unfolding emits_def
    by (intro exI [of _ s''] exI [of _ "length bs + n"]) (simp add: PBUF_OP_EXEC_def)
next
  case False
  then obtain s' n where s': "n \<le> st_length st" "m = Some (ERR_BUF, moved n st, s')" "filled szof s ps (patch (st_offset st) (take n bs) (pdata s ps)) s'"
    using m by (auto simp: emits_def)
  have "take n (bs @ cs) = take n bs" using False s'(1) by simp
  then show ?thesis using s' False unfolding emits_def
    by (intro exI [of _ s'] exI [of _ n]) (simp add: PBUF_OP_EXEC_def)
qed

lemma emits_Cons:
  assumes "writable szof s ps st" "\<And>s'. writable szof s' ps (moved 1 st) \<Longrightarrow> emits szof s' ps (moved 1 st) cs ok bad (k (moved 1 st) s')"
  shows "emits szof s ps st (b # cs) ok bad (PBUF_OP_EXEC bad (snmp_pbuf_stream_write b st s) k)"
  using emits_seq [OF assms(1) emits_write [OF assms(1)], of b cs ok bad k] assms(2) by simp

lemma emits_last:
  assumes "writable szof s ps st"
  shows "emits szof s ps st [b] ok bad (PBUF_OP_EXEC bad (snmp_pbuf_stream_write b st s) (\<lambda>st s. Some (ok, st, s)))"
  by (rule emits_Cons [OF assms]) (rule emits_Nil)

section \<open>Reading\<close>

definition remaining :: "('h, 'z) pbufs_scheme \<Rightarrow> ptr list \<Rightarrow> snmp_pbuf_stream \<Rightarrow> u8_t list" where
  "remaining s ps st = take (st_length st) (drop (st_offset st) (pdata s ps))"

text \<open>The decoder \<open>P\<close>, started on a source whose bytes begin with \<open>bs\<close>, returns \<open>v\<close> and leaves the source behind them.\<close>

definition consumes :: "('st \<Rightarrow> bool) \<Rightarrow> ('st \<Rightarrow> u8_t list) \<Rightarrow> u8_t list \<Rightarrow> 'v \<Rightarrow> ('st \<Rightarrow> ((err_t + 'v) \<times> 'st) option) \<Rightarrow> bool" where
  "consumes ok bytes bs v P \<longleftrightarrow>
     (\<forall>st cs. ok st \<longrightarrow> bytes st = bs @ cs \<longrightarrow> (\<exists>st'. P st = Some (Inr v, st') \<and> ok st' \<and> bytes st' = cs))"

text \<open>Whatever the bytes are, the decoder returns; it fails or its result satisfies \<open>Q\<close>, and it has moved inside the source.\<close>

definition decodes :: "('st \<Rightarrow> bool) \<Rightarrow> ('st \<Rightarrow> u8_t list) \<Rightarrow> ('v \<Rightarrow> bool) \<Rightarrow> ('st \<Rightarrow> ((err_t + 'v) \<times> 'st) option) \<Rightarrow> bool" where
  "decodes ok bytes Q P \<longleftrightarrow>
     (\<forall>st. ok st \<longrightarrow> (\<exists>r st' n. P st = Some (r, st') \<and> ok st' \<and> bytes st' = drop n (bytes st) \<and> (case r of Inr v \<Rightarrow> Q v | Inl _ \<Rightarrow> True)))"

lemma decodes_Inr: "Q v \<Longrightarrow> decodes ok bytes Q (\<lambda>st. Some (Inr v, st))"
  and decodes_Inl: "decodes ok bytes Q (\<lambda>st. Some (Inl e, st))"
  unfolding decodes_def by (auto intro: exI [of _ "0 :: nat"])

lemma decodes_seq:
  assumes "decodes ok bytes R P" "\<And>v. R v \<Longrightarrow> decodes ok bytes Q (k v)"
  shows "decodes ok bytes Q (\<lambda>st. PBUF_OP_READ (P st) k)"
  unfolding decodes_def
proof (intro allI impI)
  fix st
  assume "ok st"
  then obtain r st' n where r: "P st = Some (r, st')" "ok st'" "bytes st' = drop n (bytes st)" "case r of Inr v \<Rightarrow> R v | Inl _ \<Rightarrow> True"
    using assms(1) unfolding decodes_def by blast
  show "\<exists>r st' n. PBUF_OP_READ (P st) k = Some (r, st') \<and> ok st' \<and> bytes st' = drop n (bytes st) \<and> (case r of Inr v \<Rightarrow> Q v | Inl _ \<Rightarrow> True)"
  proof (cases r)
    case (Inl e)
    then show ?thesis using r by (intro exI [of _ "Inl ERR_BUF"] exI [of _ st'] exI [of _ n]) (simp add: PBUF_OP_READ_def)
  next
    case (Inr v)
    then obtain r' st'' m where "k v st' = Some (r', st'')" "ok st''" "bytes st'' = drop m (bytes st')" "case r' of Inr v \<Rightarrow> Q v | Inl _ \<Rightarrow> True"
      using assms(2) [of v] r(2,4) unfolding decodes_def by auto
    then show ?thesis using r(1,3) Inr by (intro exI [of _ r'] exI [of _ st''] exI [of _ "m + n"]) (simp add: PBUF_OP_READ_def)
  qed
qed

text \<open>A source of bytes, read one at a time.\<close>

locale byte_source =
  fixes ok :: "snmp_pbuf_stream \<Rightarrow> bool" and bytes :: "snmp_pbuf_stream \<Rightarrow> u8_t list"
    and rd :: "snmp_pbuf_stream \<Rightarrow> ((err_t + u8_t) \<times> snmp_pbuf_stream) option"
  assumes read_byte: "ok st \<Longrightarrow> bytes st = b # bs \<Longrightarrow> \<exists>st'. rd st = Some (Inr b, st') \<and> ok st' \<and> bytes st' = bs"
    and read_end: "ok st \<Longrightarrow> bytes st = [] \<Longrightarrow> rd st = Some (Inl ERR_BUF, st)"
begin

lemma consumes_Cons:
  assumes "consumes ok bytes bs v (k b)"
  shows "consumes ok bytes (b # bs) v (\<lambda>st. PBUF_OP_READ (rd st) k)"
  unfolding consumes_def
proof (intro allI impI)
  fix st cs
  assume "ok st" "bytes st = (b # bs) @ cs"
  then obtain st' where "rd st = Some (Inr b, st')" "ok st'" "bytes st' = bs @ cs" using read_byte [of st b "bs @ cs"] by auto
  then show "\<exists>st'. PBUF_OP_READ (rd st) k = Some (Inr v, st') \<and> ok st' \<and> bytes st' = cs"
    using assms by (auto simp: consumes_def PBUF_OP_READ_def)
qed

lemma consumes_Nil: "consumes ok bytes [] v (\<lambda>st. Some (Inr v, st))"
  by (simp add: consumes_def)

lemma consumes_seq:
  assumes "consumes ok bytes bs v P" "consumes ok bytes cs u (k v)"
  shows "consumes ok bytes (bs @ cs) u (\<lambda>st. PBUF_OP_READ (P st) k)"
  unfolding consumes_def
proof (intro allI impI)
  fix st ds
  assume "ok st" "bytes st = (bs @ cs) @ ds"
  then obtain st' where "P st = Some (Inr v, st')" "ok st'" "bytes st' = cs @ ds" using assms(1) by (auto simp: consumes_def)
  then show "\<exists>st'. PBUF_OP_READ (P st) k = Some (Inr u, st') \<and> ok st' \<and> bytes st' = ds"
    using assms(2) by (auto simp: consumes_def PBUF_OP_READ_def)
qed

lemma decodes_read:
  assumes "\<And>b. decodes ok bytes Q (k b)"
  shows "decodes ok bytes Q (\<lambda>st. PBUF_OP_READ (rd st) k)"
proof (rule decodes_seq)
  show "decodes ok bytes (\<lambda>_. True) rd"
    unfolding decodes_def
  proof (intro allI impI)
    fix st
    assume "ok st"
    then show "\<exists>r st' n. rd st = Some (r, st') \<and> ok st' \<and> bytes st' = drop n (bytes st) \<and> (case r of Inr v \<Rightarrow> True | Inl _ \<Rightarrow> True)"
    proof (cases "bytes st")
      case (Cons b bs)
      obtain st' where "rd st = Some (Inr b, st')" "ok st'" "bytes st' = bs" using read_byte [OF \<open>ok st\<close> Cons] by blast
      then show ?thesis using Cons by (intro exI [of _ "Inr b"] exI [of _ st'] exI [of _ 1]) simp
    qed (auto simp: read_end)
  qed
qed (rule assms)

lemma read_short: "ok st \<Longrightarrow> bytes st = [] \<Longrightarrow> PBUF_OP_READ (rd st) k = Some (Inl ERR_BUF, st)"
  by (simp add: read_end PBUF_OP_READ_def)

end

interpretation pbuf_source: byte_source "window s ps" "remaining s ps" "snmp_pbuf_stream_read s" for s ps
proof
  fix st b bs
  assume w: "window s ps st" and r: "remaining s ps st = b # bs"
  then have W: "packet s (st_pbuf st) ps" "st_offset st + st_length st \<le> length (pdata s ps)" by (simp_all add: window_def)
  have n: "0 < st_length st" using r by (auto simp: remaining_def intro!: Nat.gr0I)
  then have at: "st_offset st < length (pdata s ps)" using W(2) by simp
  then obtain p where p: "st_pbuf st = Some p" using W(1) by (cases "st_pbuf st") (auto simp: packet_def)
  have d: "drop (st_offset st) (pdata s ps) = pdata s ps ! st_offset st # drop (st_offset st + 1) (pdata s ps)"
    using at by (simp add: Cons_nth_drop_Suc)
  then have b: "b = pdata s ps ! st_offset st" "bs = remaining s ps (moved 1 st)"
    using r n by (auto simp: remaining_def take_Cons' split: if_splits)
  have "pbuf_copy_partial s (st_pbuf st) 1 (st_offset st) = Some (1, [b])"
    using copy_partial_loop [of s "Some p" ps 1 "st_offset st" "[]"] W(1) p d b(1) by (simp add: pbuf_copy_partial_def packet_def u16_id)
  moreover have "length (pdata s ps) < 65536" using W(1) by (simp add: packet_def)
  ultimately have "snmp_pbuf_stream_read s st = Some (Inr b, moved 1 st)"
    using n at by (simp add: snmp_pbuf_stream_read_def moved_def u16_id)
  moreover have "window s ps (moved 1 st)" using W n by (simp add: window_def)
  ultimately show "\<exists>st'. snmp_pbuf_stream_read s st = Some (Inr b, st') \<and> window s ps st' \<and> remaining s ps st' = bs" using b(2) by blast
next
  fix st
  assume "window s ps st" "remaining s ps st = []"
  then show "snmp_pbuf_stream_read s st = Some (Inl ERR_BUF, st)" by (auto simp: window_def remaining_def snmp_pbuf_stream_read_def)
qed

section \<open>Integers\<close>

definition octets :: "(nat \<Rightarrow> u8_t) \<Rightarrow> nat \<Rightarrow> u8_t list" where
  "octets oct n = map oct (rev [0..<n])"

definition u32_oct :: "u32_t \<Rightarrow> nat \<Rightarrow> u8_t" where
  "u32_oct v i = ucast (drop_bit (8 * i) v)"

definition u64_oct :: "u32_t \<times> u32_t \<Rightarrow> nat \<Rightarrow> u8_t" where
  "u64_oct v i = (if i < 4 then u32_oct (snd v) i else u32_oct (fst v) (i - 4))"

definition s32_oct :: "s32_t \<Rightarrow> nat \<Rightarrow> u8_t" where
  "s32_oct v i = ucast (signed_drop_bit (8 * i) v)"

lemma octets_Suc [simp]: "octets oct 0 = []" "octets oct (Suc n) = oct n # octets oct n"
  by (simp_all add: octets_def)

lemma length_octets [simp]: "length (octets oct n) = n"
  by (simp add: octets_def)

lemma octets_split: "m \<le> n \<Longrightarrow> octets oct n = map oct (rev [m..<n]) @ octets oct m"
  using upt_add_eq_append [of 0 m "n - m"] by (simp add: octets_def)

lemma octets_1: "octets oct 1 = [oct 0]"
  by (simp add: octets_def)

lemma push_bit_3: "push_bit 3 i = 8 * (i::nat)"
  by (simp add: push_bit_eq_mult)

lemma emits_octets:
  assumes "writable szof s ps st"
  shows "emits szof s ps st (map oct (rev [lo..<n])) ERR_OK ERR_BUF (enc_octets_loop lo oct n st s)"
  using assms
proof (induction n arbitrary: st s)
  case 0
  then show ?case by (subst enc_octets_loop.simps) (simp add: emits_Nil)
next
  case (Suc n)
  show ?case
  proof (cases "lo \<le> n")
    case True
    then show ?thesis by (subst enc_octets_loop.simps) (simp, rule emits_Cons [OF Suc.prems], rule Suc.IH)
  next
    case False
    then show ?thesis using Suc.prems by (subst enc_octets_loop.simps) (simp add: emits_Nil)
  qed
qed

lemma emits_low:
  assumes "writable szof s ps st" "1 \<le> n" "\<And>i. 1 \<le> i \<Longrightarrow> i < n \<Longrightarrow> oct' i = oct i" "oct 0 = b"
  shows "emits szof s ps st (octets oct n) ERR_OK ERR_BUF
    (PBUF_OP_EXEC ERR_BUF (enc_octets_loop 1 oct' n st s) (\<lambda>st s. PBUF_OP_EXEC ERR_BUF (snmp_pbuf_stream_write b st s) (\<lambda>st s. Some (ERR_OK, st, s))))"
proof -
  have "octets oct n = map oct' (rev [1..<n]) @ [b]" using octets_split [OF assms(2), of oct] assms(3,4) by (simp add: octets_1)
  then show ?thesis by (simp only:) (rule emits_seq [OF assms(1) emits_octets [OF assms(1)]], rule emits_last)
qed

lemma enc_u32t_emits:
  assumes "writable szof s ps st" "1 \<le> n" "n \<le> 5"
  shows "emits szof s ps st (octets (u32_oct v) n) ERR_OK ERR_BUF (snmp_asn1_enc_u32t n v st s)"
proof -
  have low: "emits szof s' ps st' (octets (u32_oct v) m) ERR_OK ERR_BUF (PBUF_OP_EXEC ERR_BUF
      (enc_octets_loop 1 (\<lambda>i. ucast (drop_bit (push_bit 3 i) v)) m st' s') (\<lambda>st s. PBUF_OP_EXEC ERR_BUF (snmp_pbuf_stream_write (ucast v) st s) (\<lambda>st s. Some (ERR_OK, st, s))))"
    if "writable szof s' ps st'" "1 \<le> m" for s' st' m
    using that by (intro emits_low) (simp_all add: u32_oct_def push_bit_3)
  show ?thesis
  proof (cases "n = 5")
    case True
    have "u32_oct v 4 = 0" by (simp add: u32_oct_def)
    then have "octets (u32_oct v) n = 0 # octets (u32_oct v) 4" using octets_Suc(2) [of "u32_oct v" 4] True by simp
    then show ?thesis using True by (simp add: snmp_asn1_enc_u32t_def) (rule emits_Cons [OF assms(1)], use low [of _ _ 4] in simp)
  next
    case False
    then show ?thesis using low [OF assms(1,2)] assms(3) by (simp add: snmp_asn1_enc_u32t_def)
  qed
qed

lemma enc_s32t_emits:
  assumes "writable szof s ps st" "1 \<le> n"
  shows "emits szof s ps st (octets (s32_oct v) n) ERR_OK ERR_BUF (snmp_asn1_enc_s32t n v st s)"
  unfolding snmp_asn1_enc_s32t_def by (rule emits_low [OF assms]) (simp_all add: s32_oct_def push_bit_3)

lemma enc_u64t_emits:
  assumes "writable szof s ps st" "1 \<le> n" "n \<le> 9"
  shows "emits szof s ps st (octets (u64_oct v) n) ERR_OK ERR_BUF (snmp_asn1_enc_u64t n v st s)"
proof -
  let ?low = "\<lambda>m st s. PBUF_OP_EXEC ERR_BUF (enc_octets_loop 1 (\<lambda>i. ucast (drop_bit (push_bit 3 i) (snd v))) (min m 4) st s)
    (\<lambda>st s. PBUF_OP_EXEC ERR_BUF (snmp_pbuf_stream_write (ucast (snd v)) st s) (\<lambda>st s. Some (ERR_OK, st, s)))"
  have low: "emits szof s' ps st' (octets (u64_oct v) (min m 4)) ERR_OK ERR_BUF (?low m st' s')" if "writable szof s' ps st'" "1 \<le> m" for s' st' m
    using that by (intro emits_low) (simp_all add: u32_oct_def u64_oct_def push_bit_3)
  have high: "emits szof s' ps st' (octets (u64_oct v) m) ERR_OK ERR_BUF (PBUF_OP_EXEC ERR_BUF
      (enc_octets_loop 4 (\<lambda>i. ucast (drop_bit (push_bit 3 (i - 4)) (fst v))) m st' s') (?low m))"
    if w: "writable szof s' ps st'" and m: "1 \<le> m" for s' st' m
  proof -
    have "octets (u64_oct v) m = map (\<lambda>i. ucast (drop_bit (push_bit 3 (i - 4)) (fst v))) (rev [4..<m]) @ octets (u64_oct v) (min m 4)"
      using octets_split [of "min m 4" m "u64_oct v"] by (cases "m \<le> 4") (auto simp: u64_oct_def u32_oct_def push_bit_3)
    then show ?thesis by (simp only:) (rule emits_seq [OF w emits_octets [OF w]], rule low [OF _ m])
  qed
  show ?thesis
  proof (cases "n = 9")
    case True
    have "u64_oct v 8 = 0" by (simp add: u32_oct_def u64_oct_def)
    then have "octets (u64_oct v) n = 0 # octets (u64_oct v) 8" using octets_Suc(2) [of "u64_oct v" 8] True by simp
    then show ?thesis using True by (simp add: snmp_asn1_enc_u64t_def) (rule emits_Cons [OF assms(1)], use high [of _ _ 8] in simp)
  next
    case False
    then show ?thesis using high [OF assms(1,2)] assms(3) by (simp add: snmp_asn1_enc_u64t_def)
  qed
qed

abbreviation accepts :: "('h, 'z) pbufs_scheme \<Rightarrow> ptr list \<Rightarrow> u8_t list \<Rightarrow> 'v \<Rightarrow> (snmp_pbuf_stream \<Rightarrow> ((err_t + 'v) \<times> snmp_pbuf_stream) option) \<Rightarrow> bool" where
  "accepts s ps \<equiv> consumes (window s ps) (remaining s ps)"

lemma next_octet: "push_bit 8 (drop_bit (8 * Suc n) v) OR ucast (u32_oct v n) = drop_bit (8 * n) (v :: u32_t)"
  by (rule bit_word_eqI) (auto simp: bit_simps u32_oct_def algebra_simps)

lemma dec_u32t_loop_accepts: "accepts s ps (octets (u32_oct v) n) v (dec_u32t_loop s n (drop_bit (8 * n) v))"
proof (induction n)
  case 0
  have "dec_u32t_loop s 0 v = (\<lambda>st. Some (Inr v, st))" by (rule ext) (subst dec_u32t_loop.simps, simp)
  then show ?case by (simp add: pbuf_source.consumes_Nil)
next
  case (Suc n)
  have "dec_u32t_loop s (Suc n) x = (\<lambda>st. PBUF_OP_READ (snmp_pbuf_stream_read s st) (\<lambda>data. dec_u32t_loop s n (push_bit 8 x OR ucast data)))" for x
    by (rule ext) (subst dec_u32t_loop.simps, simp)
  then show ?case using Suc by (simp only: octets_Suc) (rule pbuf_source.consumes_Cons, simp only: next_octet)
qed

lemma dec_u64t_loop_accepts:
  assumes "n < 9" "low = (n < 4)" "fst w = (if n < 4 then fst v else drop_bit (8 * (n - 4)) (fst v))" "n < 4 \<Longrightarrow> snd w = drop_bit (8 * n) (snd v)"
  shows "accepts s ps (octets (u64_oct v) n) v (dec_u64t_loop s n low w)"
  using assms
proof (induction n arbitrary: low w)
  case 0
  have "dec_u64t_loop s 0 low w = (\<lambda>st. Some (Inr w, st))" by (rule ext) (subst dec_u64t_loop.simps, simp)
  moreover have "w = v" using 0 by (simp add: prod_eq_iff)
  ultimately show ?case by (simp add: pbuf_source.consumes_Nil)
next
  case (Suc n)
  let ?lw = "if Suc n = 4 then (True, set_word True (\<lambda>_. 0) w) else (low, set_word low (push_bit 8) w)"
  let ?w = "\<lambda>data. set_word (fst ?lw) (\<lambda>x. x OR ucast data) (snd ?lw)"
  have e: "dec_u64t_loop s (Suc n) low w = (\<lambda>st. PBUF_OP_READ (snmp_pbuf_stream_read s st) (\<lambda>data. dec_u64t_loop s n (fst ?lw) (?w data)))"
    by (rule ext) (subst dec_u64t_loop.simps, auto simp: Let_def)
  have "accepts s ps (octets (u64_oct v) n) v (dec_u64t_loop s n (fst ?lw) (?w (u64_oct v n)))"
  proof (rule Suc.IH)
    have "(\<exists>m. n = m + 4) \<or> n = 3 \<or> n < 3" by presburger
    then consider m where "n = m + 4" | "n = 3" | "n < 3" by blast
    note split = this
    show "n < 9" using Suc.prems by simp
    show "fst ?lw = (n < 4)" using Suc.prems by auto
    show "fst (?w (u64_oct v n)) = (if n < 4 then fst v else drop_bit (8 * (n - 4)) (fst v))"
    proof (cases rule: split)
      case (1 m)
      then have "Suc n - 4 = Suc m" "\<not> Suc n < 4" by simp_all
      then have "fst w = drop_bit (8 * Suc m) (fst v)" using Suc.prems(3) by (simp only: if_False)
      then show ?thesis using 1 Suc.prems(2) next_octet [of m "fst v"] by (simp add: set_word_def u64_oct_def del: mult_Suc_right)
    qed (use Suc.prems in \<open>simp_all add: set_word_def\<close>)
    show "snd (?w (u64_oct v n)) = drop_bit (8 * n) (snd v)" if "n < 4"
    proof (cases rule: split)
      case 3
      then show ?thesis using Suc.prems next_octet [of n "snd v"] by (simp add: set_word_def u64_oct_def del: mult_Suc_right)
    qed (use that next_octet [of 3 "snd v"] in \<open>simp_all add: set_word_def u64_oct_def\<close>)
  qed
  then show ?case unfolding e octets_Suc by (rule pbuf_source.consumes_Cons)
qed

lemma high_bits: "unat (v :: 'a::len word) < 2 ^ k \<Longrightarrow> k \<le> i \<Longrightarrow> \<not> bit v i"
proof -
  assume "unat v < 2 ^ k" "k \<le> i"
  then have "unat v < 2 ^ i" by (meson less_le_trans one_le_numeral power_increasing)
  then have "\<not> bit (unat v) i" by (simp add: bit_iff_odd)
  then show ?thesis by (metis bit_imp_le_length bit_unsigned_iff possible_bit_def possible_bit_nat)
qed

lemma and_0x80: "(b :: u8_t) AND 0x80 = 0 \<longleftrightarrow> \<not> bit b 7"
  using and_exp_eq_0_iff_not_bit [of b 7] by simp

lemma first_octet:
  assumes "\<And>i. 8 * m + 7 \<le> i \<Longrightarrow> \<not> bit v i"
  shows "u32_oct v m AND 0x80 = 0" "ucast (u32_oct v m) = drop_bit (8 * m) v"
proof -
  show "u32_oct v m AND 0x80 = 0" using assms by (simp add: and_0x80 u32_oct_def bit_simps)
  show "ucast (u32_oct v m) = drop_bit (8 * m) v"
  proof (rule bit_word_eqI)
    show "bit (ucast (u32_oct v m) :: u32_t) i = bit (drop_bit (8 * m) v) i" for i using assms [of "8 * m + i"] by (cases "7 \<le> i"; auto simp: u32_oct_def bit_simps)
  qed
qed

lemma dec_u32t_accepts:
  assumes "1 \<le> n" "n \<le> 5" "n < 5 \<Longrightarrow> unat v < 2 ^ (8 * n - 1)"
  shows "accepts s ps (octets (u32_oct v) n) v (snmp_asn1_dec_u32t s n)"
proof -
  obtain m where m: "n = Suc m" using assms(1) by (cases n) auto
  have o: "n = 5 \<and> u32_oct v m = 0 \<or> n < 5 \<and> u32_oct v m AND 0x80 = 0" "ucast (u32_oct v m) = drop_bit (8 * m) v"
    using assms(2) m first_octet [of m v] high_bits [OF assms(3)] by (cases "n = 5"; simp add: u32_oct_def)+
  let ?k = "\<lambda>data st. if n = 5 \<and> data = 0 \<or> n < 5 \<and> data AND 0x80 = 0 then dec_u32t_loop s m (ucast data) st else Some (Inl ERR_VAL, st)"
  have e: "snmp_asn1_dec_u32t s n = (\<lambda>st. PBUF_OP_READ (snmp_pbuf_stream_read s st) ?k)"
    by (rule ext) (use assms(2) m in \<open>simp add: snmp_asn1_dec_u32t_def cong: if_cong\<close>)
  have "?k (u32_oct v m) = dec_u32t_loop s m (drop_bit (8 * m) v)" using o by (intro ext) simp
  then have "accepts s ps (octets (u32_oct v) m) v (?k (u32_oct v m))" using dec_u32t_loop_accepts [of s ps v m] by (simp only:)
  moreover have "octets (u32_oct v) n = u32_oct v m # octets (u32_oct v) m" using m by simp
  ultimately show ?thesis unfolding e by (simp only:) (rule pbuf_source.consumes_Cons)
qed

lemma bit_ones: "bit (0xFF :: int) i \<longleftrightarrow> i < 8" "bit (- 256 :: int) i \<longleftrightarrow> 8 \<le> i"
proof -
  have "bit (mask 8 :: int) i \<longleftrightarrow> i < 8" "bit (NOT (mask 8 :: int)) i \<longleftrightarrow> 8 \<le> i" by (auto simp: bit_not_iff bit_mask_iff)
  then show "bit (0xFF :: int) i \<longleftrightarrow> i < 8" "bit (- 256 :: int) i \<longleftrightarrow> 8 \<le> i" by (simp_all add: mask_eq_exp_minus_1)
qed

lemma lsb_bits:
  "bit (lsb_and d x) i = (if i < 8 then bit x i \<and> bit d i else bit x i)" "bit (lsb_or d x) i = (if i < 8 then bit x i \<or> bit d i else bit x i)"
  by (cases "i < 8"; auto simp: lsb_and_def lsb_or_def bit_and_iff bit_or_iff bit_ones bit_unsigned_iff dest: bit_imp_le_length)+

lemma low_byte: "(if neg then lsb_and d (lsb_or 255 (push_bit 8 x)) else lsb_or d (push_bit 8 x)) = push_bit 8 x OR ucast d"
  by (rule bit_word_eqI) (auto simp: lsb_bits bit_ones bit_or_iff bit_unsigned_iff bit_push_bit_iff dest: bit_imp_le_length)
lemma next_s32_octet: "n < 4 \<Longrightarrow> push_bit 8 (signed_drop_bit (8 * Suc n) v) OR ucast (s32_oct v n) = signed_drop_bit (8 * n) v"
  by (rule bit_word_eqI) (auto simp: bit_simps s32_oct_def algebra_simps min_def)

lemma dec_s32t_loop_accepts: "n \<le> 4 \<Longrightarrow> accepts s ps (octets (s32_oct v) n) v (dec_s32t_loop s n neg (signed_drop_bit (8 * n) v))"
proof (induction n)
  case 0
  have "dec_s32t_loop s 0 neg v = (\<lambda>st. Some (Inr v, st))" by (rule ext) (subst dec_s32t_loop.simps, simp)
  then show ?case by (simp add: pbuf_source.consumes_Nil)
next
  case (Suc n)
  have "dec_s32t_loop s (Suc n) neg x = (\<lambda>st. PBUF_OP_READ (snmp_pbuf_stream_read s st) (\<lambda>data. dec_s32t_loop s n neg (push_bit 8 x OR ucast data)))" for x
    by (rule ext) (subst dec_s32t_loop.simps, simp add: low_byte Let_def)
  then show ?case using Suc by (simp only: octets_Suc) (rule pbuf_source.consumes_Cons, simp only: next_s32_octet Suc_le_eq order.strict_implies_order)
qed

lemma first_s32_octet:
  assumes "m < 4" "\<And>i. 8 * m + 7 \<le> i \<Longrightarrow> i < 32 \<Longrightarrow> bit v i = bit v 31"
  shows "s32_oct v m AND 0x80 \<noteq> 0 \<Longrightarrow> lsb_and (s32_oct v m) (- 1) = signed_drop_bit (8 * m) v"
    "s32_oct v m AND 0x80 = 0 \<Longrightarrow> lsb_or (s32_oct v m) 0 = signed_drop_bit (8 * m) v"
proof -
  have b7: "s32_oct v m AND 0x80 = 0 \<longleftrightarrow> \<not> bit v 31" using assms(2) [of "8 * m + 7"] assms(1) by (auto simp: and_0x80 s32_oct_def bit_simps min_def)
  have top: "bit v (min (8 * m + i) 31) = bit v 31" if "8 \<le> i" for i using assms(2) [of "8 * m + i"] that by (simp add: min_def)
  show "lsb_and (s32_oct v m) (- 1) = signed_drop_bit (8 * m) v" if n: "s32_oct v m AND 0x80 \<noteq> 0"
  proof (rule bit_word_eqI)
    show "bit (lsb_and (s32_oct v m) (- 1)) i = bit (signed_drop_bit (8 * m) v) i" if "i < LENGTH(32)" for i
      using n b7 top [of i] that by (cases "8 \<le> i"; auto simp: lsb_bits s32_oct_def bit_simps)
  qed
  show "lsb_or (s32_oct v m) 0 = signed_drop_bit (8 * m) v" if n: "s32_oct v m AND 0x80 = 0"
  proof (rule bit_word_eqI)
    show "bit (lsb_or (s32_oct v m) 0) i = bit (signed_drop_bit (8 * m) v) i" if "i < LENGTH(32)" for i
      using n b7 top [of i] that by (cases "8 \<le> i"; auto simp: lsb_bits s32_oct_def bit_simps)
  qed
qed

lemma dec_s32t_accepts:
  assumes "1 \<le> n" "n \<le> 4" "\<And>i. 8 * n - 1 \<le> i \<Longrightarrow> i < 32 \<Longrightarrow> bit v i = bit v 31"
  shows "accepts s ps (octets (s32_oct v) n) v (snmp_asn1_dec_s32t s n)"
proof -
  obtain m where m: "n = Suc m" "m < 4" using assms(1,2) by (cases n) auto
  let ?k = "\<lambda>data st. if data AND 0x80 \<noteq> 0 then dec_s32t_loop s m True (lsb_and data (- 1)) st else dec_s32t_loop s m False (lsb_or data 0) st"
  have e: "snmp_asn1_dec_s32t s n = (\<lambda>st. PBUF_OP_READ (snmp_pbuf_stream_read s st) ?k)"
    by (rule ext) (use m in \<open>simp add: snmp_asn1_dec_s32t_def cong: if_cong\<close>)
  have b: "bit v i = bit v 31" if "8 * m + 7 \<le> i" "i < 32" for i using assms(3) [of i] that m(1) by simp
  have "?k (s32_oct v m) = dec_s32t_loop s m (s32_oct v m AND 0x80 \<noteq> 0) (signed_drop_bit (8 * m) v)"
    using first_s32_octet [OF m(2) b] by (cases "s32_oct v m AND 0x80 = 0") simp_all
  then have "accepts s ps (octets (s32_oct v) m) v (?k (s32_oct v m))"
    using dec_s32t_loop_accepts [OF order.strict_implies_order [OF m(2)]] by (simp only:)
  moreover have "octets (s32_oct v) n = s32_oct v m # octets (s32_oct v) m" using m by simp
  ultimately show ?thesis unfolding e by (simp only:) (rule pbuf_source.consumes_Cons)
qed

lemma dec_u64t_accepts:
  assumes "1 \<le> n" "n \<le> 9" "n \<le> 4 \<Longrightarrow> fst v = 0 \<and> unat (snd v) < 2 ^ (8 * n - 1)"
    "4 < n \<Longrightarrow> n < 9 \<Longrightarrow> unat (fst v) < 2 ^ (8 * (n - 4) - 1)"
  shows "accepts s ps (octets (u64_oct v) n) v (snmp_asn1_dec_u64t s n w)"
proof -
  obtain m where m: "n = Suc m" using assms(1) by (cases n) auto
  let ?w = "\<lambda>data. if n \<le> 4 then (0, ucast data) else (ucast data, snd w)"
  let ?k = "\<lambda>data st. if n = 9 \<and> data = 0 \<or> n < 9 \<and> data AND 0x80 = 0 then dec_u64t_loop s m (n \<le> 4) (?w data) st else Some (Inl ERR_VAL, st)"
  have e: "snmp_asn1_dec_u64t s n w = (\<lambda>st. PBUF_OP_READ (snmp_pbuf_stream_read s st) ?k)"
    by (rule ext) (use assms(2) m in \<open>simp add: snmp_asn1_dec_u64t_def set_word_def cong: if_cong\<close>)
  have lo: "u64_oct v m AND 0x80 = 0 \<and> ucast (u64_oct v m) = drop_bit (8 * m) (snd v)" if "n \<le> 4"
    using that first_octet [of m "snd v"] high_bits [of "snd v" "8 * n - 1"] assms(3) m by (simp add: u64_oct_def)
  have hi: "(n = 9 \<and> u64_oct v m = 0 \<or> n < 9 \<and> u64_oct v m AND 0x80 = 0) \<and> ucast (u64_oct v m) = drop_bit (8 * (m - 4)) (fst v)" if "4 < n"
  proof (cases "n = 9")
    case True
    then show ?thesis using m by (simp add: u64_oct_def u32_oct_def)
  next
    case False
    then show ?thesis using that first_octet [of "m - 4" "fst v"] high_bits [OF assms(4)] assms(2) m by (simp add: u64_oct_def)
  qed
  have "accepts s ps (octets (u64_oct v) m) v (dec_u64t_loop s m (n \<le> 4) (?w (u64_oct v m)))"
    using lo hi assms(2,3) m by (intro dec_u64t_loop_accepts) auto
  moreover have "?k (u64_oct v m) = dec_u64t_loop s m (n \<le> 4) (?w (u64_oct v m))" using lo hi by (intro ext) (cases "n \<le> 4"; simp)
  ultimately have "accepts s ps (octets (u64_oct v) m) v (?k (u64_oct v m))" by (simp only:)
  moreover have "octets (u64_oct v) n = u64_oct v m # octets (u64_oct v) m" using m by simp
  ultimately show ?thesis unfolding e by (simp only:) (rule pbuf_source.consumes_Cons)
qed

text \<open>Encoding the value \<open>v\<close> in \<open>n\<close> octets: the run \<open>r\<close> writes exactly these octets, and decoding them with \<open>P\<close> gives
  \<open>v\<close> and leaves the stream behind them; when the window is too short, \<open>r\<close> fails and has written inside the window only.\<close>

definition transfers :: "(memp_t \<Rightarrow> nat) \<Rightarrow> ('h, 'z) pbufs_scheme \<Rightarrow> ptr list \<Rightarrow> snmp_pbuf_stream \<Rightarrow> nat \<Rightarrow> 'v \<Rightarrow> 'r \<Rightarrow> 'r \<Rightarrow>
    ('r \<times> snmp_pbuf_stream \<times> ('h, 'z) pbufs_scheme) option \<Rightarrow>
    (('h, 'z) pbufs_scheme \<Rightarrow> snmp_pbuf_stream \<Rightarrow> ((err_t + 'v) \<times> snmp_pbuf_stream) option) \<Rightarrow> bool" where
  "transfers szof s ps st n v ok bad r P \<longleftrightarrow>
     (\<exists>bs s'. length bs \<le> st_length st \<and> filled szof s ps (patch (st_offset st) bs (pdata s ps)) s' \<and>
       (if n \<le> st_length st then length bs = n \<and> r = Some (ok, moved n st, s') \<and>
          (\<exists>st'. P s' st = Some (Inr v, st') \<and> remaining s' ps st' = remaining s' ps (moved n st))
        else r = Some (bad, moved (length bs) st, s')))"

lemma emits_transfers:
  assumes w: "writable szof s ps st" and e: "emits szof s ps st bs ok bad r" and a: "\<And>s'. accepts s' ps bs v (P s')"
  shows "transfers szof s ps st (length bs) v ok bad r P"
proof -
  obtain s' k where k: "k \<le> st_length st" "r = Some (if length bs \<le> st_length st then ok else bad, moved k st, s')"
    "length bs \<le> st_length st \<longrightarrow> k = length bs" "filled szof s ps (patch (st_offset st) (take k bs) (pdata s ps)) s'"
    using e by (auto simp: emits_def)
  show ?thesis
  proof (cases "length bs \<le> st_length st")
    case True
    have fit: "st_offset st + st_length st \<le> length (pdata s ps)" using w by (simp add: writable_def window_def)
    then have win: "window s' ps (moved 0 st)" using writable_filled [OF w k(4), of 0] k(1) by (simp add: writable_def)
    have "pdata s' ps = patch (st_offset st) bs (pdata s ps)" using k(3,4) True by (simp add: filled_def)
    then have "remaining s' ps st = bs @ remaining s' ps (moved (length bs) st)" using True fit by (simp add: remaining_def patch_def)
    then show ?thesis using a [of s'] win k True unfolding transfers_def consumes_def
      by (intro exI [of _ bs] exI [of _ s']) auto
  next
    case False
    then show ?thesis using k unfolding transfers_def by (intro exI [of _ "take k bs"] exI [of _ s']) simp
  qed
qed

lemma u32t_cnt: "1 \<le> snmp_asn1_enc_u32t_cnt v" "snmp_asn1_enc_u32t_cnt v \<le> 5"
  "snmp_asn1_enc_u32t_cnt v < 5 \<Longrightarrow> unat v < 2 ^ (8 * snmp_asn1_enc_u32t_cnt v - 1)"
  by (auto simp: snmp_asn1_enc_u32t_cnt_def word_less_nat_alt split: if_splits)

lemma u64t_cnt: "1 \<le> snmp_asn1_enc_u64t_cnt v" "snmp_asn1_enc_u64t_cnt v \<le> 9"
  "snmp_asn1_enc_u64t_cnt v \<le> 4 \<Longrightarrow> fst v = 0 \<and> unat (snd v) < 2 ^ (8 * snmp_asn1_enc_u64t_cnt v - 1)"
  "4 < snmp_asn1_enc_u64t_cnt v \<Longrightarrow> snmp_asn1_enc_u64t_cnt v < 9 \<Longrightarrow> unat (fst v) < 2 ^ (8 * (snmp_asn1_enc_u64t_cnt v - 4) - 1)"
  using u32t_cnt [of "fst v"] u32t_cnt [of "snd v"] by (auto simp: snmp_asn1_enc_u64t_cnt_def split: if_splits)

lemma nonneg_bits:
  assumes "0 \<le> sint (x :: 32 word)" "sint x < 2 ^ k" "k \<le> i"
  shows "\<not> bit x i"
proof -
  have "sint x < 2 ^ i" using assms(2,3) by (meson less_le_trans one_le_numeral power_increasing)
  then have "\<not> bit (sint x) i" using assms(1) by (simp add: bit_iff_odd)
  then show ?thesis by (cases "i = 31") (use bit_imp_le_length [of x i] in \<open>auto simp: bit_signed_iff min_def split: if_splits\<close>)
qed

lemma s32t_cnt: "1 \<le> snmp_asn1_enc_s32t_cnt v" "snmp_asn1_enc_s32t_cnt v \<le> 4"
  by (auto simp: snmp_asn1_enc_s32t_cnt_def Let_def)

lemma s32t_cnt_bits:
  assumes "8 * snmp_asn1_enc_s32t_cnt v - 1 \<le> i" "i < 32"
  shows "bit v i = bit v 31"
proof -
  define x where "x = (if sint v < 0 then NOT v else v)"
  have x0: "0 \<le> sint x" using bit_last_iff [of "NOT v"] bit_last_iff [of v] by (auto simp: x_def bit_not_iff not_le)
  have top: "sint x < 2 ^ 31" using sint_lt [of x] by simp
  have "sint x < 2 ^ (8 * snmp_asn1_enc_s32t_cnt v - 1)" using top
    by (auto simp: snmp_asn1_enc_s32t_cnt_def Let_def x_def [symmetric])
  then have "\<not> bit x i" "\<not> bit x 31" using nonneg_bits [OF x0 _ assms(1)] nonneg_bits [OF x0 top] by auto
  then show ?thesis using assms(2) by (auto simp: x_def bit_not_iff split: if_splits)
qed

section \<open>Object identifiers\<close>

definition sub_id_octets :: "u32_t \<Rightarrow> nat \<Rightarrow> u8_t list" where
  "sub_id_octets v n = map (\<lambda>i. ucast (drop_bit (7 * i) v) OR 0x80) (rev [1..<n]) @ [ucast v AND 0x7F]"

text \<open>The number of 7-bit digits of a sub-identifier.\<close>

definition digits :: "u32_t \<Rightarrow> nat" where
  "digits v = (if unat v < 2 ^ 7 then 1 else if unat v < 2 ^ 14 then 2 else if unat v < 2 ^ 21 then 3 else if unat v < 2 ^ 28 then 4 else 5)"

lemma digits_bounds: "1 \<le> digits v" "digits v \<le> 5" "unat v < 2 ^ (7 * digits v)" "1 < digits v \<Longrightarrow> 2 ^ (7 * (digits v - 1)) \<le> unat v"
proof -
  have "unat v < 2 ^ 32" using unsigned_less [of v] by simp
  then show "1 \<le> digits v" "digits v \<le> 5" "unat v < 2 ^ (7 * digits v)" "1 < digits v \<Longrightarrow> 2 ^ (7 * (digits v - 1)) \<le> unat v"
    by (auto simp: digits_def)
qed

lemma unat_shift: "unat (drop_bit k (x :: u32_t)) = unat x div 2 ^ k"
  by (subst unat_drop_bit_eq) (simp only: drop_bit_eq_div)

lemma length_sub_id_octets [simp]: "1 \<le> n \<Longrightarrow> length (sub_id_octets v n) = n"
  by (simp add: sub_id_octets_def)

lemma enc_sub_id_tail:
  "writable szof s ps st \<Longrightarrow>
    emits szof s ps st (map (\<lambda>i. ucast (drop_bit (7 * i) v) OR 0x80) (rev [1..<Suc j])) ERR_OK ERR_BUF (enc_sub_id_loop (7 * j) True v st s)"
proof (induction j arbitrary: st s)
  case 0
  then show ?case by (subst enc_sub_id_loop.simps) (simp add: emits_Nil)
next
  case (Suc j)
  have "rev [1..<Suc (Suc j)] = Suc j # rev [1..<Suc j]" by simp
  then show ?case using Suc by (subst enc_sub_id_loop.simps) (simp add: Let_def del: upt_Suc, rule emits_Cons, simp_all)
qed

lemma enc_sub_id_emits:
  assumes n: "1 \<le> n" "unat v < 2 ^ (7 * n)" "1 < n \<Longrightarrow> 2 ^ (7 * (n - 1)) \<le> unat v"
  shows "writable szof s ps st \<Longrightarrow>
    emits szof s ps st (map (\<lambda>i. ucast (drop_bit (7 * i) v) OR 0x80) (rev [1..<n])) ERR_OK ERR_BUF (enc_sub_id_loop (7 * (n - 1 + d)) False v st s)"
proof (induction d)
  case 0
  show ?case
  proof (cases "n = 1")
    case True
    then show ?thesis using 0 by (subst enc_sub_id_loop.simps) (simp add: emits_Nil)
  next
    case False
    then obtain j where j: "n = Suc (Suc j)" using n(1) by (metis Suc_le_D One_nat_def not0_implies_Suc)
    have "unat v div 2 ^ (7 * Suc j) < 128" using n(2) j by (simp add: less_mult_imp_div_less power_add)
    moreover have "0 < unat v div 2 ^ (7 * Suc j)" using n(3) j by (simp add: div_greater_zero_iff)
    ultimately have "unat (ucast (drop_bit (7 * Suc j) v) :: u8_t) \<noteq> 0" by (simp add: unsigned_ucast_eq take_bit_eq_mod unat_shift)
    then have c: "(ucast (drop_bit (7 * Suc j) v) :: u8_t) \<noteq> 0" by auto
    then have "enc_sub_id_loop (7 * Suc j) False v st s = enc_sub_id_loop (7 * Suc j) True v st s"
      by (subst (1 2) enc_sub_id_loop.simps) (simp add: Let_def)
    then show ?thesis using enc_sub_id_tail [OF 0, of v "Suc j"] j by simp
  qed
next
  case (Suc d)
  let ?j = "n - 1 + d"
  have "2 ^ (7 * n) \<le> (2::nat) ^ (7 * Suc ?j)" using n(1) by (intro power_increasing) auto
  then have "unat v < 2 ^ (7 * Suc ?j)" using n(2) by linarith
  then have "unat (drop_bit (7 * Suc ?j) v) = 0" by (simp only: unat_shift div_less)
  then have "drop_bit (7 * Suc ?j) v = 0" by (simp only: unat_eq_zero)
  then have "enc_sub_id_loop (7 * Suc ?j) False v st s = enc_sub_id_loop (7 * ?j) False v st s" by (subst enc_sub_id_loop.simps) simp
  then show ?case using Suc by simp
qed

lemma enc_oid_loop_emits:
  "writable szof s ps st \<Longrightarrow> emits szof s ps st (concat (map (\<lambda>v. sub_id_octets v (digits v)) oid)) ERR_OK ERR_BUF (enc_oid_loop oid st s)"
proof (induction oid arbitrary: st s)
  case Nil
  then show ?case by (simp add: emits_Nil)
next
  case (Cons v oid)
  let ?ds = "map (\<lambda>i. ucast (drop_bit (7 * i) v) OR 0x80) (rev [1..<digits v])"
  have "7 * (digits v - 1 + (5 - digits v)) = 28" using digits_bounds(1,2) [of v] by simp
  then have e: "emits szof s ps st ?ds ERR_OK ERR_BUF (enc_sub_id_loop 28 False v st s)"
    using enc_sub_id_emits [OF digits_bounds(1,3,4) [of v] Cons.prems, of "5 - digits v"] by simp
  have "concat (map (\<lambda>v. sub_id_octets v (digits v)) (v # oid)) =
      ?ds @ (ucast v AND 0x7F) # concat (map (\<lambda>v. sub_id_octets v (digits v)) oid)" by (simp add: sub_id_octets_def)
  then show ?case by (simp only: enc_oid_loop.simps) (rule emits_seq [OF Cons.prems e], rule emits_Cons, assumption, rule Cons.IH)
qed

lemma sub_id_cnt_loop: "unat x < 2 ^ (7 * k) \<Longrightarrow> (0 < k \<Longrightarrow> 2 ^ (7 * (k - 1)) \<le> unat x) \<Longrightarrow> n + k < 65536 \<Longrightarrow> sub_id_cnt_loop x n = n + k"
proof (induction k arbitrary: x n)
  case 0
  then have "x = 0" by (simp add: unat_eq_zero)
  then show ?case by (subst sub_id_cnt_loop.simps) simp
next
  case (Suc k)
  have d: "unat (drop_bit 7 x) = unat x div 128" by (simp add: unat_shift)
  have "2 ^ (7 * k) \<le> unat x" using Suc.prems(2) by simp
  then have "0 < unat x" by (rule less_le_trans [rotated]) simp
  then have x: "0 < x" by (simp add: word_less_nat_alt)
  have "unat (drop_bit 7 x) < 2 ^ (7 * k)" using Suc.prems(1) by (simp add: d less_mult_imp_div_less power_add)
  moreover have "2 ^ (7 * (k - 1)) \<le> unat (drop_bit 7 x)" if "0 < k"
  proof -
    have "(2::nat) ^ (7 * k) = 2 ^ (7 * (k - 1)) * 128" using that by (cases k) (simp_all add: power_add)
    then show ?thesis using Suc.prems(2) by (simp add: d less_eq_div_iff_mult_less_eq)
  qed
  ultimately have "sub_id_cnt_loop (drop_bit 7 x) (n + 1) = n + 1 + k" using Suc.prems(3) by (intro Suc.IH) auto
  then show ?case using x Suc.prems(3) by (subst sub_id_cnt_loop.simps) (simp add: u16_id)
qed

lemma sub_id_cnt:
  assumes "n + digits v < 65536"
  shows "sub_id_cnt_loop (drop_bit 7 v) (u16 (n + 1)) = n + digits v"
proof -
  obtain k where k: "digits v = Suc k" using digits_bounds(1) [of v] by (cases "digits v") auto
  have d: "unat (drop_bit 7 v) = unat v div 128" by (simp add: unat_shift)
  have "unat (drop_bit 7 v) < 2 ^ (7 * k)" using digits_bounds(3) [of v] k by (simp add: d less_mult_imp_div_less power_add)
  moreover have "2 ^ (7 * (k - 1)) \<le> unat (drop_bit 7 v)" if "0 < k"
  proof -
    have "(2::nat) ^ (7 * k) = 2 ^ (7 * (k - 1)) * 128" using that by (cases k) (simp_all add: power_add)
    then show ?thesis using digits_bounds(4) [of v] k that by (simp add: d less_eq_div_iff_mult_less_eq)
  qed
  ultimately have "sub_id_cnt_loop (drop_bit 7 v) (n + 1) = n + 1 + k" using assms k by (intro sub_id_cnt_loop) auto
  then show ?thesis using assms k by (simp add: u16_id)
qed

lemma oid_cnt_loop: "n + 5 * length oid < 65536 \<Longrightarrow> oid_cnt_loop oid n = n + length (concat (map (\<lambda>v. sub_id_octets v (digits v)) oid))"
proof (induction oid arbitrary: n)
  case (Cons v oid)
  have "sub_id_cnt_loop (drop_bit 7 v) (u16 (n + 1)) = n + digits v" using Cons.prems digits_bounds(2) [of v] by (intro sub_id_cnt) simp
  then show ?case using Cons.IH [of "n + digits v"] Cons.prems digits_bounds(1,2) [of v] by simp
qed simp

lemma digit_masks: "bit (0x80 :: int) i \<longleftrightarrow> i = 7" "bit (0x7F :: int) i \<longleftrightarrow> i < 7" "bit (- 129 :: int) i \<longleftrightarrow> i \<noteq> 7"
proof -
  have e: "bit (2 ^ 7 :: int) i \<longleftrightarrow> i = 7" for i by (simp only: bit_exp_iff) auto
  have "bit (mask 7 :: int) i \<longleftrightarrow> i < 7" "bit (NOT (2 ^ 7 :: int)) i \<longleftrightarrow> i \<noteq> 7" by (simp_all only: bit_not_iff bit_mask_iff e) auto
  then show "bit (0x80 :: int) i \<longleftrightarrow> i = 7" "bit (0x7F :: int) i \<longleftrightarrow> i < 7" "bit (- 129 :: int) i \<longleftrightarrow> i \<noteq> 7"
    using e [of i] by (simp_all add: mask_eq_exp_minus_1)
qed

lemma digit_flags: "((x :: u8_t) OR 0x80) AND 0x80 \<noteq> 0" "(x AND 0x7F) AND 0x80 = 0"
  by (simp_all add: and_0x80 bit_or_iff bit_and_iff digit_masks)

lemma digit_value: "bit (((x :: u8_t) OR 0x80) AND NOT 0x80) i \<longleftrightarrow> i < 7 \<and> bit x i" "bit ((x AND 0x7F) AND NOT 0x80) i \<longleftrightarrow> i < 7 \<and> bit x i"
  using bit_imp_le_length [of x i] by (auto simp: bit_or_iff bit_and_iff digit_masks)

lemma append_digit:
  assumes y: "\<And>i. bit y i \<longleftrightarrow> i < 7 \<and> bit (ucast w :: u8_t) i"
  shows "push_bit 7 (drop_bit 7 w) + ucast (y :: u8_t) = (w :: u32_t)"
proof -
  have "push_bit 7 (drop_bit 7 w) + ucast y = push_bit 7 (drop_bit 7 w) OR ucast y"
    by (rule disjunctive_add) (auto simp: bit_push_bit_iff bit_unsigned_iff y)
  also have "\<dots> = w"
  proof (rule bit_word_eqI)
    show "bit (push_bit 7 (drop_bit 7 w) OR ucast y) i = bit w i" if "i < LENGTH(32)" for i
      using that by (cases "7 \<le> i") (auto simp: bit_or_iff bit_push_bit_iff bit_unsigned_iff bit_drop_bit_eq y)
  qed
  finally show ?thesis .
qed

lemma next_digit:
  "push_bit 7 (drop_bit (7 * Suc j) v) + ucast ((ucast (drop_bit (7 * j) v) OR 0x80 :: u8_t) AND NOT 0x80) = drop_bit (7 * j) (v :: u32_t)"
  "push_bit 7 (drop_bit 7 v) + ucast ((ucast v AND 0x7F :: u8_t) AND NOT 0x80) = v"
proof -
  have "drop_bit (7 * Suc j) v = drop_bit 7 (drop_bit (7 * j) v)" by simp
  then show "push_bit 7 (drop_bit (7 * Suc j) v) + ucast ((ucast (drop_bit (7 * j) v) OR 0x80 :: u8_t) AND NOT 0x80) = drop_bit (7 * j) v"
    by (simp only:) (rule append_digit, rule digit_value)
  show "push_bit 7 (drop_bit 7 v) + ucast ((ucast v AND 0x7F :: u8_t) AND NOT 0x80) = v" by (rule append_digit, rule digit_value)
qed

lemma sub_id_octets_Suc: "sub_id_octets v (Suc 0) = [ucast v AND 0x7F]"
  "sub_id_octets v (Suc (Suc j)) = (ucast (drop_bit (7 * Suc j) v) OR 0x80) # sub_id_octets v (Suc j)"
  by (simp_all add: sub_id_octets_def)

lemma dec_sub_id_accepts:
  "data AND 0x80 \<noteq> 0 \<Longrightarrow> accepts s ps (sub_id_octets v (Suc j)) (len, ucast v AND 0x7F, v) (dec_sub_id_loop s (len + Suc j) data (drop_bit (7 * Suc j) v))"
proof (induction j arbitrary: data)
  case 0
  let ?low = "ucast v AND 0x7F :: u8_t"
  have e: "dec_sub_id_loop s (len + Suc 0) data x = (\<lambda>st. PBUF_OP_READ (snmp_pbuf_stream_read s st)
      (\<lambda>data. dec_sub_id_loop s len data (push_bit 7 x + ucast (data AND NOT 0x80))))" for x
    by (rule ext) (subst dec_sub_id_loop.simps, use 0 in simp)
  have "dec_sub_id_loop s len ?low v = (\<lambda>st. Some (Inr (len, ?low, v), st))"
    by (rule ext) (subst dec_sub_id_loop.simps, simp only: digit_flags, simp)
  then have "accepts s ps [] (len, ?low, v) (dec_sub_id_loop s len ?low v)" by (simp only: pbuf_source.consumes_Nil)
  then have "accepts s ps [] (len, ?low, v) (dec_sub_id_loop s len ?low (push_bit 7 (drop_bit 7 v) + ucast (?low AND NOT 0x80)))"
    by (simp only: next_digit)
  then show ?case unfolding e sub_id_octets_Suc by simp (rule pbuf_source.consumes_Cons)
next
  case (Suc j)
  have e: "dec_sub_id_loop s (len + Suc (Suc j)) data x = (\<lambda>st. PBUF_OP_READ (snmp_pbuf_stream_read s st)
      (\<lambda>data. dec_sub_id_loop s (len + Suc j) data (push_bit 7 x + ucast (data AND NOT 0x80))))" for x
    by (rule ext) (subst dec_sub_id_loop.simps, use Suc.prems in simp)
  show ?case unfolding e sub_id_octets_Suc
    by (rule pbuf_source.consumes_Cons) (use Suc.IH [OF digit_flags(1)] in \<open>simp only: next_digit\<close>)
qed

lemma only_digit:
  assumes "unat (w :: u32_t) < 2 ^ 7" "\<And>i. bit y i \<longleftrightarrow> i < 7 \<and> bit (ucast w :: u8_t) i"
  shows "ucast (y :: u8_t) = w"
proof -
  have "unat (drop_bit 7 w) = 0" using assms(1) by (simp add: unat_shift)
  then have "drop_bit 7 w = 0" by (simp only: unat_eq_zero)
  then show ?thesis using append_digit [OF assms(2)] by simp
qed

lemma single_octet: "unat v < 2 ^ 7 \<Longrightarrow> ucast (ucast (v :: u32_t) AND 0x7F :: u8_t) = v"
  by (rule only_digit) (auto simp: bit_and_iff digit_masks)

lemma leading_octet:
  assumes "unat (v :: u32_t) < 2 ^ (7 * Suc (Suc j))"
  shows "ucast ((ucast (drop_bit (7 * Suc j) v) OR 0x80 :: u8_t) AND NOT 0x80) = drop_bit (7 * Suc j) v"
proof (rule only_digit)
  show "unat (drop_bit (7 * Suc j) v) < 2 ^ 7" using assms by (simp add: unat_shift less_mult_imp_div_less power_add)
qed (rule digit_value)

abbreviation oid_octets :: "u32_t list \<Rightarrow> u8_t list" where
  "oid_octets oid \<equiv> concat (map (\<lambda>v. sub_id_octets v (digits v)) oid)"

lemma dec_oid_step:
  assumes "accepts s ps cs v (dec_oid_loop s len oid_max (oid @ [x]))" "length oid < oid_max"
  shows "accepts s ps (sub_id_octets x (digits x) @ cs) v (dec_oid_loop s (digits x + len) oid_max oid)"
proof -
  let ?k = "\<lambda>data st. if data AND 0x80 = 0 then dec_oid_loop s (digits x + len - 1) oid_max (oid @ [ucast data]) st
    else PBUF_OP_READ (dec_sub_id_loop s (digits x + len - 1) data (ucast (data AND NOT 0x80)) st) (\<lambda>(len', data, sub_id) st.
      if data AND 0x80 \<noteq> 0 then Some (Inl ERR_VAL, st) else dec_oid_loop s len' oid_max (oid @ [sub_id]) st)"
  have e: "dec_oid_loop s (digits x + len) oid_max oid = (\<lambda>st. PBUF_OP_READ (snmp_pbuf_stream_read s st) ?k)"
    by (rule ext) (subst dec_oid_loop.simps, use assms(2) digits_bounds(1) [of x] in \<open>simp cong: if_cong\<close>)
  show ?thesis
  proof (cases "digits x = 1")
    case True
    then have "ucast (ucast x AND 0x7F :: u8_t) = x" using digits_bounds(3) [of x] by (intro single_octet) simp
    then have "?k (ucast x AND 0x7F) = dec_oid_loop s len oid_max (oid @ [x])" using True digit_flags(2) by (intro ext) (simp only:, simp)
    then have "accepts s ps cs v (?k (ucast x AND 0x7F))" using assms(1) by (simp only:)
    then show ?thesis unfolding e using True by (simp only: sub_id_octets_Suc append.simps One_nat_def) (rule pbuf_source.consumes_Cons)
  next
    case False
    then obtain j where j: "digits x = Suc (Suc j)" using digits_bounds(1) [of x] by (metis One_nat_def Suc_le_D not0_implies_Suc)
    let ?d = "ucast (drop_bit (7 * Suc j) x) OR 0x80 :: u8_t" and ?low = "ucast x AND 0x7F :: u8_t"
    have "?k ?d = (\<lambda>st. PBUF_OP_READ (dec_sub_id_loop s (len + Suc j) ?d (drop_bit (7 * Suc j) x) st) (\<lambda>(len', data, sub_id) st.
        if data AND 0x80 \<noteq> 0 then Some (Inl ERR_VAL, st) else dec_oid_loop s len' oid_max (oid @ [sub_id]) st))"
      using leading_octet [of x j] digits_bounds(3) [of x] j by (intro ext) (simp only: digit_flags if_False, simp add: add.commute)
    moreover have "accepts s ps (sub_id_octets x (Suc j) @ cs) v \<dots>"
      by (rule pbuf_source.consumes_seq [OF dec_sub_id_accepts [OF digit_flags(1)]]) (use assms(1) in \<open>simp only: prod.case digit_flags, simp\<close>)
    ultimately have a: "accepts s ps (sub_id_octets x (Suc j) @ cs) v (?k ?d)" by (simp only:)
    have o: "sub_id_octets x (digits x) @ cs = ?d # sub_id_octets x (Suc j) @ cs" by (simp only: j sub_id_octets_Suc append.simps)
    show ?thesis unfolding e o using a by (rule pbuf_source.consumes_Cons)
  qed
qed

lemma dec_oid_loop_accepts:
  "length oid + length xs \<le> oid_max \<Longrightarrow> accepts s ps (oid_octets xs) (oid @ xs) (dec_oid_loop s (length (oid_octets xs)) oid_max oid)"
proof (induction xs arbitrary: oid)
  case Nil
  have "dec_oid_loop s 0 oid_max oid = (\<lambda>st. Some (Inr oid, st))" by (rule ext) (subst dec_oid_loop.simps, simp)
  then show ?case by (simp add: pbuf_source.consumes_Nil)
next
  case (Cons x xs)
  have "accepts s ps (oid_octets xs) (oid @ x # xs) (dec_oid_loop s (length (oid_octets xs)) oid_max (oid @ [x]))"
    using Cons.IH [of "oid @ [x]"] Cons.prems by simp
  then show ?case using dec_oid_step [of s ps "oid_octets xs" "oid @ x # xs" "length (oid_octets xs)" oid_max oid x] Cons.prems digits_bounds(1) [of x] by simp
qed

text \<open>The object identifiers that the one-octet encoding of the first two sub-identifiers can represent.\<close>

definition oid_ok :: "u32_t list \<Rightarrow> bool" where
  "oid_ok oid \<longleftrightarrow> 2 \<le> length oid \<and> oid ! 0 \<le> 2 \<and> (if oid ! 0 = 2 then oid ! 1 < 176 else oid ! 1 < 40)"

lemma first_sub_ids:
  assumes "a \<le> 2" "if a = 2 then b < 176 else b < 40" "d = (ucast (a * 40 + b :: u32_t) :: u8_t)"
  shows "(if d = 0x2B then [1, 3] else if d < 40 then [0, ucast d] else if d < 80 then [1, ucast d - 40] else [2, ucast d - 80]) = [a, b]"
proof -
  have u: "unat a \<le> 2" "if unat a = 2 then unat b < 176 else unat b < 40"
    using assms(1,2) by (auto simp: word_le_nat_alt word_less_nat_alt split: if_splits)
  then have s: "unat (a * 40 + b) = unat a * 40 + unat b"
    by (subst unat_add_lem [THEN iffD1]; (subst unat_mult_lem [THEN iffD1])?; auto split: if_splits)
  then have d: "unat d = unat a * 40 + unat b" using u by (simp add: assms(3) unsigned_ucast_eq take_bit_eq_mod split: if_splits)
  then have ud: "(ucast d :: u32_t) = a * 40 + b" using s u by (intro word_unat_eq_iff [THEN iffD2]) (simp add: unsigned_ucast_eq take_bit_eq_mod split: if_splits)
  have "unat a = 0 \<or> unat a = 1 \<or> unat a = 2" using u(1) by linarith
  then consider "a = 0" | "a = 1" | "a = 2" by (auto simp: word_unat_eq_iff)
  then show ?thesis
  proof cases
    case 1
    then show ?thesis using d u ud by (simp add: word_less_nat_alt word_unat_eq_iff [of d])
  next
    case 2
    then have "b = 3" if "d = 0x2B" using d that by (simp add: word_unat_eq_iff [of b])
    then show ?thesis using 2 d u ud by (simp add: word_less_nat_alt)
  next
    case 3
    then show ?thesis using d u ud by (simp add: word_less_nat_alt word_unat_eq_iff [of d])
  qed
qed

lemma oid_transfers:
  assumes w: "writable szof s ps st" and oid: "oid_ok oid" "length oid \<le> oid_max" "length oid \<le> 255"
  shows "transfers szof s ps st (snmp_asn1_enc_oid_cnt oid) oid ERR_OK ERR_BUF (snmp_asn1_enc_oid oid st s)
    (\<lambda>s. snmp_asn1_dec_oid s (snmp_asn1_enc_oid_cnt oid) oid_max)"
proof -
  obtain a b xs where ab: "oid = a # b # xs" using oid(1) by (cases oid; cases "tl oid") (auto simp: oid_ok_def)
  let ?d = "ucast (a * 40 + b) :: u8_t"
  have cnt: "snmp_asn1_enc_oid_cnt oid = Suc (length (oid_octets xs))" using oid_cnt_loop [of 1 xs] oid(3) ab by (simp add: snmp_asn1_enc_oid_cnt_def)
  have "emits szof s ps st (?d # oid_octets xs) ERR_OK ERR_BUF (PBUF_OP_EXEC ERR_BUF (snmp_pbuf_stream_write ?d st s) (enc_oid_loop xs))"
    by (rule emits_Cons [OF w]) (rule enc_oid_loop_emits)
  then have e: "emits szof s ps st (?d # oid_octets xs) ERR_OK ERR_BUF (snmp_asn1_enc_oid oid st s)" using ab by (simp add: snmp_asn1_enc_oid_def)
  have "accepts s' ps (?d # oid_octets xs) oid (snmp_asn1_dec_oid s' (snmp_asn1_enc_oid_cnt oid) oid_max)" for s' :: "('h, 'z) pbufs_scheme"
  proof -
    let ?first = "\<lambda>data. if data = 0x2B then [1, 3] else if data < 40 then [0, ucast data]
      else if data < (80 :: u8_t) then [1, ucast data - 40] else [2, ucast data - 80] :: u32_t list"
    have "?first ?d = [a, b]" using oid(1) ab by (intro first_sub_ids) (auto simp: oid_ok_def)
    then have "accepts s' ps (oid_octets xs) oid (dec_oid_loop s' (length (oid_octets xs)) oid_max (?first ?d))"
      using dec_oid_loop_accepts [of "[a, b]" xs oid_max s' ps] oid(2) ab by (simp only:) simp
    moreover have "snmp_asn1_dec_oid s' (snmp_asn1_enc_oid_cnt oid) oid_max = (\<lambda>st. PBUF_OP_READ (snmp_pbuf_stream_read s' st)
        (\<lambda>data. dec_oid_loop s' (length (oid_octets xs)) oid_max (?first data)))"
      by (rule ext) (use cnt oid(2) ab in \<open>simp add: snmp_asn1_dec_oid_def\<close>)
    ultimately show ?thesis by (simp only:) (rule pbuf_source.consumes_Cons)
  qed
  from emits_transfers [OF w e this] show ?thesis using cnt by simp
qed

section \<open>Type and length\<close>

definition len_oct :: "nat \<Rightarrow> nat \<Rightarrow> u8_t" where
  "len_oct v i = of_nat (v div 256 ^ i)"

lemma len_oct_zero: "v < 65536 \<Longrightarrow> 2 \<le> i \<Longrightarrow> len_oct v i = 0"
proof -
  assume "v < 65536" "2 \<le> i"
  then have "v < 256 ^ 2" "(256::nat) ^ 2 \<le> 256 ^ i" by (simp_all only: power_increasing) simp_all
  then show ?thesis by (simp add: len_oct_def)
qed

lemma enc_length_emits:
  assumes v: "v < 65536"
  shows "writable szof s ps st \<Longrightarrow> emits szof s ps st (map (len_oct v) (rev [1..<n])) ERR_OK ERR_BUF (enc_length_loop n v st s)"
proof (induction n arbitrary: st s)
  case 0
  then show ?case by (subst enc_length_loop.simps) (simp add: emits_Nil)
next
  case (Suc n)
  show ?case
  proof (cases "n = 0")
    case True
    then show ?thesis using Suc.prems by (subst enc_length_loop.simps) (simp add: emits_Nil)
  next
    case False
    have "len_oct v n = (if Suc n = 2 then of_nat (drop_bit 8 v) else 0)"
      using len_oct_zero [OF v, of n] False by (auto simp: len_oct_def drop_bit_eq_div)
    then have e: "enc_length_loop (Suc n) v st s = PBUF_OP_EXEC ERR_BUF (snmp_pbuf_stream_write (len_oct v n) st s) (enc_length_loop n v)"
      using False by (subst enc_length_loop.simps) (simp only: Let_def, simp)
    have "rev [1..<Suc n] = n # rev [1..<n]" using False by simp
    then show ?thesis by (simp only: e list.map) (rule emits_Cons [OF Suc.prems], rule Suc.IH)
  qed
qed

lemma append_octet: "x < 256 \<Longrightarrow> u16 (push_bit 8 x) OR unat (d :: u8_t) = x * 256 + unat d"
proof -
  assume x: "x < 256"
  have "push_bit 8 x + unat d = push_bit 8 x OR unat d"
    by (rule disjunctive_add) (auto simp: bit_push_bit_iff bit_unsigned_iff dest: bit_imp_le_length)
  then show ?thesis using x by (simp add: push_bit_eq_mult u16_id)
qed

lemma dec_length_accepts: "v < 0xFFFF \<Longrightarrow> accepts s ps (octets (len_oct v) n) v (dec_length_loop s n (v div 256 ^ n))"
proof (induction n)
  case 0
  have "dec_length_loop s 0 v = (\<lambda>st. Some (Inr v, st))" by (rule ext) (subst dec_length_loop.simps, simp)
  then show ?case by (simp add: pbuf_source.consumes_Nil)
next
  case (Suc n)
  let ?x = "v div 256 ^ Suc n"
  have "v div 256 < 256" using Suc.prems by simp
  then have "v div 256 div 256 ^ n < 256" by (rule le_less_trans [OF div_le_dividend])
  then have x: "?x < 256" by (simp add: div_mult2_eq)
  have "?x = v div 256 ^ n div 256" by (simp only: power_Suc2 div_mult2_eq)
  then have "?x * 256 + unat (len_oct v n) = v div 256 ^ n" by (simp add: len_oct_def del: power_Suc)
  then have a: "u16 (push_bit 8 ?x) OR unat (len_oct v n) = v div 256 ^ n" using append_octet [OF x] by simp
  have "v div 256 ^ n \<noteq> 0xFFFF" using Suc.prems div_le_dividend [of v "256 ^ n"] by linarith
  moreover have "dec_length_loop s (Suc n) ?x = (\<lambda>st. PBUF_OP_READ (snmp_pbuf_stream_read s st)
      (\<lambda>data st. let vlen = u16 (push_bit 8 ?x) OR unat data in if vlen = 0xFFFF then Some (Inl ERR_VAL, st) else dec_length_loop s n vlen st))"
    by (rule ext) (subst dec_length_loop.simps, use x in \<open>simp add: Let_def cong: if_cong\<close>)
  ultimately show ?case using Suc by (simp only: octets_Suc) (rule pbuf_source.consumes_Cons, simp only: a Let_def, simp)
qed

lemma emits_head:
  assumes "writable szof s ps st" "0 < st_length st"
    "\<And>s'. writable szof s' ps (moved 1 st) \<Longrightarrow> emits szof s' ps (moved 1 st) cs ok bad (k (moved 1 st) s')"
  shows "emits szof s ps st (b # cs) ok bad (PBUF_OP_EXEC bad' (snmp_pbuf_stream_write b st s) k)"
proof -
  obtain s' where "snmp_pbuf_stream_write b st s = Some (ERR_OK, moved 1 st, s')"
    using emits_write [OF assms(1), of b] assms(2) by (auto simp: emits_def Suc_le_eq)
  then have "PBUF_OP_EXEC bad' (snmp_pbuf_stream_write b st s) k = PBUF_OP_EXEC bad (snmp_pbuf_stream_write b st s) k"
    by (simp add: PBUF_OP_EXEC_def)
  then show ?thesis using assms(1,3) by (simp only:) (rule emits_Cons)
qed

text \<open>The number of length octets, and the header as the encoder leaves it.\<close>

definition len_len :: "snmp_asn1_tlv \<Rightarrow> nat" where
  "len_len tlv = (if length_len tlv > 0 then length_len tlv else snmp_asn1_enc_length_cnt (value_len tlv))"

definition tlv_ok :: "snmp_asn1_tlv \<Rightarrow> bool" where
  "tlv_ok tlv \<longleftrightarrow> tlv_type tlv AND 0x1F \<noteq> 0x1F \<and> type_len tlv = 0 \<and> value_len tlv < 0xFFFF \<and>
     snmp_asn1_enc_length_cnt (value_len tlv) \<le> len_len tlv \<and> len_len tlv \<le> 128"

definition tlv_octets :: "snmp_asn1_tlv \<Rightarrow> u8_t list" where
  "tlv_octets tlv = tlv_type tlv # (if len_len tlv > 1 then [0x80 OR of_nat (len_len tlv - 1)] else []) @
     octets (len_oct (value_len tlv)) (max 1 (len_len tlv - 1))"

abbreviation tlv_done :: "snmp_asn1_tlv \<Rightarrow> snmp_asn1_tlv" where
  "tlv_done tlv \<equiv> tlv\<lparr>type_len := 1, length_len := len_len tlv\<rparr>"

lemma len_len_pos: "0 < len_len tlv"
  by (auto simp: len_len_def snmp_asn1_enc_length_cnt_def)

lemma length_tlv_octets: "length (tlv_octets tlv) = 1 + len_len tlv"
  using len_len_pos [of tlv] by (auto simp: tlv_octets_def max_def)

lemma enc_tlv_emits:
  assumes w: "writable szof s ps st" "0 < st_length st" and t: "tlv_ok tlv"
  shows "emits szof s ps st (tlv_octets tlv) (ERR_OK, tlv_done tlv) (ERR_BUF, tlv_done tlv) (snmp_ans1_enc_tlv tlv st s)"
proof -
  let ?n = "len_len tlv" and ?v = "value_len tlv" and ?ok = "(ERR_OK, tlv_done tlv)" and ?bad = "(ERR_BUF, tlv_done tlv)"
  let ?low = "\<lambda>st s. PBUF_OP_EXEC ?bad (snmp_pbuf_stream_write (of_nat (?v AND 0xFF)) st s) (\<lambda>st s. Some (?ok, st, s))"
  let ?len = "\<lambda>st s. if ?n > 1 then PBUF_OP_EXEC ?bad (snmp_pbuf_stream_write (0x80 OR of_nat (?n - 1)) st s) (\<lambda>st s.
      PBUF_OP_EXEC ?bad (enc_length_loop (?n - 1) ?v st s) ?low) else ?low st s"
  have low: "emits szof s' ps st' (octets (len_oct ?v) 1) ?ok ?bad (?low st' s')" if "writable szof s' ps st'" for s' st'
  proof -
    have "?v AND 0xFF = ?v mod 256" using take_bit_eq_mask [of 8 ?v] by (simp add: mask_eq_exp_minus_1 take_bit_eq_mod)
    then have "len_oct ?v 0 = of_nat (?v AND 0xFF)" by (simp add: len_oct_def word_unat_eq_iff)
    then show ?thesis using emits_last [OF that] by (simp only: octets_1)
  qed
  have len: "emits szof s' ps st' (tl (tlv_octets tlv)) ?ok ?bad (?len st' s')" if w': "writable szof s' ps st'" for s' st'
  proof (cases "?n > 1")
    case True
    have o: "tl (tlv_octets tlv) = (0x80 OR of_nat (?n - 1)) # map (len_oct ?v) (rev [1..<?n - 1]) @ octets (len_oct ?v) 1"
      using True octets_split [of 1 "?n - 1" "len_oct ?v"] by (simp add: tlv_octets_def max_def)
    show ?thesis unfolding o if_P [OF True]
    proof (rule emits_Cons [OF w'])
      fix s''
      assume w'': "writable szof s'' ps (moved 1 st')"
      have "emits szof s'' ps (moved 1 st') (map (len_oct ?v) (rev [1..<?n - 1])) ERR_OK ERR_BUF (enc_length_loop (?n - 1) ?v (moved 1 st') s'')"
        using t w'' by (intro enc_length_emits) (simp_all add: tlv_ok_def)
      then show "emits szof s'' ps (moved 1 st') (map (len_oct ?v) (rev [1..<?n - 1]) @ octets (len_oct ?v) 1) ?ok ?bad
          (PBUF_OP_EXEC ?bad (enc_length_loop (?n - 1) ?v (moved 1 st') s'') ?low)"
        by (rule emits_seq [OF w'']) (rule low)
    qed
  next
    case False
    then show ?thesis using low [OF w'] by (simp add: tlv_octets_def max_def)
  qed
  have e: "snmp_ans1_enc_tlv tlv st s = PBUF_OP_EXEC (ERR_BUF, tlv) (snmp_pbuf_stream_write (tlv_type tlv) st s) ?len"
    using t unfolding snmp_ans1_enc_tlv_def
    by (auto simp: tlv_ok_def len_len_def snmp_asn1_enc_length_cnt_def SNMP_ASN1_DATATYPE_MASK_def SNMP_ASN1_DATATYPE_EXTENDED_def Let_def fun_eq_iff
        intro!: arg_cong [of _ _ "PBUF_OP_EXEC _ _"])
  have o: "tlv_octets tlv = tlv_type tlv # tl (tlv_octets tlv)" by (simp add: tlv_octets_def)
  show ?thesis unfolding e by (subst o, rule emits_head [OF w], rule len)
qed

lemma long_form:
  assumes "1 < n" "n \<le> 128" "d = (0x80 OR of_nat (n - 1) :: u8_t)"
  shows "\<not> d < 0x80" "0x80 < d" "unat (d - 0x80) = n - 1"
proof -
  have "(0x80 :: u8_t) + of_nat (n - 1) = 0x80 OR of_nat (n - 1)"
  proof (rule disjunctive_add)
    have "unat (of_nat (n - 1) :: u8_t) < 2 ^ 7" using assms(1,2) by (simp only: unat_of_nat_u8) simp
    then have "bit (of_nat (n - 1) :: u8_t) i \<Longrightarrow> i < 7" for i by (metis high_bits not_le)
    then show "\<not> bit (0x80 :: u8_t) i \<or> \<not> bit (of_nat (n - 1) :: u8_t) i" for i by (auto simp: digit_masks)
  qed
  then have d: "d = of_nat (0x80 + (n - 1))" using assms(3) by simp
  then have u: "unat d = 0x80 + (n - 1)" using assms(1,2) by (simp only: unat_of_nat_u8) simp
  then show "\<not> d < 0x80" "0x80 < d" using assms(1) by (simp_all add: word_less_nat_alt)
  have "d - 0x80 = of_nat (n - 1)" using d by (simp del: of_nat_diff)
  then show "unat (d - 0x80) = n - 1" using assms(1,2) by (simp only: unat_of_nat_u8) simp
qed

lemma len_fits:
  assumes "tlv_ok tlv" "1 < len_len tlv"
  shows "value_len tlv < 256 ^ (len_len tlv - 1)"
proof -
  let ?n = "len_len tlv - 1"
  have "value_len tlv < 256 ^ 1 \<or> 2 \<le> ?n" using assms(1) by (auto simp: tlv_ok_def snmp_asn1_enc_length_cnt_def split: if_splits)
  moreover have "(256::nat) ^ 1 \<le> 256 ^ ?n" using assms(2) by (intro power_increasing) auto
  moreover have "value_len tlv < 256 ^ 2" using assms(1) by (simp add: tlv_ok_def)
  moreover have "(256::nat) ^ 2 \<le> 256 ^ ?n" if "2 \<le> ?n" using that by (intro power_increasing) auto
  ultimately show ?thesis by (meson less_le_trans)
qed

text \<open>What \<open>snmp_asn1_dec_tlv\<close> does with the first length octet.\<close>

abbreviation dec_tlv_length :: "('h, 'z) pbufs_scheme \<Rightarrow> u8_t \<Rightarrow> u8_t \<Rightarrow> snmp_pbuf_stream \<Rightarrow> ((err_t + snmp_asn1_tlv) \<times> snmp_pbuf_stream) option" where
  "dec_tlv_length s ty data st \<equiv>
     (if data < 0x80 then Some (Inr \<lparr>tlv_type = ty, type_len = 1, length_len = 1, value_len = unat data\<rparr>, st)
      else if data > 0x80 then
        (case dec_length_loop s (unat (data - 0x80)) 0 st of None \<Rightarrow> None | Some (Inl e, st) \<Rightarrow> Some (Inl e, st)
         | Some (Inr vlen, st) \<Rightarrow> Some (Inr \<lparr>tlv_type = ty, type_len = 1, length_len = unat (data - 0x80) + 1, value_len = vlen\<rparr>, st))
      else Some (Inl ERR_VAL, st))"

lemma dec_tlv_long:
  assumes t: "tlv_ok tlv" and n: "1 < len_len tlv"
  shows "accepts s ps (octets (len_oct (value_len tlv)) (len_len tlv - 1)) (tlv_done tlv) (dec_tlv_length s (tlv_type tlv) (0x80 OR of_nat (len_len tlv - 1)))"
  unfolding consumes_def
proof (intro allI impI)
  let ?n = "len_len tlv" and ?v = "value_len tlv"
  fix st cs
  assume st: "window s ps st" "remaining s ps st = octets (len_oct ?v) (?n - 1) @ cs"
  let ?d = "0x80 OR of_nat (?n - 1) :: u8_t"
  have "?n \<le> 128" using t by (simp add: tlv_ok_def)
  note d = long_form [OF n this refl]
  have "accepts s ps (octets (len_oct ?v) (?n - 1)) ?v (dec_length_loop s (?n - 1) 0)"
    using dec_length_accepts [of ?v s ps "?n - 1"] len_fits [OF t n] t by (simp add: tlv_ok_def)
  then obtain st' where "dec_length_loop s (?n - 1) 0 st = Some (Inr ?v, st')" "window s ps st'" "remaining s ps st' = cs"
    using st unfolding consumes_def by blast
  then show "\<exists>st'. dec_tlv_length s (tlv_type tlv) ?d st = Some (Inr (tlv_done tlv), st') \<and> window s ps st' \<and> remaining s ps st' = cs"
    using n by (simp only: d if_False if_True) simp
qed

lemma dec_tlv_accepts:
  assumes t: "tlv_ok tlv"
  shows "accepts s ps (tlv_octets tlv) (tlv_done tlv) (snmp_asn1_dec_tlv s)"
proof -
  let ?n = "len_len tlv" and ?v = "value_len tlv"
  have len: "accepts s ps (tl (tlv_octets tlv)) (tlv_done tlv) (\<lambda>st. PBUF_OP_READ (snmp_pbuf_stream_read s st) (dec_tlv_length s (tlv_type tlv)))"
  proof (cases "?n > 1")
    case True
    then have "tl (tlv_octets tlv) = (0x80 OR of_nat (?n - 1)) # octets (len_oct ?v) (?n - 1)" by (simp add: tlv_octets_def max_def)
    then show ?thesis using dec_tlv_long [OF t True] by (simp only:) (rule pbuf_source.consumes_Cons)
  next
    case False
    then have n: "?n = 1" using len_len_pos [of tlv] by simp
    then have "?v < 0x80" using t by (auto simp: tlv_ok_def snmp_asn1_enc_length_cnt_def split: if_splits)
    then have "len_oct ?v 0 < 0x80" "unat (len_oct ?v 0) = ?v" by (simp_all add: len_oct_def word_less_nat_alt)
    then have "dec_tlv_length s (tlv_type tlv) (len_oct ?v 0) = (\<lambda>st. Some (Inr (tlv_done tlv), st))" using n by (intro ext) simp
    then have "accepts s ps [] (tlv_done tlv) (dec_tlv_length s (tlv_type tlv) (len_oct ?v 0))" by (simp only: pbuf_source.consumes_Nil)
    moreover have "tl (tlv_octets tlv) = [len_oct ?v 0]" using n by (simp add: tlv_octets_def octets_1)
    ultimately show ?thesis by (simp only:) (rule pbuf_source.consumes_Cons)
  qed
  let ?k = "\<lambda>ty st. if ty AND SNMP_ASN1_DATATYPE_MASK = SNMP_ASN1_DATATYPE_EXTENDED then Some (Inl ERR_VAL, st)
      else PBUF_OP_READ (snmp_pbuf_stream_read s st) (dec_tlv_length s ty)"
  have "snmp_asn1_dec_tlv s = (\<lambda>st. PBUF_OP_READ (snmp_pbuf_stream_read s st) ?k)"
    by (rule ext) (simp only: snmp_asn1_dec_tlv_def Let_def)
  moreover have "?k (tlv_type tlv) = (\<lambda>st. PBUF_OP_READ (snmp_pbuf_stream_read s st) (dec_tlv_length s (tlv_type tlv)))"
    using t by (simp add: tlv_ok_def SNMP_ASN1_DATATYPE_MASK_def SNMP_ASN1_DATATYPE_EXTENDED_def)
  moreover have "tlv_octets tlv = tlv_type tlv # tl (tlv_octets tlv)" by (simp add: tlv_octets_def)
  ultimately show ?thesis using len pbuf_source.consumes_Cons [of s ps "tl (tlv_octets tlv)" "tlv_done tlv" ?k "tlv_type tlv"] by (simp only:) 
qed

section \<open>Decoding arbitrary input\<close>

abbreviation total :: "('h, 'z) pbufs_scheme \<Rightarrow> ptr list \<Rightarrow> ('v \<Rightarrow> bool) \<Rightarrow> (snmp_pbuf_stream \<Rightarrow> ((err_t + 'v) \<times> snmp_pbuf_stream) option) \<Rightarrow> bool" where
  "total s ps \<equiv> decodes (window s ps) (remaining s ps)"

lemma decodes_if: "(b \<Longrightarrow> decodes ok bytes Q P) \<Longrightarrow> (\<not> b \<Longrightarrow> decodes ok bytes Q P') \<Longrightarrow> decodes ok bytes Q (\<lambda>st. if b then P st else P' st)"
  by (cases b) simp_all

lemmas total_intros = pbuf_source.decodes_read decodes_if decodes_Inr decodes_Inl

lemma u32t_loop_total: "total s ps (\<lambda>_. True) (dec_u32t_loop s n v)"
proof (induction n arbitrary: v)
  case (Suc n)
  then show ?case by (subst dec_u32t_loop.simps [abs_def]) (simp add: total_intros)
qed (subst dec_u32t_loop.simps [abs_def], simp add: total_intros)

lemma u64t_loop_total: "total s ps (\<lambda>_. True) (dec_u64t_loop s n low v)"
proof (induction n arbitrary: low v)
  case (Suc n)
  then show ?case by (subst dec_u64t_loop.simps [abs_def]) (simp add: total_intros split_beta Let_def)
qed (subst dec_u64t_loop.simps [abs_def], simp add: total_intros)

lemma s32t_loop_total: "total s ps (\<lambda>_. True) (dec_s32t_loop s n neg v)"
proof (induction n arbitrary: v)
  case (Suc n)
  then show ?case by (subst dec_s32t_loop.simps [abs_def]) (simp add: total_intros Let_def)
qed (subst dec_s32t_loop.simps [abs_def], simp add: total_intros)

lemma length_loop_total: "total s ps (\<lambda>n. n < 0xFFFF) (dec_length_loop s n v)" if "v < 0xFFFF"
  using that
proof (induction n arbitrary: v)
  case (Suc n)
  have "u16 (push_bit 8 v) OR unat d < 0xFFFF" if "v \<le> 0xFF" "u16 (push_bit 8 v) OR unat d \<noteq> 0xFFFF" for d :: u8_t
  proof -
    have "unat d < 256" using unsigned_less [of d] by simp
    moreover have "u16 (push_bit 8 v) OR unat d = v * 256 + unat d" using append_octet [of v d] that(1) by simp
    ultimately show ?thesis using that by simp
  qed
  then show ?case using Suc by (subst dec_length_loop.simps [abs_def]) (auto simp: Let_def intro!: total_intros)
qed (subst dec_length_loop.simps [abs_def], simp add: total_intros)

lemma sub_id_loop_total: "total s ps (\<lambda>(len', _). len' \<le> len) (dec_sub_id_loop s len d v)"
proof (induction len arbitrary: d v)
  case (Suc len)
  have "total s ps (\<lambda>(len', _). len' \<le> Suc len) (dec_sub_id_loop s len d v)" for d v
    using Suc [of d v] unfolding decodes_def by (fastforce split: sum.splits)
  then show ?case by (subst dec_sub_id_loop.simps [abs_def]) (auto intro!: total_intros)
qed (subst dec_sub_id_loop.simps [abs_def], simp add: total_intros)

lemma oid_loop_total: "length oid \<le> oid_max \<Longrightarrow> total s ps (\<lambda>oid. length oid \<le> oid_max) (dec_oid_loop s len oid_max oid)"
proof (induction len arbitrary: oid rule: less_induct)
  case (less len)
  have "total s ps (\<lambda>oid. length oid \<le> oid_max) (\<lambda>st. PBUF_OP_READ (dec_sub_id_loop s (len - 1) d v st) (\<lambda>(len', data, sub_id) st.
      if data AND 0x80 \<noteq> 0 then Some (Inl ERR_VAL, st) else dec_oid_loop s len' oid_max (oid @ [sub_id]) st))"
    if "0 < len" "length oid < oid_max" for d v
    by (rule decodes_seq [OF sub_id_loop_total]) (use that less.IH in \<open>auto intro!: total_intros\<close>)
  then show ?case using less by (subst dec_oid_loop.simps [abs_def]) (auto intro!: total_intros)
qed

lemma raw_loop_total: "total s ps (\<lambda>bs. length bs = n + length buf) (dec_raw_loop s n buf)"
proof (induction n arbitrary: buf)
  case (Suc n)
  have "total s ps (\<lambda>bs. length bs = Suc n + length buf) (dec_raw_loop s n (buf @ [b]))" for b using Suc [of "buf @ [b]"] by simp
  then show ?case by (subst dec_raw_loop.simps [abs_def]) (simp add: total_intros)
qed (subst dec_raw_loop.simps [abs_def], simp add: total_intros)

lemma enc_raw_emits: "writable szof s ps st \<Longrightarrow> raw \<noteq> [] \<Longrightarrow> emits szof s ps st raw ERR_OK ERR_BUF (snmp_asn1_enc_raw raw st s)"
  using emits_writebuf [of szof s ps st raw] by (auto simp: snmp_asn1_enc_raw_def PBUF_OP_EXEC_def emits_def)

lemma dec_raw_loop_accepts: "accepts s ps bs (buf @ bs) (dec_raw_loop s (length bs) buf)"
proof (induction bs arbitrary: buf)
  case Nil
  have "dec_raw_loop s 0 buf = (\<lambda>st. Some (Inr buf, st))" by (rule ext) (subst dec_raw_loop.simps, simp)
  then show ?case by (simp add: pbuf_source.consumes_Nil)
next
  case (Cons b bs)
  have "dec_raw_loop s (length (b # bs)) buf = (\<lambda>st. PBUF_OP_READ (snmp_pbuf_stream_read s st) (\<lambda>data. dec_raw_loop s (length bs) (buf @ [data])))"
    by (rule ext) (subst dec_raw_loop.simps, simp)
  then show ?case using Cons [of "buf @ [b]"] by (simp only:) (rule pbuf_source.consumes_Cons, simp)
qed

lemma dec_raw_accepts: "length raw \<le> mx \<Longrightarrow> accepts s ps raw raw (snmp_asn1_dec_raw s (length raw) mx)"
  using dec_raw_loop_accepts [of s ps raw "[]"] by (simp add: consumes_def snmp_asn1_dec_raw_def)

lemma dec_tlv_total: "total s ps (\<lambda>tlv. value_len tlv < 0xFFFF) (snmp_asn1_dec_tlv s)"
proof -
  have "total s ps (\<lambda>tlv. value_len tlv < 0xFFFF) (\<lambda>st. case dec_length_loop s n 0 st of None \<Rightarrow> None | Some (Inl e, st) \<Rightarrow> Some (Inl e, st)
      | Some (Inr vlen, st) \<Rightarrow> Some (Inr \<lparr>tlv_type = ty, type_len = 1, length_len = n + 1, value_len = vlen\<rparr>, st))" for n ty
    unfolding decodes_def
  proof (intro allI impI)
    fix st
    assume "window s ps st"
    then obtain r st' m where "dec_length_loop s n 0 st = Some (r, st')" "window s ps st'" "remaining s ps st' = drop m (remaining s ps st)"
      "case r of Inr v \<Rightarrow> v < 0xFFFF | Inl _ \<Rightarrow> True" using length_loop_total [of 0 s ps n] unfolding decodes_def by auto
    then show "\<exists>r st' k. (case dec_length_loop s n 0 st of None \<Rightarrow> None | Some (Inl e, st) \<Rightarrow> Some (Inl e, st)
        | Some (Inr vlen, st) \<Rightarrow> Some (Inr \<lparr>tlv_type = ty, type_len = 1, length_len = n + 1, value_len = vlen\<rparr>, st)) = Some (r, st') \<and>
        window s ps st' \<and> remaining s ps st' = drop k (remaining s ps st) \<and> (case r of Inr tlv \<Rightarrow> value_len tlv < 0xFFFF | Inl _ \<Rightarrow> True)"
      by (cases r) auto
  qed
  then show ?thesis unfolding snmp_asn1_dec_tlv_def [abs_def] Let_def
    by (intro total_intros) (auto simp: word_less_nat_alt)
qed

section \<open>Copying between streams\<close>

lemma load_bytes_append: "load_bytes s p (m + n) = load_bytes s p m @ load_bytes s (padd p m) n"
  by (rule nth_equalityI) (auto simp: load_bytes_def nth_append padd_def)

lemma writeto_bytes:
  assumes "i \<le> pb_len (pb s q)"
  shows "load_bytes s (padd (pb_payload (pb s q)) i) len =
    take len (drop i (seg s q)) @ load_bytes s (padd (pb_payload (pb s q)) (pb_len (pb s q))) (i + len - pb_len (pb s q))"
proof (cases "i + len \<le> pb_len (pb s q)")
  case True
  then show ?thesis by (simp add: seg_part load_bytes_def [of _ _ 0])
next
  case False
  let ?m = "pb_len (pb s q) - i"
  have "len = ?m + (i + len - pb_len (pb s q))" using False assms by simp
  then have "load_bytes s (padd (pb_payload (pb s q)) i) len =
      load_bytes s (padd (pb_payload (pb s q)) i) ?m @ load_bytes s (padd (padd (pb_payload (pb s q)) i) ?m) (i + len - pb_len (pb s q))"
    by (metis load_bytes_append)
  moreover have "load_bytes s (padd (pb_payload (pb s q)) i) ?m = take len (drop i (seg s q))"
    using False assms by (simp add: seg_part [of i ?m s q])
  ultimately show ?thesis using assms by (simp add: padd_def)
qed

lemma skip_position:
  "chain (pb_link s) p (us @ q # vs) \<Longrightarrow> i < pb_len (pb s q) \<Longrightarrow> pbuf_skip s p (length (pdata s us) + i) = Some (Some q, i)"
proof (induction us arbitrary: p)
  case Nil
  then show ?case unfolding pbuf_skip_def by (subst pbuf_skip_const.simps) simp
next
  case (Cons u us)
  then have "pbuf_skip_const s p (length (pdata s (u # us)) + i) = pbuf_skip_const s (pb_next (pb s u)) (length (pdata s us) + i)"
    by (subst pbuf_skip_const.simps) simp
  then show ?case using Cons by (simp add: pbuf_skip_def)
qed

lemma writeto_one:
  assumes w: "writable szof s ts target" and c: "packet s (st_pbuf st) (us @ q # vs)" "st_offset st = length (pdata s us) + i" "i < pb_len (pb s q)"
    and len: "0 < len" "len \<le> st_length st" "len \<le> st_length target" "len \<le> pb_len (pb s q)" "st_offset st + len < 65536" "st_length st < 65536"
  shows "\<exists>s'. writeto_loop len st target s = Some (ERR_OK, moved len st, moved len target, s') \<and>
    filled szof s ts (patch (st_offset target) (load_bytes s (padd (pb_payload (pb s q)) i) len) (pdata s ts)) s'"
proof -
  let ?bs = "load_bytes s (padd (pb_payload (pb s q)) i) len"
  have l: "length ?bs = len" "?bs \<noteq> []" using len(1) by (auto simp: load_bytes_def)
  have "chain (pb_link s) (st_pbuf st) (us @ q # vs)" using c(1) by (simp add: packet_def)
  from skip_position [OF this c(3)] have skip: "pbuf_skip s (st_pbuf st) (st_offset st) = Some (Some q, i)" by (simp only: c(2))
  obtain s' where s': "snmp_pbuf_stream_writebuf ?bs target s = Some (ERR_OK, moved len target, s')"
    "filled szof s ts (patch (st_offset target) ?bs (pdata s ts)) s'"
    using emits_writebuf [OF w l(2)] l(1) len(3) by (auto simp: emits_def)
  have "st\<lparr>st_offset := u16 (st_offset st + len), st_length := sub16 (st_length st) len\<rparr> = moved len st"
    using len by (simp add: moved_def u16_id sub16_id)
  then have "writeto_loop len st target s = writeto_loop 0 (moved len st) (moved len target) s'"
    using skip s'(1) len c(3) by (subst writeto_loop.simps) (simp add: Let_def min_absorb1)
  then show ?thesis using s'(2) by (subst (asm) (2) writeto_loop.simps) simp
qed

section \<open>Properties\<close>

lemma fresh_stream:
  assumes "off + len \<le> 300"
  obtains q :: "(nat \<times> nat, msg_ptr) mbox" and p s ps where "pbuf_alloc win32_pair (\<lambda>_ _ _. None) PBUF_RAW 300 PBUF_POOL (pbufs_start q) = Some (Some p, s)"
    "writable szof_pbuf s ps \<lparr>st_pbuf = Some p, st_offset = off, st_length = len\<rparr>" "packet s (Some p) ps" "length (pdata s ps) = 300"
proof -
  obtain q :: "(nat \<times> nat, msg_ptr) mbox" and p s ps where s: "pbuf_alloc win32_pair (\<lambda>_ _ _. None) PBUF_RAW 300 PBUF_POOL (pbufs_start q) = Some (Some p, s)"
    "pbufs_inv szof_pbuf s" "packet s (Some p) ps" "buffers szof_pbuf s ps" "length (pdata s ps) = 300" by (rule fresh_packet [of 300]) auto
  show ?thesis by (rule that [OF s(1) _ s(3,5)]) (use s assms in \<open>simp add: writable_def window_def\<close>)
qed

text \<open>C22: The coders of values are inverse to each other.  With the length from the \<open>_cnt\<close> function, the encoders of \<open>u32_t\<close>,
  \<open>s32_t\<close> and \<open>u64_t\<close> write exactly that number of octets at the start of a stream over any pbuf chain and nothing
  else, and the decoders read the same value back and stop behind it; so do the coders of a non-empty octet string.  In a window
  that is too short they return \<open>ERR_BUF\<close> and have written inside the window only.\<close>

theorem snmp_values_roundtrip:
  assumes "writable szof s ps st" "raw \<noteq> []" "length raw \<le> buf_max"
  shows "transfers szof s ps st (snmp_asn1_enc_u32t_cnt u) u ERR_OK ERR_BUF (snmp_asn1_enc_u32t (snmp_asn1_enc_u32t_cnt u) u st s)
      (\<lambda>s. snmp_asn1_dec_u32t s (snmp_asn1_enc_u32t_cnt u)) \<and>
    transfers szof s ps st (snmp_asn1_enc_s32t_cnt i) i ERR_OK ERR_BUF (snmp_asn1_enc_s32t (snmp_asn1_enc_s32t_cnt i) i st s)
      (\<lambda>s. snmp_asn1_dec_s32t s (snmp_asn1_enc_s32t_cnt i)) \<and>
    transfers szof s ps st (snmp_asn1_enc_u64t_cnt v) v ERR_OK ERR_BUF (snmp_asn1_enc_u64t (snmp_asn1_enc_u64t_cnt v) v st s)
      (\<lambda>s. snmp_asn1_dec_u64t s (snmp_asn1_enc_u64t_cnt v) w) \<and>
    transfers szof s ps st (length raw) raw ERR_OK ERR_BUF (snmp_asn1_enc_raw raw st s) (\<lambda>s. snmp_asn1_dec_raw s (length raw) buf_max)"
  using emits_transfers [OF assms(1) enc_u32t_emits [OF assms(1) u32t_cnt(1,2)] dec_u32t_accepts [OF u32t_cnt]]
    emits_transfers [OF assms(1) enc_s32t_emits [OF assms(1) s32t_cnt(1)] dec_s32t_accepts [OF s32t_cnt s32t_cnt_bits]]
    emits_transfers [OF assms(1) enc_u64t_emits [OF assms(1) u64t_cnt(1,2)] dec_u64t_accepts [OF u64t_cnt]]
    emits_transfers [OF assms(1) enc_raw_emits [OF assms(1,2)] dec_raw_accepts [OF assms(3)]] by simp

theorem snmp_values_roundtrip_witness:
  "\<exists>q p s ps. pbuf_alloc win32_pair (\<lambda>_ _ _. None) PBUF_RAW 300 PBUF_POOL (pbufs_start q) = Some (Some p, s) \<and>
     transfers szof_pbuf s ps \<lparr>st_pbuf = Some p, st_offset = 126, st_length = 20\<rparr> 5 0xFFFFFFFF ERR_OK ERR_BUF
       (snmp_asn1_enc_u32t 5 0xFFFFFFFF \<lparr>st_pbuf = Some p, st_offset = 126, st_length = 20\<rparr> s) (\<lambda>s. snmp_asn1_dec_u32t s 5)"
proof -
  obtain q :: "(nat \<times> nat, msg_ptr) mbox" and p s ps where s: "pbuf_alloc win32_pair (\<lambda>_ _ _. None) PBUF_RAW 300 PBUF_POOL (pbufs_start q) = Some (Some p, s)"
    "writable szof_pbuf s ps \<lparr>st_pbuf = Some p, st_offset = 126, st_length = 20\<rparr>" by (rule fresh_stream [of 126 20]) auto
  have "snmp_asn1_enc_u32t_cnt 0xFFFFFFFF = 5" by (simp add: snmp_asn1_enc_u32t_cnt_def)
  then show ?thesis using snmp_values_roundtrip [OF s(2), of "[1, 2]" 2 "0xFFFFFFFF" 0 "(0, 0)" "(0, 0)"] s(1)
    by (intro exI [of _ q] exI [of _ p] exI [of _ s] exI [of _ ps]) simp
qed

text \<open>C23: An object identifier of at most 255 sub-identifiers whose first two fit the compressed first octet is
  encoded in the number of octets that \<open>snmp_asn1_enc_oid_cnt\<close> announces, for sub-identifiers over the whole 32-bit
  range, and decoded to the same identifier when the caller's array is long enough.\<close>

theorem snmp_oid_roundtrip:
  assumes "writable szof s ps st" "oid_ok oid" "length oid \<le> oid_max" "length oid \<le> 255"
  shows "transfers szof s ps st (snmp_asn1_enc_oid_cnt oid) oid ERR_OK ERR_BUF (snmp_asn1_enc_oid oid st s)
    (\<lambda>s. snmp_asn1_dec_oid s (snmp_asn1_enc_oid_cnt oid) oid_max)"
  by (rule oid_transfers [OF assms])

theorem snmp_oid_roundtrip_witness:
  "\<exists>q p s ps. pbuf_alloc win32_pair (\<lambda>_ _ _. None) PBUF_RAW 300 PBUF_POOL (pbufs_start q) = Some (Some p, s) \<and>
     transfers szof_pbuf s ps \<lparr>st_pbuf = Some p, st_offset = 120, st_length = 50\<rparr> (snmp_asn1_enc_oid_cnt [1, 3, 6, 1, 4, 1, 26381, 0xFFFFFFFF])
       [1, 3, 6, 1, 4, 1, 26381, 0xFFFFFFFF] ERR_OK ERR_BUF
       (snmp_asn1_enc_oid [1, 3, 6, 1, 4, 1, 26381, 0xFFFFFFFF] \<lparr>st_pbuf = Some p, st_offset = 120, st_length = 50\<rparr> s)
       (\<lambda>s. snmp_asn1_dec_oid s (snmp_asn1_enc_oid_cnt [1, 3, 6, 1, 4, 1, 26381, 0xFFFFFFFF]) 50)"
proof -
  obtain q :: "(nat \<times> nat, msg_ptr) mbox" and p s ps where s: "pbuf_alloc win32_pair (\<lambda>_ _ _. None) PBUF_RAW 300 PBUF_POOL (pbufs_start q) = Some (Some p, s)"
    "writable szof_pbuf s ps \<lparr>st_pbuf = Some p, st_offset = 120, st_length = 50\<rparr>" by (rule fresh_stream [of 120 50]) auto
  show ?thesis using snmp_oid_roundtrip [OF s(2), of "[1, 3, 6, 1, 4, 1, 26381, 0xFFFFFFFF]" 50] s(1)
    by (intro exI [of _ q] exI [of _ p] exI [of _ s] exI [of _ ps]) (simp add: oid_ok_def)
qed

text \<open>C24: A TLV header (type, length) with a length below 65535 is encoded in \<open>1 + length_len\<close> octets, with leading zero octets when the caller
  forces a longer length field, and \<open>snmp_asn1_dec_tlv\<close> reads back the header that the encoder left in the structure.\<close>

theorem snmp_tlv_roundtrip:
  assumes "writable szof s ps st" "0 < st_length st" "tlv_ok tlv"
  shows "transfers szof s ps st (1 + len_len tlv) (tlv_done tlv) (ERR_OK, tlv_done tlv) (ERR_BUF, tlv_done tlv) (snmp_ans1_enc_tlv tlv st s) snmp_asn1_dec_tlv"
  using emits_transfers [OF assms(1) enc_tlv_emits [OF assms] dec_tlv_accepts [OF assms(3)]] by (simp add: length_tlv_octets)

theorem snmp_tlv_roundtrip_witness:
  "\<exists>q p s ps. pbuf_alloc win32_pair (\<lambda>_ _ _. None) PBUF_RAW 300 PBUF_POOL (pbufs_start q) = Some (Some p, s) \<and>
     transfers szof_pbuf s ps \<lparr>st_pbuf = Some p, st_offset = 126, st_length = 20\<rparr> 5 \<lparr>tlv_type = 0x30, type_len = 1, length_len = 4, value_len = 300\<rparr>
       (ERR_OK, \<lparr>tlv_type = 0x30, type_len = 1, length_len = 4, value_len = 300\<rparr>) (ERR_BUF, \<lparr>tlv_type = 0x30, type_len = 1, length_len = 4, value_len = 300\<rparr>)
       (snmp_ans1_enc_tlv \<lparr>tlv_type = 0x30, type_len = 0, length_len = 4, value_len = 300\<rparr> \<lparr>st_pbuf = Some p, st_offset = 126, st_length = 20\<rparr> s) snmp_asn1_dec_tlv"
proof -
  obtain q :: "(nat \<times> nat, msg_ptr) mbox" and p s ps where s: "pbuf_alloc win32_pair (\<lambda>_ _ _. None) PBUF_RAW 300 PBUF_POOL (pbufs_start q) = Some (Some p, s)"
    "writable szof_pbuf s ps \<lparr>st_pbuf = Some p, st_offset = 126, st_length = 20\<rparr>" by (rule fresh_stream [of 126 20]) auto
  show ?thesis using snmp_tlv_roundtrip [OF s(2), of "\<lparr>tlv_type = 0x30, type_len = 0, length_len = 4, value_len = 300\<rparr>"] s(1)
    by (intro exI [of _ q] exI [of _ p] exI [of _ s] exI [of _ ps]) (simp add: tlv_ok_def len_len_def snmp_asn1_enc_length_cnt_def)
qed

text \<open>C37: \<open>snmp_pbuf_stream_writeto\<close> limits a chunk by the length of the pbuf and not by what is left of it behind the position of
  the stream.  Within one pbuf it copies the bytes of the stream; when the chunk crosses the end of the pbuf,
  it copies the memory behind the payload instead of the data of the next pbuf.\<close>

theorem snmp_writeto_overreads:
  assumes "writable szof s ts target" "packet s (st_pbuf st) (us @ q # vs)" "st_offset st = length (pdata s us) + i" "i < pb_len (pb s q)"
    "0 < len" "len \<le> st_length st" "len \<le> st_length target" "len \<le> pb_len (pb s q)" "st_offset st + len < 65536" "st_length st < 65536"
  shows "\<exists>s'. snmp_pbuf_stream_writeto (Some st) (Some target) len s = Some (ERR_OK, Some (moved len st), Some (moved len target), s') \<and>
    filled szof s ts (patch (st_offset target)
      (take len (drop i (seg s q)) @ load_bytes s (padd (pb_payload (pb s q)) (pb_len (pb s q))) (i + len - pb_len (pb s q))) (pdata s ts)) s'"
proof -
  obtain s' where "writeto_loop len st target s = Some (ERR_OK, moved len st, moved len target, s')"
    "filled szof s ts (patch (st_offset target) (load_bytes s (padd (pb_payload (pb s q)) i) len) (pdata s ts)) s'"
    using writeto_one [OF assms] by blast
  then show ?thesis using assms(5-7) writeto_bytes [OF order.strict_implies_order [OF assms(4)]]
    by (intro exI [of _ s']) (simp add: snmp_pbuf_stream_writeto_def)
qed

lemma wide_pbuf:
  assumes "pbufs_inv szof s" "buffers szof s ps" "distinct ps" "\<forall>x\<in>set ps. pb_type (pb s x) = PBUF_POOL" "160 < length (pdata s ps)"
  obtains us x vs where "ps = us @ x # vs" "2 \<le> pb_len (pb s x)"
proof -
  let ?L = "memp_live szof (tm_pools s) MEMP_PBUF_POOL"
  have inv: "memps_inv szof (tm_pools s)" using assms(1) by (simp add: pbufs_inv_def)
  then have "szof_ok szof" "pool_inv (memp_pools szof MEMP_PBUF_POOL) (tm_pools s MEMP_PBUF_POOL)" by (simp_all add: memps_inv_def)
  note L = pool_live_card [OF memp_pools_ok [OF this(1)] this(2)]
  have card: "finite ?L" "card ?L \<le> 160" using L by (simp_all add: memp_live_def memp_pools_def mempool_desc_def)
  have reg: "fst x = Pool \<and> snd x \<in> ?L" if "x \<in> set ps" for x using that assms(2,4) by (auto simp: buffers_def live_pbuf_def)
  then have "inj_on snd (set ps)" by (auto simp: inj_on_def prod_eq_iff)
  then have "card (set ps) \<le> card ?L" using reg by (intro card_inj_on_le [OF _ _ card(1)]) auto
  then have n: "length ps \<le> 160" using card(2) distinct_card [OF assms(3)] by simp
  have "\<exists>x\<in>set ps. 2 \<le> pb_len (pb s x)"
  proof (rule ccontr)
    assume "\<not> ?thesis"
    then have "length (pdata s qs) \<le> length qs" if "set qs \<subseteq> set ps" for qs using that by (induction qs) (auto simp: not_le)
    from this [of ps] show False using n assms(5) by simp
  qed
  then show ?thesis using that by (meson split_list)
qed

theorem snmp_writeto_overreads_witness:
  "\<exists>q p s ps x us vs s'. pbuf_alloc win32_pair (\<lambda>_ _ _. None) PBUF_RAW 300 PBUF_POOL (pbufs_start q) = Some (Some p, s) \<and>
     packet s (Some p) ps \<and> ps = us @ x # vs \<and> (let n = pb_len (pb s x) in
     snmp_pbuf_stream_writeto (Some \<lparr>st_pbuf = Some p, st_offset = length (pdata s us) + n - 1, st_length = 2\<rparr>)
       (Some \<lparr>st_pbuf = Some p, st_offset = 0, st_length = 2\<rparr>) 2 s =
       Some (ERR_OK, Some \<lparr>st_pbuf = Some p, st_offset = length (pdata s us) + n + 1, st_length = 0\<rparr>, Some \<lparr>st_pbuf = Some p, st_offset = 2, st_length = 0\<rparr>, s') \<and>
     take 2 (pdata s' ps) = [seg s x ! (n - 1), load s (padd (pb_payload (pb s x)) n)])"
proof -
  obtain q :: "(nat \<times> nat, msg_ptr) mbox" and p s ps where s: "pbuf_alloc win32_pair (\<lambda>_ _ _. None) PBUF_RAW 300 PBUF_POOL (pbufs_start q) = Some (Some p, s)"
    "pbufs_inv szof_pbuf s" "packet s (Some p) ps" "buffers szof_pbuf s ps" "length (pdata s ps) = 300" "\<forall>x\<in>set ps. pb_type (pb s x) = PBUF_POOL"
    by (rule fresh_packet [of 300]) auto
  have "160 < length (pdata s ps)" using s(5) by simp
  then obtain us x vs where x: "ps = us @ x # vs" "2 \<le> pb_len (pb s x)" by (rule wide_pbuf [OF s(2,4) packet_distinct [OF s(3)] s(6)])
  let ?n = "pb_len (pb s x)"
  let ?st = "\<lparr>st_pbuf = Some p, st_offset = length (pdata s us) + (?n - 1), st_length = 2\<rparr>" and ?t = "\<lparr>st_pbuf = Some p, st_offset = 0, st_length = 2\<rparr>"
  have "length (pdata s us) + ?n \<le> 300" using s(5) x(1) by simp
  moreover have "writable szof_pbuf s ps ?t" using s by (simp add: writable_def window_def)
  ultimately obtain s' where s': "snmp_pbuf_stream_writeto (Some ?st) (Some ?t) 2 s = Some (ERR_OK, Some (moved 2 ?st), Some (moved 2 ?t), s')"
    "filled szof_pbuf s ps (patch 0 (take 2 (drop (?n - 1) (seg s x)) @ load_bytes s (padd (pb_payload (pb s x)) ?n) (?n - 1 + 2 - ?n)) (pdata s ps)) s'"
    using snmp_writeto_overreads [of szof_pbuf s ps ?t ?st us x vs "?n - 1" 2] s(3) x by auto
  have "drop (?n - 1) (seg s x) = [seg s x ! (?n - 1)]" using x(2) Cons_nth_drop_Suc [of "?n - 1" "seg s x"] by simp
  moreover have "?n - 1 + 2 - ?n = 1" using x(2) by simp
  ultimately have "take 2 (pdata s' ps) = [seg s x ! (?n - 1), load s (padd (pb_payload (pb s x)) ?n)]"
    using s'(2) by (simp add: filled_def patch_def load_bytes_def padd_def)
  then show ?thesis using s(1,3) s'(1) x
    by (intro exI [of _ q] exI [of _ p] exI [of _ s] exI [of _ ps] exI [of _ x] exI [of _ us] exI [of _ vs] exI [of _ s']) (simp add: Let_def moved_def)
qed

text \<open>C21: The decoders are safe on arbitrary input, such as a frame from the network: on any window of a packet and for any
  announced length each of them returns without reading outside the window, and moves the stream forward inside it.  A decoded identifier
  fits the caller's array, a decoded octet string has the announced length and fits the buffer, and a decoded
  length is never 65535, the value reserved for the indefinite form.\<close>

theorem snmp_decoders_safe:
  "decodes (window s ps) (remaining s ps) (\<lambda>_. True) (snmp_asn1_dec_u32t s len) \<and>
   decodes (window s ps) (remaining s ps) (\<lambda>_. True) (snmp_asn1_dec_s32t s len) \<and>
   decodes (window s ps) (remaining s ps) (\<lambda>_. True) (snmp_asn1_dec_u64t s len v) \<and>
   decodes (window s ps) (remaining s ps) (\<lambda>tlv. value_len tlv < 0xFFFF) (snmp_asn1_dec_tlv s) \<and>
   decodes (window s ps) (remaining s ps) (\<lambda>oid. length oid \<le> oid_max) (snmp_asn1_dec_oid s len oid_max) \<and>
   decodes (window s ps) (remaining s ps) (\<lambda>bs. length bs = len \<and> len \<le> buf_max) (snmp_asn1_dec_raw s len buf_max)"
proof -
  have "total s ps (\<lambda>_. True) (snmp_asn1_dec_u32t s len)" "total s ps (\<lambda>_. True) (snmp_asn1_dec_s32t s len)" "total s ps (\<lambda>_. True) (snmp_asn1_dec_u64t s len v)"
    by (simp_all only: snmp_asn1_dec_u32t_def [abs_def] snmp_asn1_dec_s32t_def [abs_def] snmp_asn1_dec_u64t_def [abs_def] Let_def split_beta)
      (intro total_intros u32t_loop_total s32t_loop_total u64t_loop_total TrueI)+
  moreover have "total s ps (\<lambda>tlv. value_len tlv < 0xFFFF) (snmp_asn1_dec_tlv s)" by (rule dec_tlv_total)
  moreover have "total s ps (\<lambda>oid. length oid \<le> oid_max) (snmp_asn1_dec_oid s len oid_max)"
    unfolding snmp_asn1_dec_oid_def [abs_def] Let_def by (intro total_intros oid_loop_total) auto
  moreover have "total s ps (\<lambda>bs. length bs = len \<and> len \<le> buf_max) (snmp_asn1_dec_raw s len buf_max)"
    using raw_loop_total [of s ps len "[]"] unfolding snmp_asn1_dec_raw_def [abs_def] by (intro total_intros) simp
  ultimately show ?thesis by blast
qed

end
