(* ===== verification/Etharp.thy ===== *)
theory Etharp
  imports Pbuf_Ops Ip4_Addr
begin

text \<open>
  The ARP cache, \<open>src/lwip/src/core/ipv4/etharp.c\<close>, and sending on Ethernet, \<open>src/lwip/src/netif/ethernet.c\<close>, in the configuration with
  \<open>ARP_QUEUEING\<close> (at most \<open>ARP_QUEUE_LEN\<close> = 3 packets wait on an entry), a table of 10 entries, \<open>LWIP_DEBUG\<close>, and
  without static entries, address hints and AutoIP.  A queue node is an element of the pool \<open>MEMP_ARP_QUEUE\<close>.  The function
  \<open>netif->linkoutput\<close> of a driver is a parameter: it reads the state and changes that of the driver only, which is the extension \<open>'z\<close> of the
  record.
\<close>

unbundle bit_operations_syntax

section \<open>State\<close>

datatype etharp_state = ETHARP_STATE_EMPTY | ETHARP_STATE_PENDING | ETHARP_STATE_STABLE
  | ETHARP_STATE_STABLE_REREQUESTING_1 | ETHARP_STATE_STABLE_REREQUESTING_2

text \<open>\<open>state >= ETHARP_STATE_STABLE\<close>\<close>

definition is_stable :: "etharp_state \<Rightarrow> bool" where
  "is_stable st \<longleftrightarrow> st \<noteq> ETHARP_STATE_EMPTY \<and> st \<noteq> ETHARP_STATE_PENDING"

type_synonym eth_addr = "u8_t list"

record etharp_entry =
  arp_q :: "nat option"
  arp_ip :: ip4_addr
  arp_netif :: "nat option"
  arp_eth :: eth_addr
  arp_ctime :: nat
  arp_state :: etharp_state

record etharp_q_entry =
  qe_next :: "nat option"
  qe_p :: "ptr option"

datatype stat_counter = stat_xmit | stat_recv | stat_drop | stat_memerr | stat_proterr | stat_err | stat_cachehit | link_lenerr

record 'h arps = "'h pbufs" +
  arp_table :: "etharp_entry list"
  etharp_cached_entry :: nat
  q_entries :: "nat \<Rightarrow> etharp_q_entry"
  netifs :: "nat \<Rightarrow> netif"
  etharp_stats :: "stat_counter \<Rightarrow> nat"

type_synonym ('h, 'z) link = "nat \<Rightarrow> ptr \<Rightarrow> ('h, 'z) arps_scheme \<Rightarrow> err_t \<times> 'z"

definition ARP_TABLE_SIZE :: nat where "ARP_TABLE_SIZE = 10"
definition ARP_QUEUE_LEN :: nat where "ARP_QUEUE_LEN = 3"
definition ARP_MAXAGE :: nat where "ARP_MAXAGE = 300"
definition ARP_MAXPENDING :: nat where "ARP_MAXPENDING = 5"
definition ARP_AGE_REREQUEST_USED_UNICAST :: nat where "ARP_AGE_REREQUEST_USED_UNICAST = ARP_MAXAGE - 30"
definition ARP_AGE_REREQUEST_USED_BROADCAST :: nat where "ARP_AGE_REREQUEST_USED_BROADCAST = ARP_MAXAGE - 15"
definition ETHARP_FLAG_TRY_HARD :: u8_t where "ETHARP_FLAG_TRY_HARD = 1"
definition ETHARP_FLAG_FIND_ONLY :: u8_t where "ETHARP_FLAG_FIND_ONLY = 2"
definition ETH_HWADDR_LEN :: nat where "ETH_HWADDR_LEN = 6"
definition SIZEOF_ETH_HDR :: nat where "SIZEOF_ETH_HDR = 14"
definition SIZEOF_ETHARP_HDR :: nat where "SIZEOF_ETHARP_HDR = 28"
definition ETHTYPE_IP :: u16_t where "ETHTYPE_IP = 0x0800"
definition ETHTYPE_ARP :: u16_t where "ETHTYPE_ARP = 0x0806"
definition HWTYPE_ETHERNET :: u16_t where "HWTYPE_ETHERNET = 1"
definition ARP_REQUEST :: u16_t where "ARP_REQUEST = 1"
definition ARP_REPLY :: u16_t where "ARP_REPLY = 2"
definition ethbroadcast :: eth_addr where "ethbroadcast = [0xff, 0xff, 0xff, 0xff, 0xff, 0xff]"
definition ethzero :: eth_addr where "ethzero = [0, 0, 0, 0, 0, 0]"

definition upd_entry :: "nat \<Rightarrow> (etharp_entry \<Rightarrow> etharp_entry) \<Rightarrow> ('h, 'z) arps_scheme \<Rightarrow> ('h, 'z) arps_scheme" where
  "upd_entry i f s = s\<lparr>arp_table := (arp_table s)[i := f (arp_table s ! i)]\<rparr>"

definition STATS_INC :: "stat_counter \<Rightarrow> ('h, 'z) arps_scheme \<Rightarrow> ('h, 'z) arps_scheme" where
  "STATS_INC k s = s\<lparr>etharp_stats := (etharp_stats s)(k := u16 (etharp_stats s k + 1))\<rparr>"

text \<open>Fields of a header in memory on a little-endian host.\<close>

definition load16 :: "('h, 'z) pbufs_scheme \<Rightarrow> ptr \<Rightarrow> u16_t" where
  "load16 s p = ucast (load s p) OR push_bit 8 (ucast (load s (padd p 1)))"

definition load32 :: "('h, 'z) pbufs_scheme \<Rightarrow> ptr \<Rightarrow> u32_t" where
  "load32 s p = ucast (load s p) OR push_bit 8 (ucast (load s (padd p 1))) OR
     push_bit 16 (ucast (load s (padd p 2))) OR push_bit 24 (ucast (load s (padd p 3)))"

section \<open>Sending\<close>

definition ethernet_output :: "('h, 'z) link \<Rightarrow> nat \<Rightarrow> ptr \<Rightarrow> eth_addr \<Rightarrow> eth_addr \<Rightarrow> u16_t \<Rightarrow> ('h, 'z) arps_scheme \<Rightarrow> (err_t \<times> ('h, 'z) arps_scheme) option" where
  "ethernet_output lo n p src dst eth_type s = do {
     let eth_type_be = lwip_htons eth_type;
     (failed, s) \<leftarrow> pbuf_header (Some p) (int SIZEOF_ETH_HDR) s;
     if failed then Some (ERR_BUF, STATS_INC link_lenerr s)
     else do {
       let ethhdr = pb_payload (pb s p);
       let s = store (padd ethhdr 12) (bytes16 eth_type_be) s;
       let s = store ethhdr dst s;
       let s = store (padd ethhdr 6) src s;
       lwip_assert (length (netif_hwaddr (netifs s n)) = ETH_HWADDR_LEN);
       let (e, z) = lo n p s;
       Some (e, arps.more_update (\<lambda>_. z) s) } }"

definition etharp_raw :: "'h win32 \<Rightarrow> ('h, 'z arps_ext) custom_fn \<Rightarrow> ('h, 'z) link \<Rightarrow> nat \<Rightarrow> eth_addr \<Rightarrow> eth_addr \<Rightarrow> eth_addr \<Rightarrow> ip4_addr \<Rightarrow>
    eth_addr \<Rightarrow> ip4_addr \<Rightarrow> u16_t \<Rightarrow> ('h, 'z) arps_scheme \<Rightarrow> (err_t \<times> ('h, 'z) arps_scheme) option" where
  "etharp_raw api cf lo n ethsrc_addr ethdst_addr hwsrc_addr ipsrc_addr hwdst_addr ipdst_addr opcode s = do {
     (p, s) \<leftarrow> pbuf_alloc api cf PBUF_LINK SIZEOF_ETHARP_HDR PBUF_RAM s;
     case p of
       None \<Rightarrow> Some (ERR_MEM, STATS_INC stat_memerr s)
     | Some p \<Rightarrow> do {
         lwip_assert (pb_len (pb s p) \<ge> SIZEOF_ETHARP_HDR);
         let hdr = pb_payload (pb s p);
         let s = store (padd hdr 6) (bytes16 (lwip_htons opcode)) s;
         lwip_assert (length (netif_hwaddr (netifs s n)) = ETH_HWADDR_LEN);
         let s = store (padd hdr 8) hwsrc_addr s;
         let s = store (padd hdr 18) hwdst_addr s;
         let s = store (padd hdr 14) (bytes32 ipsrc_addr) s;
         let s = store (padd hdr 24) (bytes32 ipdst_addr) s;
         let s = store hdr (bytes16 (lwip_htons HWTYPE_ETHERNET)) s;
         let s = store (padd hdr 2) (bytes16 (lwip_htons ETHTYPE_IP)) s;
         let s = store (padd hdr 4) [of_nat ETH_HWADDR_LEN] s;
         let s = store (padd hdr 5) [4] s;
         (_, s) \<leftarrow> ethernet_output lo n p ethsrc_addr ethdst_addr ETHTYPE_ARP s;
         let s = STATS_INC stat_xmit s;
         (_, s) \<leftarrow> pbuf_free cf (Some p) s;
         Some (ERR_OK, s) } }"

definition etharp_request_dst :: "'h win32 \<Rightarrow> ('h, 'z arps_ext) custom_fn \<Rightarrow> ('h, 'z) link \<Rightarrow> nat \<Rightarrow> ip4_addr \<Rightarrow> eth_addr \<Rightarrow>
    ('h, 'z) arps_scheme \<Rightarrow> (err_t \<times> ('h, 'z) arps_scheme) option" where
  "etharp_request_dst api cf lo n ipaddr hw_dst_addr s =
     etharp_raw api cf lo n (netif_hwaddr (netifs s n)) hw_dst_addr (netif_hwaddr (netifs s n)) (netif_ip (netifs s n)) ethzero ipaddr ARP_REQUEST s"

definition etharp_request :: "'h win32 \<Rightarrow> ('h, 'z arps_ext) custom_fn \<Rightarrow> ('h, 'z) link \<Rightarrow> nat \<Rightarrow> ip4_addr \<Rightarrow>
    ('h, 'z) arps_scheme \<Rightarrow> (err_t \<times> ('h, 'z) arps_scheme) option" where
  "etharp_request api cf lo n ipaddr s = etharp_request_dst api cf lo n ipaddr ethbroadcast s"

section \<open>Entries\<close>

partial_function (option) free_q_loop :: "('h, 'z arps_ext) custom_fn \<Rightarrow> nat option \<Rightarrow> ('h, 'z) arps_scheme \<Rightarrow> ('h, 'z) arps_scheme option" where
  "free_q_loop cf q s =
     (case q of
        None \<Rightarrow> Some s
      | Some r \<Rightarrow> do {
          let q = qe_next (q_entries s r);
          lwip_assert (qe_p (q_entries s r) \<noteq> None);
          (_, s) \<leftarrow> pbuf_free cf (qe_p (q_entries s r)) s;
          ps \<leftarrow> memp_free MEMP_ARP_QUEUE (Some r) (tm_pools s);
          free_q_loop cf q (s\<lparr>tm_pools := ps\<rparr>) })"

definition free_etharp_q :: "('h, 'z arps_ext) custom_fn \<Rightarrow> nat option \<Rightarrow> ('h, 'z) arps_scheme \<Rightarrow> ('h, 'z) arps_scheme option" where
  "free_etharp_q cf q s =
     (case q of
        None \<Rightarrow> None
      | Some r \<Rightarrow> do {
          lwip_assert (qe_p (q_entries s r) \<noteq> None);
          free_q_loop cf q s })"

definition etharp_free_entry :: "('h, 'z arps_ext) custom_fn \<Rightarrow> nat \<Rightarrow> ('h, 'z) arps_scheme \<Rightarrow> ('h, 'z) arps_scheme option" where
  "etharp_free_entry cf i s = do {
     s \<leftarrow> (if arp_q (arp_table s ! i) \<noteq> None then do {
             s \<leftarrow> free_etharp_q cf (arp_q (arp_table s ! i)) s;
             Some (upd_entry i (\<lambda>e. e\<lparr>arp_q := None\<rparr>) s) }
           else Some s);
     Some (upd_entry i (\<lambda>e. e\<lparr>arp_state := ETHARP_STATE_EMPTY, arp_ctime := 0, arp_netif := None, arp_ip := 0, arp_eth := ethzero\<rparr>) s) }"

text \<open>The body of the loop of \<open>etharp_tmr\<close>.\<close>

definition tmr_entry :: "'h win32 \<Rightarrow> ('h, 'z arps_ext) custom_fn \<Rightarrow> ('h, 'z) link \<Rightarrow> nat \<Rightarrow> ('h, 'z) arps_scheme \<Rightarrow> ('h, 'z) arps_scheme option" where
  "tmr_entry api cf lo i s =
     (if arp_state (arp_table s ! i) \<noteq> ETHARP_STATE_EMPTY then
        let s = upd_entry i (\<lambda>e. e\<lparr>arp_ctime := u16 (arp_ctime e + 1)\<rparr>) s;
            e = arp_table s ! i
        in if arp_ctime e \<ge> ARP_MAXAGE \<or> arp_state e = ETHARP_STATE_PENDING \<and> arp_ctime e \<ge> ARP_MAXPENDING then etharp_free_entry cf i s
           else if arp_state e = ETHARP_STATE_STABLE_REREQUESTING_1 then
             Some (upd_entry i (\<lambda>e. e\<lparr>arp_state := ETHARP_STATE_STABLE_REREQUESTING_2\<rparr>) s)
           else if arp_state e = ETHARP_STATE_STABLE_REREQUESTING_2 then
             Some (upd_entry i (\<lambda>e. e\<lparr>arp_state := ETHARP_STATE_STABLE\<rparr>) s)
           else if arp_state e = ETHARP_STATE_PENDING then do {
             n \<leftarrow> arp_netif e;
             (_, s) \<leftarrow> etharp_request api cf lo n (arp_ip e) s;
             Some s }
           else Some s
      else Some s)"

function tmr_loop :: "'h win32 \<Rightarrow> ('h, 'z arps_ext) custom_fn \<Rightarrow> ('h, 'z) link \<Rightarrow> nat \<Rightarrow> ('h, 'z) arps_scheme \<Rightarrow> ('h, 'z) arps_scheme option" where
  "tmr_loop api cf lo i s =
     (if i < ARP_TABLE_SIZE then do { s \<leftarrow> tmr_entry api cf lo i s; tmr_loop api cf lo (i + 1) s } else Some s)"
  by pat_completeness auto

termination
  by (relation "measure (\<lambda>(api, cf, lo, i, s). ARP_TABLE_SIZE - i)") auto

declare tmr_loop.simps [simp del]

definition etharp_tmr :: "'h win32 \<Rightarrow> ('h, 'z arps_ext) custom_fn \<Rightarrow> ('h, 'z) link \<Rightarrow> ('h, 'z) arps_scheme \<Rightarrow> ('h, 'z) arps_scheme option" where
  "etharp_tmr api cf lo s = tmr_loop api cf lo 0 s"

section \<open>Looking up\<close>

text \<open>The candidates that the search remembers, \<open>ARP_TABLE_SIZE\<close> for none.\<close>

record candidates =
  empty :: nat
  old_stable :: nat
  age_stable :: nat
  old_pending :: nat
  age_pending :: nat
  old_queue :: nat
  age_queue :: nat

definition no_candidates :: candidates where
  "no_candidates = \<lparr>empty = ARP_TABLE_SIZE, old_stable = ARP_TABLE_SIZE, age_stable = 0, old_pending = ARP_TABLE_SIZE, age_pending = 0,
     old_queue = ARP_TABLE_SIZE, age_queue = 0\<rparr>"

definition remember :: "nat \<Rightarrow> etharp_entry \<Rightarrow> candidates \<Rightarrow> candidates" where
  "remember i e c =
     (if arp_state e = ETHARP_STATE_PENDING then
        if arp_q e \<noteq> None then
          if arp_ctime e \<ge> age_queue c then c\<lparr>old_queue := i, age_queue := arp_ctime e\<rparr> else c
        else
          if arp_ctime e \<ge> age_pending c then c\<lparr>old_pending := i, age_pending := arp_ctime e\<rparr> else c
      else if is_stable (arp_state e) then
        if arp_ctime e \<ge> age_stable c then c\<lparr>old_stable := i, age_stable := arp_ctime e\<rparr> else c
      else c)"

text \<open>The search of \<open>etharp_find_entry\<close> from entry \<open>i\<close> on: \<open>Inl\<close> is a match.\<close>

fun find_loop :: "ip4_addr option \<Rightarrow> nat \<Rightarrow> etharp_entry list \<Rightarrow> candidates \<Rightarrow> nat + candidates" where
  "find_loop ipaddr i [] c = Inr c"
| "find_loop ipaddr i (e # es) c =
     (if empty c = ARP_TABLE_SIZE \<and> arp_state e = ETHARP_STATE_EMPTY then find_loop ipaddr (i + 1) es (c\<lparr>empty := i\<rparr>)
      else if arp_state e \<noteq> ETHARP_STATE_EMPTY then
        if ipaddr = Some (arp_ip e) then Inl i
        else find_loop ipaddr (i + 1) es (remember i e c)
      else find_loop ipaddr (i + 1) es c)"

text \<open>The result is \<open>Inl ERR_MEM\<close> or the index of the entry.\<close>

definition etharp_find_entry :: "('h, 'z arps_ext) custom_fn \<Rightarrow> ip4_addr option \<Rightarrow> u8_t \<Rightarrow> ('h, 'z) arps_scheme \<Rightarrow> ((err_t + nat) \<times> ('h, 'z) arps_scheme) option" where
  "etharp_find_entry cf ipaddr flags s =
     (case find_loop ipaddr 0 (arp_table s) no_candidates of
        Inl i \<Rightarrow> Some (Inr i, s)
      | Inr c \<Rightarrow>
          if flags AND ETHARP_FLAG_FIND_ONLY \<noteq> 0 \<or> empty c = ARP_TABLE_SIZE \<and> flags AND ETHARP_FLAG_TRY_HARD = 0 then Some (Inl ERR_MEM, s)
          else do {
            r \<leftarrow> (if empty c < ARP_TABLE_SIZE then Some (Some (empty c, s))
                  else if old_stable c < ARP_TABLE_SIZE then do {
                    lwip_assert (arp_q (arp_table s ! old_stable c) = None);
                    s \<leftarrow> etharp_free_entry cf (old_stable c) s;
                    Some (Some (old_stable c, s)) }
                  else if old_pending c < ARP_TABLE_SIZE then do { s \<leftarrow> etharp_free_entry cf (old_pending c) s; Some (Some (old_pending c, s)) }
                  else if old_queue c < ARP_TABLE_SIZE then do { s \<leftarrow> etharp_free_entry cf (old_queue c) s; Some (Some (old_queue c, s)) }
                  else Some None);
            case r of
              None \<Rightarrow> Some (Inl ERR_MEM, s)
            | Some (i, s) \<Rightarrow> do {
                lwip_assert (i < ARP_TABLE_SIZE);
                lwip_assert (arp_state (arp_table s ! i) = ETHARP_STATE_EMPTY);
                let s = (case ipaddr of Some a \<Rightarrow> upd_entry i (\<lambda>e. e\<lparr>arp_ip := a\<rparr>) s | None \<Rightarrow> s);
                Some (Inr i, upd_entry i (\<lambda>e. e\<lparr>arp_ctime := 0\<rparr>) s) } })"

definition etharp_find_addr :: "('h, 'z arps_ext) custom_fn \<Rightarrow> ip4_addr \<Rightarrow> ('h, 'z) arps_scheme \<Rightarrow> ((nat \<times> eth_addr \<times> ip4_addr) option \<times> ('h, 'z) arps_scheme) option" where
  "etharp_find_addr cf ipaddr s = do {
     (r, s) \<leftarrow> etharp_find_entry cf (Some ipaddr) ETHARP_FLAG_FIND_ONLY s;
     case r of
       Inr i \<Rightarrow> if is_stable (arp_state (arp_table s ! i)) then Some (Some (i, arp_eth (arp_table s ! i), arp_ip (arp_table s ! i)), s) else Some (None, s)
     | Inl _ \<Rightarrow> Some (None, s) }"

definition etharp_get_entry :: "nat \<Rightarrow> ('h, 'z) arps_scheme \<Rightarrow> (ip4_addr \<times> nat option \<times> eth_addr) option" where
  "etharp_get_entry i s =
     (if i < ARP_TABLE_SIZE \<and> is_stable (arp_state (arp_table s ! i))
      then Some (arp_ip (arp_table s ! i), arp_netif (arp_table s ! i), arp_eth (arp_table s ! i)) else None)"

function cleanup_loop :: "('h, 'z arps_ext) custom_fn \<Rightarrow> nat \<Rightarrow> nat \<Rightarrow> ('h, 'z) arps_scheme \<Rightarrow> ('h, 'z) arps_scheme option" where
  "cleanup_loop cf n i s =
     (if i < ARP_TABLE_SIZE then do {
        s \<leftarrow> (if arp_state (arp_table s ! i) \<noteq> ETHARP_STATE_EMPTY \<and> arp_netif (arp_table s ! i) = Some n then etharp_free_entry cf i s else Some s);
        cleanup_loop cf n (i + 1) s }
      else Some s)"
  by pat_completeness auto

termination
  by (relation "measure (\<lambda>(cf, n, i, s). ARP_TABLE_SIZE - i)") auto

declare cleanup_loop.simps [simp del]

definition etharp_cleanup_netif :: "('h, 'z arps_ext) custom_fn \<Rightarrow> nat \<Rightarrow> ('h, 'z) arps_scheme \<Rightarrow> ('h, 'z) arps_scheme option" where
  "etharp_cleanup_netif cf n s = cleanup_loop cf n 0 s"

section \<open>Resolving\<close>

partial_function (option) send_queued :: "('h, 'z arps_ext) custom_fn \<Rightarrow> ('h, 'z) link \<Rightarrow> nat \<Rightarrow> nat \<Rightarrow> eth_addr \<Rightarrow> ('h, 'z) arps_scheme \<Rightarrow> ('h, 'z) arps_scheme option" where
  "send_queued cf lo i n ethaddr s =
     (case arp_q (arp_table s ! i) of
        None \<Rightarrow> Some s
      | Some q \<Rightarrow> do {
          let s = upd_entry i (\<lambda>e. e\<lparr>arp_q := qe_next (q_entries s q)\<rparr>) s;
          p \<leftarrow> qe_p (q_entries s q);
          ps \<leftarrow> memp_free MEMP_ARP_QUEUE (Some q) (tm_pools s);
          let s = s\<lparr>tm_pools := ps\<rparr>;
          (_, s) \<leftarrow> ethernet_output lo n p (netif_hwaddr (netifs s n)) ethaddr ETHTYPE_IP s;
          (_, s) \<leftarrow> pbuf_free cf (Some p) s;
          send_queued cf lo i n ethaddr s })"

definition etharp_update_arp_entry :: "('h, 'z arps_ext) custom_fn \<Rightarrow> ('h, 'z) link \<Rightarrow> nat \<Rightarrow> ip4_addr \<Rightarrow> eth_addr \<Rightarrow> u8_t \<Rightarrow>
    ('h, 'z) arps_scheme \<Rightarrow> (err_t \<times> ('h, 'z) arps_scheme) option" where
  "etharp_update_arp_entry cf lo n ipaddr ethaddr flags s = do {
     lwip_assert (length (netif_hwaddr (netifs s n)) = ETH_HWADDR_LEN);
     if ip4_addr_isany ipaddr \<or> ip4_addr_isbroadcast_u32 ipaddr (netifs s n) \<or> ip4_addr_ismulticast ipaddr then Some (ERR_ARG, s)
     else do {
       (r, s) \<leftarrow> etharp_find_entry cf (Some ipaddr) flags s;
       case r of
         Inl e \<Rightarrow> Some (e, s)
       | Inr i \<Rightarrow> do {
           let s = upd_entry i (\<lambda>e. e\<lparr>arp_state := ETHARP_STATE_STABLE\<rparr>) s;
           let s = upd_entry i (\<lambda>e. e\<lparr>arp_netif := Some n\<rparr>) s;
           let s = upd_entry i (\<lambda>e. e\<lparr>arp_eth := ethaddr\<rparr>) s;
           let s = upd_entry i (\<lambda>e. e\<lparr>arp_ctime := 0\<rparr>) s;
           s \<leftarrow> send_queued cf lo i n ethaddr s;
           Some (ERR_OK, s) } } }"

text \<open>The header is read where the payload is, whatever the length of the pbuf.\<close>

definition etharp_input :: "('h, 'z arps_ext) custom_fn \<Rightarrow> ('h, 'z) link \<Rightarrow> ptr \<Rightarrow> nat option \<Rightarrow> ('h, 'z) arps_scheme \<Rightarrow> ('h, 'z) arps_scheme option" where
  "etharp_input cf lo p netif s =
     (case netif of
        None \<Rightarrow> Some s
      | Some n \<Rightarrow>
          let hdr = pb_payload (pb s p) in
          if load16 s hdr \<noteq> lwip_htons HWTYPE_ETHERNET \<or> load s (padd hdr 4) \<noteq> of_nat ETH_HWADDR_LEN \<or>
             load s (padd hdr 5) \<noteq> 4 \<or> load16 s (padd hdr 2) \<noteq> lwip_htons ETHTYPE_IP then do {
            let s = STATS_INC stat_drop (STATS_INC stat_proterr s);
            (_, s) \<leftarrow> pbuf_free cf (Some p) s;
            Some s }
          else do {
            let s = STATS_INC stat_recv s;
            let sipaddr = load32 s (padd hdr 14); let dipaddr = load32 s (padd hdr 24);
            let for_us = (if ip4_addr_isany (netif_ip (netifs s n)) then False else dipaddr = netif_ip (netifs s n));
            (_, s) \<leftarrow> etharp_update_arp_entry cf lo n sipaddr (load_bytes s (padd hdr 8) ETH_HWADDR_LEN)
              (if for_us then ETHARP_FLAG_TRY_HARD else ETHARP_FLAG_FIND_ONLY) s;
            s \<leftarrow> (if load16 s (padd hdr 6) = lwip_htons ARP_REQUEST then
                    if for_us then do {
                      let s = store (padd hdr 6) (bytes16 (lwip_htons ARP_REPLY)) s;
                      let s = store (padd hdr 24) (load_bytes s (padd hdr 14) 4) s;
                      let s = store (padd hdr 14) (bytes32 (netif_ip (netifs s n))) s;
                      lwip_assert (length (netif_hwaddr (netifs s n)) = ETH_HWADDR_LEN);
                      let s = store (padd hdr 18) (load_bytes s (padd hdr 8) ETH_HWADDR_LEN) s;
                      let s = store (padd hdr 8) (netif_hwaddr (netifs s n)) s;
                      (_, s) \<leftarrow> ethernet_output lo n p (load_bytes s (padd hdr 8) ETH_HWADDR_LEN) (load_bytes s (padd hdr 18) ETH_HWADDR_LEN) ETHTYPE_ARP s;
                      Some s }
                    else Some s
                  else if load16 s (padd hdr 6) = lwip_htons ARP_REPLY then Some s
                  else Some (STATS_INC stat_err s));
            (_, s) \<leftarrow> pbuf_free cf (Some p) s;
            Some s })"

section \<open>Output\<close>

definition etharp_output_to_arp_index :: "'h win32 \<Rightarrow> ('h, 'z arps_ext) custom_fn \<Rightarrow> ('h, 'z) link \<Rightarrow> nat \<Rightarrow> ptr \<Rightarrow> nat \<Rightarrow>
    ('h, 'z) arps_scheme \<Rightarrow> (err_t \<times> ('h, 'z) arps_scheme) option" where
  "etharp_output_to_arp_index api cf lo n q arp_idx s = do {
     let e = arp_table s ! arp_idx;
     lwip_assert (is_stable (arp_state e));
     s \<leftarrow> (if arp_state e = ETHARP_STATE_STABLE then
             if arp_ctime e \<ge> ARP_AGE_REREQUEST_USED_BROADCAST then do {
               (r, s) \<leftarrow> etharp_request api cf lo n (arp_ip e) s;
               Some (if r = ERR_OK then upd_entry arp_idx (\<lambda>e. e\<lparr>arp_state := ETHARP_STATE_STABLE_REREQUESTING_1\<rparr>) s else s) }
             else if arp_ctime e \<ge> ARP_AGE_REREQUEST_USED_UNICAST then do {
               (r, s) \<leftarrow> etharp_request_dst api cf lo n (arp_ip e) (arp_eth e) s;
               Some (if r = ERR_OK then upd_entry arp_idx (\<lambda>e. e\<lparr>arp_state := ETHARP_STATE_STABLE_REREQUESTING_1\<rparr>) s else s) }
             else Some s
           else Some s);
     ethernet_output lo n q (netif_hwaddr (netifs s n)) (arp_eth (arp_table s ! arp_idx)) ETHTYPE_IP s }"

text \<open>Does the packet have to be copied before it is queued?  The result is the pbuf at which the search stops, None when all are \<open>PBUF_ROM\<close>.\<close>

partial_function (option) copy_needed_at :: "('h, 'z) pbufs_scheme \<Rightarrow> ptr option \<Rightarrow> ptr option option" where
  "copy_needed_at s p =
     (case p of
        None \<Rightarrow> Some None
      | Some p \<Rightarrow> do {
          lwip_assert (pb_len (pb s p) \<noteq> pb_tot_len (pb s p) \<or> pb_next (pb s p) = None);
          if pb_type (pb s p) \<noteq> PBUF_ROM then Some (Some p) else copy_needed_at s (pb_next (pb s p)) })"

definition take_over :: "'h win32 \<Rightarrow> ('h, 'z) custom_fn \<Rightarrow> ptr \<Rightarrow> ('h, 'z) pbufs_scheme \<Rightarrow> (ptr option \<times> ('h, 'z) pbufs_scheme) option" where
  "take_over api cf q s = do {
     c \<leftarrow> copy_needed_at s (Some q);
     case c of
       Some p \<Rightarrow> do {
         (p, s) \<leftarrow> pbuf_alloc api cf PBUF_LINK (pb_tot_len (pb s p)) PBUF_RAM s;
         case p of
           None \<Rightarrow> Some (None, s)
         | Some p \<Rightarrow> do {
             (e, s) \<leftarrow> pbuf_copy (Some p) (Some q) s;
             if e \<noteq> ERR_OK then do { (_, s) \<leftarrow> pbuf_free cf (Some p) s; Some (None, s) } else Some (Some p, s) } }
     | None \<Rightarrow> Some (Some q, pbuf_ref (Some q) s) }"

text \<open>The last node of a queue and the number of nodes.\<close>

partial_function (option) q_last :: "('h, 'z) arps_scheme \<Rightarrow> nat \<Rightarrow> nat \<Rightarrow> (nat \<times> nat) option" where
  "q_last s r qlen = (case qe_next (q_entries s r) of None \<Rightarrow> Some (r, qlen) | Some r' \<Rightarrow> q_last s r' (qlen + 1))"

definition upd_q :: "nat \<Rightarrow> (etharp_q_entry \<Rightarrow> etharp_q_entry) \<Rightarrow> ('h, 'z) arps_scheme \<Rightarrow> ('h, 'z) arps_scheme" where
  "upd_q a f s = s\<lparr>q_entries := (q_entries s)(a := f (q_entries s a))\<rparr>"

definition enqueue :: "('h, 'z arps_ext) custom_fn \<Rightarrow> nat \<Rightarrow> ptr \<Rightarrow> ('h, 'z) arps_scheme \<Rightarrow> (err_t \<times> ('h, 'z) arps_scheme) option" where
  "enqueue cf i p s = do {
     (new_entry, ps) \<leftarrow> memp_malloc MEMP_ARP_QUEUE (tm_pools s);
     let s = s\<lparr>tm_pools := ps\<rparr>;
     case new_entry of
       Some a \<Rightarrow> do {
         let s = upd_q a (\<lambda>e. e\<lparr>qe_next := None, qe_p := Some p\<rparr>) s;
         (qlen, s) \<leftarrow> (case arp_q (arp_table s ! i) of
            Some r \<Rightarrow> do {
              (r, qlen) \<leftarrow> q_last s r 1;
              Some (qlen, upd_q r (\<lambda>e. e\<lparr>qe_next := Some a\<rparr>) s) }
          | None \<Rightarrow> Some (0, upd_entry i (\<lambda>e. e\<lparr>arp_q := Some a\<rparr>) s));
         s \<leftarrow> (if qlen \<ge> ARP_QUEUE_LEN then do {
                 old \<leftarrow> arp_q (arp_table s ! i);
                 let s = upd_entry i (\<lambda>e. e\<lparr>arp_q := qe_next (q_entries s old)\<rparr>) s;
                 (_, s) \<leftarrow> pbuf_free cf (qe_p (q_entries s old)) s;
                 ps \<leftarrow> memp_free MEMP_ARP_QUEUE (Some old) (tm_pools s);
                 Some (s\<lparr>tm_pools := ps\<rparr>) }
               else Some s);
         Some (ERR_OK, s) }
     | None \<Rightarrow> do {
         (_, s) \<leftarrow> pbuf_free cf (Some p) s;
         Some (ERR_MEM, s) } }"

definition etharp_query :: "'h win32 \<Rightarrow> ('h, 'z arps_ext) custom_fn \<Rightarrow> ('h, 'z) link \<Rightarrow> nat \<Rightarrow> ip4_addr \<Rightarrow> ptr option \<Rightarrow>
    ('h, 'z) arps_scheme \<Rightarrow> (err_t \<times> ('h, 'z) arps_scheme) option" where
  "etharp_query api cf lo n ipaddr q s =
     (if ip4_addr_isbroadcast_u32 ipaddr (netifs s n) \<or> ip4_addr_ismulticast ipaddr \<or> ip4_addr_isany ipaddr then Some (ERR_ARG, s)
      else do {
        (r, s) \<leftarrow> etharp_find_entry cf (Some ipaddr) ETHARP_FLAG_TRY_HARD s;
        case r of
          Inl e \<Rightarrow> Some (e, if q \<noteq> None then STATS_INC stat_memerr s else s)
        | Inr i \<Rightarrow> do {
            let is_new_entry = (arp_state (arp_table s ! i) = ETHARP_STATE_EMPTY);
            let s = (if is_new_entry then upd_entry i (\<lambda>e. e\<lparr>arp_state := ETHARP_STATE_PENDING, arp_netif := Some n\<rparr>) s else s);
            (result, s) \<leftarrow> (if is_new_entry \<or> q = None then etharp_request api cf lo n ipaddr s else Some (ERR_MEM, s));
            case q of
              None \<Rightarrow> Some (result, s)
            | Some q \<Rightarrow>
                if is_stable (arp_state (arp_table s ! i)) then
                  ethernet_output lo n q (netif_hwaddr (netifs s n)) (arp_eth (arp_table s ! i)) ETHTYPE_IP (s\<lparr>etharp_cached_entry := i\<rparr>)
                else if arp_state (arp_table s ! i) = ETHARP_STATE_PENDING then do {
                  (p, s) \<leftarrow> take_over api cf q s;
                  case p of
                    Some p \<Rightarrow> enqueue cf i p s
                  | None \<Rightarrow> Some (ERR_MEM, STATS_INC stat_memerr s) }
                else Some (result, s) } })"

text \<open>The first stable entry for an address, in the loop of \<open>etharp_output\<close>.\<close>

fun stable_loop :: "ip4_addr \<Rightarrow> nat \<Rightarrow> etharp_entry list \<Rightarrow> nat option" where
  "stable_loop dst i [] = None"
| "stable_loop dst i (e # es) = (if is_stable (arp_state e) \<and> dst = arp_ip e then Some i else stable_loop dst (i + 1) es)"

definition etharp_output :: "'h win32 \<Rightarrow> ('h, 'z arps_ext) custom_fn \<Rightarrow> ('h, 'z) link \<Rightarrow> nat \<Rightarrow> ptr \<Rightarrow> ip4_addr \<Rightarrow>
    ('h, 'z) arps_scheme \<Rightarrow> (err_t \<times> ('h, 'z) arps_scheme) option" where
  "etharp_output api cf lo n q ipaddr s =
     (let nif = netifs s n;
          send = (\<lambda>dest. ethernet_output lo n q (netif_hwaddr nif) dest ETHTYPE_IP s) in
      if ip4_addr_isbroadcast_u32 ipaddr nif then send ethbroadcast
      else if ip4_addr_ismulticast ipaddr then
        send [0x01, 0x00, 0x5e, ucast (drop_bit 8 ipaddr) AND 0x7f, ucast (drop_bit 16 ipaddr), ucast (drop_bit 24 ipaddr)]
      else if \<not> ip4_addr_netcmp ipaddr (netif_ip nif) (netif_netmask nif) \<and> \<not> ip4_addr_islinklocal ipaddr \<and> ip4_addr_isany (netif_gw nif) then
        Some (ERR_RTE, s)
      else
        let dst_addr = (if \<not> ip4_addr_netcmp ipaddr (netif_ip nif) (netif_netmask nif) \<and> \<not> ip4_addr_islinklocal ipaddr then netif_gw nif else ipaddr);
            e = arp_table s ! etharp_cached_entry s in
        if is_stable (arp_state e) \<and> dst_addr = arp_ip e then
          etharp_output_to_arp_index api cf lo n q (etharp_cached_entry s) (STATS_INC stat_cachehit s)
        else
          (case stable_loop dst_addr 0 (arp_table s) of
             Some i \<Rightarrow> etharp_output_to_arp_index api cf lo n q i (s\<lparr>etharp_cached_entry := i\<rparr>)
           | None \<Rightarrow> etharp_query api cf lo n dst_addr (Some q) s))"

end
