(* ===== verification/Etharp_Find.thy ===== *)
theory Etharp_Find
  imports Etharp
begin

text \<open>
  The search of \<open>etharp_find_entry\<close> through the table: it stops at a match, or finds the entry that is the least loss, which
  \<open>victim\<close> specifies.
\<close>

definition matches :: "ip4_addr option \<Rightarrow> etharp_entry \<Rightarrow> bool" where
  "matches ip e \<longleftrightarrow> arp_state e \<noteq> ETHARP_STATE_EMPTY \<and> ip = Some (arp_ip e)"

text \<open>How much is lost when an entry is given up, and the entry to give up: of the lowest rank, and of those the oldest.\<close>

definition entry_rank :: "etharp_entry \<Rightarrow> nat" where
  "entry_rank e = (if arp_state e = ETHARP_STATE_EMPTY then 0 else if is_stable (arp_state e) then 1 else if arp_q e = None then 2 else 3)"

definition victim :: "etharp_entry list \<Rightarrow> nat \<Rightarrow> bool" where
  "victim T k \<longleftrightarrow> k < length T \<and> (\<forall>e\<in>set T. entry_rank (T ! k) \<le> entry_rank e) \<and>
     (if entry_rank (T ! k) = 0 then \<forall>e\<in>set (take k T). entry_rank e \<noteq> 0
      else \<forall>e\<in>set T. entry_rank e = entry_rank (T ! k) \<longrightarrow> arp_ctime e \<le> arp_ctime (T ! k))"

definition oldest :: "nat \<Rightarrow> etharp_entry list \<Rightarrow> nat \<Rightarrow> nat \<Rightarrow> bool" where
  "oldest r T k a \<longleftrightarrow>
     (if r \<in> entry_rank ` set T
      then k < length T \<and> entry_rank (T ! k) = r \<and> a = arp_ctime (T ! k) \<and> (\<forall>e\<in>set T. entry_rank e = r \<longrightarrow> arp_ctime e \<le> a)
      else k = ARP_TABLE_SIZE \<and> a = 0)"

definition first_empty :: "etharp_entry list \<Rightarrow> nat \<Rightarrow> bool" where
  "first_empty T k \<longleftrightarrow>
     (if 0 \<in> entry_rank ` set T then k < length T \<and> entry_rank (T ! k) = 0 \<and> 0 \<notin> entry_rank ` set (take k T) else k = ARP_TABLE_SIZE)"

definition searched :: "etharp_entry list \<Rightarrow> candidates \<Rightarrow> bool" where
  "searched T c \<longleftrightarrow> first_empty T (empty c) \<and> oldest 1 T (old_stable c) (age_stable c) \<and> oldest 2 T (old_pending c) (age_pending c) \<and>
     oldest 3 T (old_queue c) (age_queue c)"

lemma rank_iff:
  "entry_rank e = 0 \<longleftrightarrow> arp_state e = ETHARP_STATE_EMPTY" "entry_rank e = 1 \<longleftrightarrow> is_stable (arp_state e)"
  "entry_rank e = 2 \<longleftrightarrow> arp_state e = ETHARP_STATE_PENDING \<and> arp_q e = None" "entry_rank e = 3 \<longleftrightarrow> arp_state e = ETHARP_STATE_PENDING \<and> arp_q e \<noteq> None"
  by (auto simp: entry_rank_def is_stable_def)

lemma oldest_snoc:
  assumes "oldest r T k a"
  shows "entry_rank e \<noteq> r \<Longrightarrow> oldest r (T @ [e]) k a"
    "entry_rank e = r \<Longrightarrow> a \<le> arp_ctime e \<Longrightarrow> oldest r (T @ [e]) (length T) (arp_ctime e)"
    "entry_rank e = r \<Longrightarrow> arp_ctime e < a \<Longrightarrow> oldest r (T @ [e]) k a"
proof -
  show "oldest r (T @ [e]) k a" if "entry_rank e \<noteq> r"
  proof (cases "r \<in> entry_rank ` set T")
    case True
    then show ?thesis using assms that by (auto simp: oldest_def nth_append)
  next
    case False
    moreover from False have "r \<notin> entry_rank ` set (T @ [e])" using that by auto
    ultimately show ?thesis using assms unfolding oldest_def by simp
  qed
  show "oldest r (T @ [e]) (length T) (arp_ctime e)" if "entry_rank e = r" "a \<le> arp_ctime e"
  proof (cases "r \<in> entry_rank ` set T")
    case True
    then have "\<forall>x\<in>set T. entry_rank x = r \<longrightarrow> arp_ctime x \<le> a" using assms by (auto simp: oldest_def)
    then show ?thesis using that by (auto simp: oldest_def)
  next
    case False
    then have "\<forall>x\<in>set T. entry_rank x \<noteq> r" by auto
    then show ?thesis using that by (auto simp: oldest_def)
  qed
  show "oldest r (T @ [e]) k a" if "entry_rank e = r" "arp_ctime e < a"
  proof (cases "r \<in> entry_rank ` set T")
    case True
    then show ?thesis using assms that by (auto simp: oldest_def nth_append)
  next
    case False
    then show ?thesis using assms that by (simp add: oldest_def)
  qed
qed

lemma first_empty_snoc:
  assumes "first_empty T k" "length T < ARP_TABLE_SIZE"
  shows "entry_rank e \<noteq> 0 \<or> k \<noteq> ARP_TABLE_SIZE \<Longrightarrow> first_empty (T @ [e]) k"
    "entry_rank e = 0 \<Longrightarrow> k = ARP_TABLE_SIZE \<Longrightarrow> first_empty (T @ [e]) (length T)"
proof -
  show "first_empty (T @ [e]) k" if "entry_rank e \<noteq> 0 \<or> k \<noteq> ARP_TABLE_SIZE"
  proof (cases "0 \<in> entry_rank ` set T")
    case True
    then show ?thesis using assms by (simp add: first_empty_def nth_append)
  next
    case False
    then have "k = ARP_TABLE_SIZE" "entry_rank e \<noteq> 0" using assms(1) that by (simp_all add: first_empty_def)
    moreover from this have "0 \<notin> entry_rank ` set (T @ [e])" using False by auto
    ultimately show ?thesis unfolding first_empty_def by simp
  qed
  show "first_empty (T @ [e]) (length T)" if "entry_rank e = 0" "k = ARP_TABLE_SIZE"
  proof (cases "0 \<in> entry_rank ` set T")
    case True
    then show ?thesis using assms that by (simp add: first_empty_def)
  next
    case False
    then show ?thesis using that by (simp add: first_empty_def)
  qed
qed

lemma remember_searched:
  assumes "searched T c" "length T < ARP_TABLE_SIZE" "entry_rank e \<noteq> 0"
  shows "searched (T @ [e]) (remember (length T) e c)"
proof -
  have S: "first_empty T (empty c)" "oldest 1 T (old_stable c) (age_stable c)" "oldest 2 T (old_pending c) (age_pending c)" "oldest 3 T (old_queue c) (age_queue c)"
    using assms(1) by (simp_all add: searched_def)
  have f: "first_empty (T @ [e]) (empty c)" by (rule first_empty_snoc(1) [OF S(1) assms(2)]) (simp add: assms(3))
  consider "entry_rank e = 1" | "entry_rank e = 2" | "entry_rank e = 3" using assms(3) by (auto simp: entry_rank_def split: if_splits)
  then show ?thesis
  proof cases
    case 1
    then have "is_stable (arp_state e)" "arp_state e \<noteq> ETHARP_STATE_PENDING" using rank_iff(2) [of e] by (auto simp: is_stable_def)
    then show ?thesis using 1 f oldest_snoc [OF S(2), of e] oldest_snoc(1) [OF S(3), of e] oldest_snoc(1) [OF S(4), of e]
      by (simp add: searched_def remember_def not_le)
  next
    case 2
    then have "arp_state e = ETHARP_STATE_PENDING" "arp_q e = None" using rank_iff(3) [of e] by auto
    then show ?thesis using 2 f oldest_snoc(1) [OF S(2), of e] oldest_snoc [OF S(3), of e] oldest_snoc(1) [OF S(4), of e]
      by (simp add: searched_def remember_def not_le)
  next
    case 3
    then have "arp_state e = ETHARP_STATE_PENDING" "arp_q e \<noteq> None" using rank_iff(4) [of e] by auto
    then show ?thesis using 3 f oldest_snoc(1) [OF S(2), of e] oldest_snoc(1) [OF S(3), of e] oldest_snoc [OF S(4), of e]
      by (simp add: searched_def remember_def not_le)
  qed
qed

lemma find_loop_spec:
  assumes "searched T c" "length T + length es \<le> ARP_TABLE_SIZE"
  shows "case find_loop ip (length T) es c of
      Inl k \<Rightarrow> k < length T + length es \<and> length T \<le> k \<and> matches ip ((T @ es) ! k)
    | Inr c' \<Rightarrow> searched (T @ es) c' \<and> (\<forall>e\<in>set es. \<not> matches ip e)"
  using assms
proof (induction es arbitrary: T c)
  case (Cons e es)
  have len: "length T < ARP_TABLE_SIZE" "length (T @ [e]) + length es \<le> ARP_TABLE_SIZE" using Cons.prems(2) by simp_all
  note IH = Cons.IH [OF _ len(2)]
  have S: "first_empty T (empty c)" "oldest 1 T (old_stable c) (age_stable c)" "oldest 2 T (old_pending c) (age_pending c)" "oldest 3 T (old_queue c) (age_queue c)"
    using Cons.prems(1) by (simp_all add: searched_def)
  have o: "oldest r (T @ [e]) k a" if "oldest r T k a" "arp_state e = ETHARP_STATE_EMPTY" "r \<noteq> 0" for r k a
    using oldest_snoc(1) [OF that(1), of e] that(2,3) rank_iff(1) [of e] by auto
  consider "arp_state e = ETHARP_STATE_EMPTY" "empty c = ARP_TABLE_SIZE" | "arp_state e = ETHARP_STATE_EMPTY" "empty c \<noteq> ARP_TABLE_SIZE"
    | "matches ip e" | "arp_state e \<noteq> ETHARP_STATE_EMPTY" "\<not> matches ip e" by blast
  then show ?case
  proof cases
    case 1
    then have "searched (T @ [e]) (c\<lparr>empty := length T\<rparr>)" using S o first_empty_snoc(2) [OF S(1) len(1), of e] rank_iff(1) [of e] by (simp add: searched_def)
    then show ?thesis using IH [of "c\<lparr>empty := length T\<rparr>"] 1 by (auto simp: matches_def split: sum.splits)
  next
    case 2
    then have "searched (T @ [e]) c" using S o first_empty_snoc(1) [OF S(1) len(1), of e] by (simp add: searched_def)
    then show ?thesis using IH [of c] 2 by (auto simp: matches_def split: sum.splits)
  next
    case 3
    then show ?thesis by (auto simp: matches_def)
  next
    case 4
    then have "searched (T @ [e]) (remember (length T) e c)" using remember_searched [OF Cons.prems(1) len(1)] rank_iff(1) [of e] by simp
    then show ?thesis using IH [of "remember (length T) e c"] 4 by (auto simp: matches_def split: sum.splits)
  qed
qed simp

lemma searched_Nil: "searched [] no_candidates"
  by (simp add: searched_def no_candidates_def first_empty_def oldest_def)

text \<open>The candidate that the code prefers is the one to give up.\<close>

lemma oldest_victim:
  assumes "oldest r T x a" "r \<in> entry_rank ` set T" "\<And>e. e \<in> set T \<Longrightarrow> r \<le> entry_rank e" "0 < r"
  shows "victim T x"
  using assms by (auto simp: oldest_def victim_def)

lemma oldest_bound: "oldest r T k a \<Longrightarrow> length T = ARP_TABLE_SIZE \<Longrightarrow> k < ARP_TABLE_SIZE \<longleftrightarrow> r \<in> entry_rank ` set T"
  by (cases "r \<in> entry_rank ` set T") (simp_all add: oldest_def)

lemma first_empty_bound: "first_empty T k \<Longrightarrow> length T = ARP_TABLE_SIZE \<Longrightarrow> k < ARP_TABLE_SIZE \<longleftrightarrow> 0 \<in> entry_rank ` set T"
  by (cases "0 \<in> entry_rank ` set T") (simp_all add: first_empty_def)

lemma rank_cases: "entry_rank e = 0 \<or> entry_rank e = 1 \<or> entry_rank e = 2 \<or> entry_rank e = 3"
  by (simp add: entry_rank_def)

lemma pick_victim:
  assumes s: "searched T c" and len: "length T = ARP_TABLE_SIZE"
  shows "empty c < ARP_TABLE_SIZE \<longleftrightarrow> (\<exists>e\<in>set T. arp_state e = ETHARP_STATE_EMPTY)"
    "empty c < ARP_TABLE_SIZE \<Longrightarrow> victim T (empty c) \<and> arp_state (T ! empty c) = ETHARP_STATE_EMPTY"
    "\<not> empty c < ARP_TABLE_SIZE \<Longrightarrow> old_stable c < ARP_TABLE_SIZE \<Longrightarrow> victim T (old_stable c) \<and> is_stable (arp_state (T ! old_stable c))"
    "\<not> empty c < ARP_TABLE_SIZE \<Longrightarrow> \<not> old_stable c < ARP_TABLE_SIZE \<Longrightarrow> old_pending c < ARP_TABLE_SIZE \<Longrightarrow> victim T (old_pending c)"
    "\<not> empty c < ARP_TABLE_SIZE \<Longrightarrow> \<not> old_stable c < ARP_TABLE_SIZE \<Longrightarrow> \<not> old_pending c < ARP_TABLE_SIZE \<Longrightarrow> old_queue c < ARP_TABLE_SIZE \<and> victim T (old_queue c)"
proof -
  have S: "first_empty T (empty c)" "oldest 1 T (old_stable c) (age_stable c)" "oldest 2 T (old_pending c) (age_pending c)" "oldest 3 T (old_queue c) (age_queue c)"
    using s by (simp_all add: searched_def)
  note B = first_empty_bound [OF S(1) len] oldest_bound [OF S(2) len] oldest_bound [OF S(3) len] oldest_bound [OF S(4) len]
  show "empty c < ARP_TABLE_SIZE \<longleftrightarrow> (\<exists>e\<in>set T. arp_state e = ETHARP_STATE_EMPTY)" using B(1) rank_iff(1) by (metis image_iff)
  show "victim T (empty c) \<and> arp_state (T ! empty c) = ETHARP_STATE_EMPTY" if "empty c < ARP_TABLE_SIZE"
  proof -
    have "0 \<in> entry_rank ` set T" using B(1) that by simp
    then have "empty c < length T" "entry_rank (T ! empty c) = 0" "0 \<notin> entry_rank ` set (take (empty c) T)" using S(1) by (simp_all add: first_empty_def)
    moreover from this(2) have "arp_state (T ! empty c) = ETHARP_STATE_EMPTY" by (simp add: rank_iff)
    ultimately show ?thesis by (auto simp: victim_def)
  qed
  show "victim T (old_stable c) \<and> is_stable (arp_state (T ! old_stable c))" if "\<not> empty c < ARP_TABLE_SIZE" "old_stable c < ARP_TABLE_SIZE"
  proof -
    have "1 \<in> entry_rank ` set T" "0 \<notin> entry_rank ` set T" using B that by simp_all
    moreover from this have "1 \<le> entry_rank e" if "e \<in> set T" for e using that rank_cases [of e] by force
    moreover have "entry_rank (T ! old_stable c) = 1" using S(2) calculation(1) by (simp add: oldest_def)
    ultimately show ?thesis using oldest_victim [OF S(2)] rank_iff(2) by simp
  qed
  show "victim T (old_pending c)" if "\<not> empty c < ARP_TABLE_SIZE" "\<not> old_stable c < ARP_TABLE_SIZE" "old_pending c < ARP_TABLE_SIZE"
  proof -
    have "2 \<in> entry_rank ` set T" "0 \<notin> entry_rank ` set T" "1 \<notin> entry_rank ` set T" using B that by simp_all
    moreover from this have "2 \<le> entry_rank e" if "e \<in> set T" for e using that rank_cases [of e] by force
    ultimately show ?thesis using oldest_victim [OF S(3)] by simp
  qed
  show "old_queue c < ARP_TABLE_SIZE \<and> victim T (old_queue c)" if "\<not> empty c < ARP_TABLE_SIZE" "\<not> old_stable c < ARP_TABLE_SIZE" "\<not> old_pending c < ARP_TABLE_SIZE"
  proof -
    have n: "0 \<notin> entry_rank ` set T" "1 \<notin> entry_rank ` set T" "2 \<notin> entry_rank ` set T" using B that by simp_all
    then have r: "entry_rank e = 3" if "e \<in> set T" for e using that rank_cases [of e] by force
    obtain e where "e \<in> set T" using len by (cases T) (auto simp: ARP_TABLE_SIZE_def)
    then have "3 \<in> entry_rank ` set T" using r by force
    then show ?thesis using oldest_victim [OF S(4)] r B(4) by simp
  qed
qed

end
