(* ===== verification/Etharp_Inv.thy ===== *)
theory Etharp_Inv
  imports Etharp_Find
begin

text \<open>
  The ARP cache keeps its invariant: the relation \<open>keeps\<close> says which pbufs an operation leaves alone, \<open>arp_ok\<close> is the
  invariant of the table and its queues, and every operation is shown to return and to keep it.
\<close>

unbundle bit_operations_syntax

section \<open>What an operation leaves alone\<close>

lemma block_apart:
  assumes inv: "pbufs_inv szof s" and b: "block szof s p = Some n" "block szof s q = Some m" and ne: "p \<noteq> q" and i: "i < n" "j < m"
  shows "padd p i \<noteq> padd q j"
proof
  assume e: "padd p i = padd q j"
  then have r: "fst p = fst q" "snd p + i = snd q + j" by (simp_all add: padd_def)
  then have ne': "snd p \<noteq> snd q" using ne by (simp add: prod_eq_iff)
  have ref: "a + 16 \<le> c" if ac: "a \<in> memp_live szof (tm_pools s) MEMP_PBUF" "c \<in> memp_live szof (tm_pools s) MEMP_PBUF" "a < c" for a c
  proof -
    have el: "elems (memp_pools szof MEMP_PBUF) = (\<lambda>i. i * 16) ` {..<memp_num MEMP_PBUF}"
      using inv by (simp add: elems_def memp_pools_def mempool_desc_def pbufs_inv_def align_size)
    obtain k l where "a = k * 16" "c = l * 16" using ac(1,2) el by (auto simp: memp_live_def pool_live_def)
    with ac(3) show ?thesis by simp
  qed
  show False
  proof (cases "fst p")
    case Heap
    then show ?thesis using live_disjoint [of "heap s" "snd p" n "snd q" m] inv b r ne' i by (auto simp: pbufs_inv_def block_def)
  next
    case Pool
    then show ?thesis using pool_elems_apart [OF inv, of "snd p" "snd q"] pool_elems_apart [OF inv, of "snd q" "snd p"] b r ne' i
      by (auto simp: block_def neq_iff split: if_splits)
  next
    case RefPool
    then show ?thesis using ref [of "snd p" "snd q"] ref [of "snd q" "snd p"] b r ne' i
      by (auto simp: block_def neq_iff split: if_splits)
  next
    case Ext
    then show ?thesis using b by (simp add: block_def)
  qed
qed

text \<open>Of the pbufs only those in \<open>X\<close> are allocated, freed or written to, and the messages and the interfaces stay; \<open>keeps\<close> adds the ARP cache, and
  \<open>clears\<close> that those in \<open>X\<close> are freed.\<close>

definition leaves :: "(memp_t \<Rightarrow> nat) \<Rightarrow> ptr set \<Rightarrow> ('h, 'z) arps_scheme \<Rightarrow> ('h, 'z) arps_scheme \<Rightarrow> bool" where
  "leaves szof X s s' \<longleftrightarrow> pbufs_inv szof s' \<and> tcpip_mbox s' = tcpip_mbox s \<and> tcpip_msgs s' = tcpip_msgs s \<and> netifs s' = netifs s \<and>
     (\<forall>t. t \<noteq> MEMP_PBUF_POOL \<and> t \<noteq> MEMP_PBUF \<and> t \<noteq> MEMP_ARP_QUEUE \<longrightarrow> tm_pools s' t = tm_pools s t) \<and>
     (\<forall>p. p \<notin> X \<longrightarrow> block szof s' p = block szof s p) \<and>
     (\<forall>p n. block szof s p = Some n \<and> p \<notin> X \<longrightarrow> pb s' p = pb s p \<and> (\<forall>i<n. load s' (padd p i) = load s (padd p i)))"

definition clears :: "(memp_t \<Rightarrow> nat) \<Rightarrow> ptr set \<Rightarrow> ('h, 'z) arps_scheme \<Rightarrow> ('h, 'z) arps_scheme \<Rightarrow> bool" where
  "clears szof X s s' \<longleftrightarrow> leaves szof X s s' \<and> (\<forall>p\<in>X. block szof s' p = None)"

definition keeps :: "(memp_t \<Rightarrow> nat) \<Rightarrow> ptr set \<Rightarrow> ('h, 'z) arps_scheme \<Rightarrow> ('h, 'z) arps_scheme \<Rightarrow> bool" where
  "keeps szof X s s' \<longleftrightarrow> leaves szof X s s' \<and> arp_table s' = arp_table s \<and> etharp_cached_entry s' = etharp_cached_entry s \<and>
     q_entries s' = q_entries s \<and> tm_pools s' MEMP_ARP_QUEUE = tm_pools s MEMP_ARP_QUEUE"

lemma leaves_block:
  assumes "leaves szof X s s'" "block szof s p = Some n" "p \<notin> X"
  shows "block szof s' p = Some n" "pb s' p = pb s p" "i < n \<Longrightarrow> load s' (padd p i) = load s (padd p i)"
  using assms unfolding leaves_def by auto

lemma leaves_blocks: "leaves szof X s s' \<Longrightarrow> p \<notin> X \<Longrightarrow> block szof s' p = block szof s p"
  by (simp add: leaves_def)

lemma leaves_refl: "pbufs_inv szof s \<Longrightarrow> leaves szof X s s"
  by (simp add: leaves_def)

lemma leaves_mono: "leaves szof X s s' \<Longrightarrow> X \<subseteq> Y \<Longrightarrow> leaves szof Y s s'"
  unfolding leaves_def by blast

lemma leaves_fresh:
  assumes "leaves szof X s s'" "\<And>p. p \<in> X \<Longrightarrow> p \<notin> Y \<Longrightarrow> block szof s p = None \<and> block szof s' p = None"
  shows "leaves szof Y s s'"
proof -
  have "block szof s' p = block szof s p" if "p \<notin> Y" for p using assms leaves_blocks [OF assms(1), of p] that by (cases "p \<in> X") auto
  moreover have "pb s' p = pb s p \<and> (\<forall>i<n. load s' (padd p i) = load s (padd p i))" if "block szof s p = Some n" "p \<notin> Y" for p n
  proof -
    have "p \<notin> X" using assms(2) [of p] that by auto
    then show ?thesis using leaves_block [OF assms(1) that(1)] by blast
  qed
  ultimately show ?thesis using assms(1) unfolding leaves_def by blast
qed

lemma leaves_trans:
  assumes a: "leaves szof X s t" and b: "leaves szof X t u"
  shows "leaves szof X s u"
proof -
  have "pb u p = pb s p \<and> (\<forall>i<n. load u (padd p i) = load s (padd p i))" if "block szof s p = Some n" "p \<notin> X" for p n
    using leaves_block [OF a that] leaves_block [OF b, of p n] that(2) by simp
  then show ?thesis using a b unfolding leaves_def by simp
qed

lemma clears_leaves: "clears szof X s s' \<Longrightarrow> leaves szof X s s'"
  by (simp add: clears_def)

lemma clears_none: "clears szof {} s s' \<longleftrightarrow> leaves szof {} s s'"
  by (simp add: clears_def)

lemma clears_trans:
  assumes "clears szof X s t" "clears szof Y t u"
  shows "clears szof (X \<union> Y) s u"
proof -
  have "leaves szof (X \<union> Y) s u" by (rule leaves_trans [OF leaves_mono leaves_mono]) (use assms in \<open>auto simp: clears_def\<close>)
  moreover have "block szof u p = None" if "p \<in> X \<union> Y" for p using that assms leaves_blocks [of szof Y t u p] by (cases "p \<in> Y") (auto simp: clears_def)
  ultimately show ?thesis by (simp add: clears_def)
qed

lemma leaves_tcpip: "leaves szof X s s' \<Longrightarrow> tcpip_inv szof api count maxi s \<Longrightarrow> tcpip_inv szof api count maxi s'"
  by (rule tcpip_inv_frame) (auto simp: leaves_def pbufs_inv_def)

lemma leavesD:
  assumes "leaves szof X s s'"
  shows "pbufs_inv szof s'" "netifs s' = netifs s"
  using assms by (simp_all add: leaves_def)

lemma keeps_leaves: "keeps szof X s s' \<Longrightarrow> leaves szof X s s'"
  by (simp add: keeps_def)

lemma keepsD:
  assumes "keeps szof X s s'"
  shows "pbufs_inv szof s'" "arp_table s' = arp_table s" "etharp_cached_entry s' = etharp_cached_entry s" "q_entries s' = q_entries s"
    "netifs s' = netifs s" "tm_pools s' MEMP_ARP_QUEUE = tm_pools s MEMP_ARP_QUEUE"
  using assms by (simp_all add: keeps_def leaves_def)

lemma keeps_refl: "pbufs_inv szof s \<Longrightarrow> keeps szof X s s"
  by (simp add: keeps_def leaves_refl)

lemma keeps_mono: "keeps szof X s s' \<Longrightarrow> X \<subseteq> Y \<Longrightarrow> keeps szof Y s s'"
  unfolding keeps_def using leaves_mono by blast

lemma keeps_fresh: "keeps szof X s s' \<Longrightarrow> (\<And>p. p \<in> X \<Longrightarrow> p \<notin> Y \<Longrightarrow> block szof s p = None \<and> block szof s' p = None) \<Longrightarrow> keeps szof Y s s'"
  unfolding keeps_def using leaves_fresh by blast

lemma keeps_trans: "keeps szof X s t \<Longrightarrow> keeps szof X t u \<Longrightarrow> keeps szof X s u"
  unfolding keeps_def using leaves_trans by fastforce

lemma leaves_live:
  assumes "leaves szof X s s'" "live_pbuf szof s p" "p \<notin> X"
  shows "live_pbuf szof s' p" "pb s' p = pb s p" "has_buffer s p \<Longrightarrow> seg s' p = seg s p"
proof -
  obtain n where n: "block szof s p = Some n" "has_buffer s p \<longrightarrow> payload_in s p n" using assms(2) by (auto simp: live_pbuf_block)
  note k = leaves_block [OF assms(1) n(1) assms(3)]
  show "pb s' p = pb s p" by (rule k(2))
  then show "live_pbuf szof s' p" using assms(2) n k(1) by (auto simp: live_pbuf_block has_buffer_def payload_in_def)
  show "seg s' p = seg s p" if "has_buffer s p"
  proof -
    have "load s' (padd (pb_payload (pb s p)) i) = load s (padd (pb_payload (pb s p)) i)" if i: "i < pb_len (pb s p)" for i
      using payload_offset [of s p n i] n(2) \<open>has_buffer s p\<close> i k(3) by auto
    then show ?thesis using k(2) by (simp add: seg_def load_bytes_def)
  qed
qed

text \<open>The fields that the pbuf layer does not touch.\<close>

lemma arp_fields_store [simp]:
  "arp_table (store p bs s) = arp_table s" "etharp_cached_entry (store p bs s) = etharp_cached_entry s" "q_entries (store p bs s) = q_entries s"
  "netifs (store p bs s) = netifs s" "etharp_stats (store p bs s) = etharp_stats s" "arps.more (store p bs s) = arps.more s"
  by (simp_all add: store_def split: region.splits)

lemma pbuf_fields_store [simp]:
  "pb (store p bs s) = pb s" "tm_pools (store p bs s) = tm_pools s" "tcpip_mbox (store p bs s) = tcpip_mbox s" "tcpip_msgs (store p bs s) = tcpip_msgs s"
  by (simp_all add: store_def split: region.splits)

lemma arp_fields_upd_pb [simp]:
  "arp_table (upd_pb p f s) = arp_table s" "etharp_cached_entry (upd_pb p f s) = etharp_cached_entry s" "q_entries (upd_pb p f s) = q_entries s"
  "netifs (upd_pb p f s) = netifs s" "etharp_stats (upd_pb p f s) = etharp_stats s" "arps.more (upd_pb p f s) = arps.more s"
  "tcpip_mbox (upd_pb p f s) = tcpip_mbox s" "tcpip_msgs (upd_pb p f s) = tcpip_msgs s"
  by (simp_all add: upd_pb_def)

lemma keeps_upd_pb:
  assumes "pbufs_inv szof s" "pb_flags (f (pb s p)) = pb_flags (pb s p)"
  shows "keeps szof {p} s (upd_pb p f s)"
  using assms pbufs_inv_upd_pb [OF assms(1), of p f] by (simp add: keeps_def leaves_def pool_flags)

lemma outside_area:
  assumes inv: "pbufs_inv szof s" and p: "live_pbuf szof s p" "has_buffer s p" and q: "block szof s q = Some m" "q \<noteq> p" "j < m"
  shows "padd q j \<notin> area s p"
proof -
  obtain n where n: "block szof s p = Some n" "payload_in s p n" using p by (auto simp: live_pbuf_block)
  have "padd q j \<noteq> padd (pb_payload (pb s p)) k" if k: "k < pb_len (pb s p)" for k
  proof -
    obtain l where l: "l < n" "padd (pb_payload (pb s p)) k = padd p l" using payload_offset [OF n(2) k] by blast
    then show ?thesis using block_apart [OF inv q(1) n(1) q(2,3) l(1)] by simp
  qed
  then show ?thesis by (auto simp: area_def)
qed

lemma keeps_store:
  assumes inv: "pbufs_inv szof s" and p: "live_pbuf szof s p" "has_buffer s p" and fit: "i + length bs \<le> pb_len (pb s p)"
  shows "keeps szof {p} s (store (padd (pb_payload (pb s p)) i) bs s)"
proof -
  let ?s = "store (padd (pb_payload (pb s p)) i) bs s"
  note W = store_written [OF inv p fit]
  have load: "load ?s (padd q j) = load s (padd q j)" if "block szof s q = Some m" "q \<noteq> p" "j < m" for q m j
    by (rule W(4) [OF outside_area [OF inv p that]])
  have "block szof ?s = block szof s" by (intro ext) (simp only: block_def writtenD(2,3) [OF W(1)])
  then show ?thesis using W(2) load by (simp add: keeps_def leaves_def)
qed

text \<open>Changes of the counters and of the driver.\<close>

lemma pb_STATS [simp]: "pb (STATS_INC k s) = pb s" "load (STATS_INC k s) = load s" "tm_pools (STATS_INC k s) = tm_pools s"
  "arp_table (STATS_INC k s) = arp_table s" "q_entries (STATS_INC k s) = q_entries s" "netifs (STATS_INC k s) = netifs s"
  "etharp_cached_entry (STATS_INC k s) = etharp_cached_entry s" "arps.more (STATS_INC k s) = arps.more s" "heap (STATS_INC k s) = heap s"
  by (simp_all add: STATS_INC_def load_def fun_eq_iff split: region.splits)

lemma pb_more [simp]: "load (arps.more_update f s) = load s"
  by (simp add: load_def fun_eq_iff split: region.splits)

lemma inv_STATS [simp]: "pbufs_inv szof (STATS_INC k s) = pbufs_inv szof s" "block szof (STATS_INC k s) = block szof s"
  "live_pbuf szof (STATS_INC k s) p = live_pbuf szof s p" "has_buffer (STATS_INC k s) p = has_buffer s p"
  by (simp_all add: STATS_INC_def pbufs_inv_def block_def fun_eq_iff live_pbuf_def has_buffer_def payload_in_def split: region.splits pbuf_type.splits)

lemma inv_more [simp]: "pbufs_inv szof (arps.more_update f s) = pbufs_inv szof s" "block szof (arps.more_update f s) = block szof s"
  "live_pbuf szof (arps.more_update f s) p = live_pbuf szof s p" "has_buffer (arps.more_update f s) p = has_buffer s p"
  by (simp_all add: pbufs_inv_def block_def fun_eq_iff live_pbuf_def has_buffer_def payload_in_def split: region.splits pbuf_type.splits)

lemma keeps_STATS [simp]: "keeps szof X s (STATS_INC k s') = keeps szof X s s'"
  by (simp add: keeps_def leaves_def) (simp add: STATS_INC_def)

lemma leaves_STATS [simp]: "leaves szof X s (STATS_INC k s') = leaves szof X s s'"
  by (simp add: leaves_def) (simp add: STATS_INC_def)

lemma keeps_more [simp]: "keeps szof X s (arps.more_update f s') = keeps szof X s s'"
  by (simp add: keeps_def leaves_def)

section \<open>Allocating and freeing\<close>

lemma free_keeps:
  assumes inv: "pbufs_inv szof s" and c: "chain (pb_link s) (Some p) ps" and ps: "\<forall>x\<in>set ps. 0 < pb_ref (pb s x) \<and> live_pbuf szof s x"
  shows "\<exists>c s'. pbuf_free cf (Some p) s = Some (c, s') \<and> keeps szof (set ps) s s' \<and> (\<forall>x\<in>set (dead s ps). block szof s' x = None) \<and> arps.more s' = arps.more s"
proof -
  have sub: "set (dead s ps) \<subseteq> set ps" unfolding dead_def using set_takeWhileD by fastforce
  obtain s' where s': "pbuf_free_loop cf (Some p) 0 s = Some (u8 (0 + length (dead s ps)), s')" "released szof s (set (dead s ps)) s'"
    "pb s' = unref (set (take (length (dead s ps) + 1) ps)) (pb s)"
    using free_loop_released [OF inv c, of 0 cf] ps sub by auto
  have e: "s' = s\<lparr>tm_pools := tm_pools s', heap := heap s', pb := pb s'\<rparr>" using s'(2) by (simp add: released_def)
  have f: "tcpip_mbox s' = tcpip_mbox s" "tcpip_msgs s' = tcpip_msgs s" "arp_table s' = arp_table s" "etharp_cached_entry s' = etharp_cached_entry s"
    "q_entries s' = q_entries s" "netifs s' = netifs s" "arps.more s' = arps.more s" by (subst e, simp)+
  have bl: "block szof s' q = (if q \<in> set (dead s ps) then None else block szof s q)" for q by (rule released_block [OF s'(2)])
  have "pb s' q = pb s q \<and> (\<forall>i<n. load s' (padd q i) = load s (padd q i))"
    if q: "block szof s q = Some n" "q \<notin> set ps" for q n
  proof -
    have "q \<notin> set (dead s ps)" "q \<notin> set (take (length (dead s ps) + 1) ps)" using q(2) sub by (auto dest: in_set_takeD)
    moreover from this have "block szof s' q = Some n" using bl q(1) by simp
    ultimately show ?thesis using released_load [OF s'(2), of q n] s'(3) by (simp add: unref_def)
  qed
  moreover have "\<forall>t. t \<noteq> MEMP_PBUF_POOL \<and> t \<noteq> MEMP_PBUF \<longrightarrow> tm_pools s' t = tm_pools s t" using s'(2) unfolding released_def by blast
  moreover have "block szof s' q = block szof s q" if "q \<notin> set ps" for q using bl [of q] that sub by auto
  ultimately have "keeps szof (set ps) s s'" using released_inv [OF s'(2)] f unfolding keeps_def leaves_def by simp
  then show ?thesis using s'(1) f(7) bl by (auto simp: pbuf_free_def)
qed

text \<open>A packet that the cache owns: a single \<open>PBUF_RAM\<close> with room for the Ethernet header.\<close>

definition qpkt :: "(memp_t \<Rightarrow> nat) \<Rightarrow> ('h, 'z) pbufs_scheme \<Rightarrow> ptr \<Rightarrow> bool" where
  "qpkt szof s p \<longleftrightarrow> live_pbuf szof s p \<and> pb_type (pb s p) = PBUF_RAM \<and> pb_next (pb s p) = None \<and> pb_ref (pb s p) = 1 \<and>
     pb_tot_len (pb s p) = pb_len (pb s p) \<and> pb_len (pb s p) + SIZEOF_ETH_HDR < 65536 \<and> SIZEOF_ETH_HDR \<le> header_room s p"

lemma qpkt_buffer: "qpkt szof s p \<Longrightarrow> live_pbuf szof s p \<and> has_buffer s p"
  by (simp add: qpkt_def has_buffer_def)

lemma leaves_qpkt:
  assumes "leaves szof X s s'" "qpkt szof s p" "p \<notin> X"
  shows "qpkt szof s' p" "seg s' p = seg s p"
proof -
  have l: "live_pbuf szof s p" "has_buffer s p" using qpkt_buffer [OF assms(2)] by auto
  note k = leaves_live [OF assms(1) l(1) assms(3)]
  show "qpkt szof s' p" using assms(2) k(1,2) by (simp add: qpkt_def header_room_def)
  show "seg s' p = seg s p" by (rule k(3) [OF l(2)])
qed

lemma free_qpkt:
  assumes "pbufs_inv szof s" "qpkt szof s p"
  shows "\<exists>c s'. pbuf_free cf (Some p) s = Some (c, s') \<and> keeps szof {p} s s' \<and> block szof s' p = None \<and> arps.more s' = arps.more s"
proof -
  have "chain (pb_link s) (Some p) [p]" using assms(2) by (simp add: qpkt_def)
  then show ?thesis using free_keeps [OF assms(1), of p "[p]"] assms(2) by (simp add: qpkt_def dead_def)
qed

lemma alloc_ram_frame:
  assumes "pbuf_alloc api cf layer len PBUF_RAM s = Some (r, s')"
  shows "s' = s\<lparr>heap := heap s', pb := pb s'\<rparr>"
  using assms by (auto simp: pbuf_alloc_def pbuf_alloc_ram_def upd_pb_def Let_def split: Option.bind_splits option.splits if_splits)

lemma alloc_link:
  assumes inv: "pbufs_inv szof s" "tcpip_inv szof api count maxi s" and len: "len + SIZEOF_ETH_HDR < 65480"
  shows "\<exists>r s'. pbuf_alloc api cf PBUF_LINK len PBUF_RAM s = Some (r, s') \<and> keeps szof (set_option r) s s' \<and> arps.more s' = arps.more s \<and>
    (r = None \<longleftrightarrow> no_room szof PBUF_LINK len PBUF_RAM s) \<and>
    (case r of None \<Rightarrow> True | Some p \<Rightarrow> block szof s p = None \<and> qpkt szof s' p \<and> pb_len (pb s' p) = len)"
proof -
  have len': "len < 65536" "ram_size PBUF_LINK len \<le> 65532" using len by (simp_all add: ram_size_def align_size SIZEOF_ETH_HDR_def)
  obtain r s' where r: "pbuf_alloc api cf PBUF_LINK len PBUF_RAM s = Some (r, s')" "alloc_post szof api count maxi PBUF_LINK len PBUF_RAM s r s'"
    using alloc_ok [OF inv len'(1), of PBUF_RAM PBUF_LINK cf] len'(2) by blast
  have e: "s' = s\<lparr>heap := heap s', pb := pb s'\<rparr>" by (rule alloc_ram_frame [OF r(1)])
  have f: "tcpip_mbox s' = tcpip_mbox s" "tcpip_msgs s' = tcpip_msgs s" "arp_table s' = arp_table s" "etharp_cached_entry s' = etharp_cached_entry s"
    "q_entries s' = q_entries s" "netifs s' = netifs s" "tm_pools s' = tm_pools s" "arps.more s' = arps.more s" by (subst e, simp)+
  obtain us n where g: "grown szof n s us s'" "set us = set_option r" using r(2) by (cases r) (auto simp: alloc_post_def alloced_def)
  then have k: "keeps szof (set_option r) s s'" using f unfolding grown_def preserved_def keeps_def leaves_def by simp
  have "block szof s p = None \<and> qpkt szof s' p \<and> pb_len (pb s' p) = len" if "r = Some p" for p
  proof -
    obtain n where p: "grown szof n s [p] s'" "packet s' (Some p) [p]" "pb_len (pb s' p) = len" "live_pbuf szof s' p" "pb_type (pb s' p) = PBUF_RAM" "pb_ref (pb s' p) = 1"
      "snd p + 16 + 16 \<le> snd (pb_payload (pb s' p))"
      using r(2) \<open>r = Some p\<close> by (auto simp: alloc_post_def alloced_def has_buffer_def)
    then show ?thesis using len grownD(3) [OF p(1), of p] packet_tot [OF p(2)] by (simp add: qpkt_def header_room_def SIZEOF_ETH_HDR_def packet_def)
  qed
  then show ?thesis using r k f(8) by (intro exI [of _ r] exI [of _ s']) (simp add: alloc_post_def split: option.splits)
qed

section \<open>Sending\<close>

text \<open>Bytes are written into the payload of \<open>p\<close>, which is \<open>d\<close> afterwards.\<close>

definition stored :: "(memp_t \<Rightarrow> nat) \<Rightarrow> ptr \<Rightarrow> ('h, 'z) arps_scheme \<Rightarrow> ('h, 'z) arps_scheme \<Rightarrow> u8_t list \<Rightarrow> bool" where
  "stored szof p s t d \<longleftrightarrow> keeps szof {p} s t \<and> pb t = pb s \<and> live_pbuf szof t p \<and> has_buffer t p \<and> seg t p = d \<and> arps.more t = arps.more s"

lemma len_move14 [simp]: "pb_len (move_pb 14 b) = pb_len b + 14"
  by (simp add: move_pb_def nat_add_distrib)

lemma stored_start: "pbufs_inv szof s \<Longrightarrow> live_pbuf szof s p \<Longrightarrow> has_buffer s p \<Longrightarrow> stored szof p s s (seg s p)"
  by (simp add: stored_def keeps_refl)

lemma stored_store:
  assumes st: "stored szof p s t d" and fit: "i + length bs \<le> length d"
  shows "stored szof p s (store (padd (pb_payload (pb s p)) i) bs t) (patch i bs d)"
proof -
  have t: "keeps szof {p} s t" "pb t = pb s" "live_pbuf szof t p" "has_buffer t p" "seg t p = d" "arps.more t = arps.more s"
    using st by (simp_all add: stored_def)
  have fit': "i + length bs \<le> pb_len (pb t p)" using fit t(5) by auto
  note W = store_written [OF keepsD(1) [OF t(1)] t(3,4) fit']
  have w: "written t (store (padd (pb_payload (pb s p)) i) bs t)" "seg (store (padd (pb_payload (pb s p)) i) bs t) p = patch i bs d"
    using W(1,3) t(2,5) by (simp_all add: patch_def)
  show ?thesis using keeps_trans [OF t(1) keeps_store [OF keepsD(1) [OF t(1)] t(3,4) fit', unfolded t(2)]] t(2-6) w writtenD(6,7) [OF w(1)]
    by (simp add: stored_def)
qed

lemma stored_store_0:
  assumes "stored szof p s t d" "length bs \<le> length d"
  shows "stored szof p s (store (pb_payload (pb s p)) bs t) (patch 0 bs d)"
  using stored_store [OF assms(1), of 0 bs] assms(2) by (simp add: padd_def)

definition eth_frame :: "eth_addr \<Rightarrow> eth_addr \<Rightarrow> u16_t \<Rightarrow> u8_t list \<Rightarrow> u8_t list" where
  "eth_frame dst src ty d = dst @ src @ bytes16 (lwip_htons ty) @ d"

lemma length_bytes16 [simp]: "length (bytes16 w) = 2"
  by (simp add: bytes16_def)

lemma length_bytes32 [simp]: "length (bytes32 w) = 4"
  by (simp add: bytes32_def)

lemma eth_sizes [simp]: "SIZEOF_ETH_HDR = 14" "ETH_HWADDR_LEN = 6" "SIZEOF_ETHARP_HDR = 28"
  by (simp_all add: SIZEOF_ETH_HDR_def ETH_HWADDR_LEN_def SIZEOF_ETHARP_HDR_def)

lemma ethernet_output_sends:
  assumes inv: "pbufs_inv szof s" and p: "live_pbuf szof s p" "has_buffer s p"
    and tot: "pb_len (pb s p) \<le> pb_tot_len (pb s p)" "pb_tot_len (pb s p) + SIZEOF_ETH_HDR < 65536" and room: "SIZEOF_ETH_HDR \<le> header_room s p"
    and hw: "length (netif_hwaddr (netifs s n)) = 6" "length src = 6" "length dst = 6"
  shows "\<exists>t. ethernet_output lo n p src dst ty s = Some (fst (lo n p t), arps.more_update (\<lambda>_. snd (lo n p t)) t) \<and>
    keeps szof {p} s t \<and> live_pbuf szof t p \<and> has_buffer t p \<and> pb t p = move_pb 14 (pb s p) \<and>
    seg t p = eth_frame dst src ty (seg s p) \<and> arps.more t = arps.more s"
proof -
  let ?s = "upd_pb p (move_pb 14) s"
  let ?h = "pb_payload (pb ?s p)"
  have h: "pbuf_header (Some p) 14 s = Some (False, ?s)" using header_impl [OF p tot(1), of 14] tot(2) room by simp
  have le: "14 \<le> int (header_room s p)" "- 14 \<le> int (pb_len (pb s p))" using room by simp_all
  note M = move_live [OF p le]
  have k: "keeps szof {p} s ?s" by (rule keeps_upd_pb [OF inv]) (simp add: move_pb_def)
  have len: "length (seg ?s p) = pb_len (pb s p) + 14" by simp
  have d: "drop 14 (seg ?s p) = seg s p" using M(4) by simp
  let ?t = "store (padd ?h 6) src (store ?h dst (store (padd ?h 12) (bytes16 (lwip_htons ty)) ?s))"
  have st: "stored szof p ?s ?t (patch 6 src (patch 0 dst (patch 12 (bytes16 (lwip_htons ty)) (seg ?s p))))"
    by (intro stored_store stored_store_0 stored_start keepsD(1) [OF k] M(1,2)) (simp_all add: hw)
  have "patch 6 src (patch 0 dst (patch 12 (bytes16 (lwip_htons ty)) (seg ?s p))) = eth_frame dst src ty (seg s p)"
    using hw(2,3) len d by (simp add: patch_def eth_frame_def)
  then have T: "keeps szof {p} ?s ?t" "live_pbuf szof ?t p" "has_buffer ?t p" "pb ?t = pb ?s" "seg ?t p = eth_frame dst src ty (seg s p)" "arps.more ?t = arps.more s"
    using st by (simp_all add: stored_def)
  moreover have "ethernet_output lo n p src dst ty s = Some (fst (lo n p ?t), arps.more_update (\<lambda>_. snd (lo n p ?t)) ?t)"
    using h hw(1) by (simp add: ethernet_output_def Let_def split_beta)
  ultimately show ?thesis using keeps_trans [OF k T(1)] by (intro exI [of _ ?t]) simp
qed

text \<open>Whether or not there is room, the packet stays what it was.\<close>

lemma ethernet_output_keeps:
  assumes inv: "pbufs_inv szof s" and p: "live_pbuf szof s p" "has_buffer s p"
    and tot: "pb_len (pb s p) \<le> pb_tot_len (pb s p)" "pb_tot_len (pb s p) + SIZEOF_ETH_HDR < 65536"
    and hw: "length (netif_hwaddr (netifs s n)) = 6" "length src = 6" "length dst = 6"
  shows "\<exists>e t. ethernet_output lo n p src dst ty s = Some (e, t) \<and> keeps szof {p} s t \<and> live_pbuf szof t p \<and> has_buffer t p \<and>
    pb_next (pb t p) = pb_next (pb s p) \<and> pb_ref (pb t p) = pb_ref (pb s p) \<and> (SIZEOF_ETH_HDR > header_room s p \<longrightarrow> e = ERR_BUF)"
proof (cases "SIZEOF_ETH_HDR \<le> header_room s p")
  case True
  then obtain t where "ethernet_output lo n p src dst ty s = Some (fst (lo n p t), arps.more_update (\<lambda>_. snd (lo n p t)) t)"
    "keeps szof {p} s t" "live_pbuf szof t p" "has_buffer t p" "pb t p = move_pb 14 (pb s p)"
    using ethernet_output_sends [OF inv p tot True hw] by blast
  then show ?thesis using True by (simp add: move_pb_def)
next
  case False
  then have h: "pbuf_header (Some p) 14 s = Some (True, s)" using header_impl [OF p tot(1), of 14] tot(2) by simp
  then show ?thesis using inv p by (simp add: ethernet_output_def keeps_refl)
qed

text \<open>The driver is called once, with a packet that consists of \<open>d\<close>.\<close>

definition transmits :: "('h, 'z) link \<Rightarrow> nat \<Rightarrow> u8_t list \<Rightarrow> 'z \<Rightarrow> 'z \<Rightarrow> bool" where
  "transmits lo n d z z' \<longleftrightarrow> (\<exists>p ps t. packet t (Some p) ps \<and> pdata t ps = d \<and> arps.more t = z \<and> z' = snd (lo n p t))"

lemma send_qpkt:
  assumes inv: "pbufs_inv szof s" and p: "qpkt szof s p" and hw: "length (netif_hwaddr (netifs s n)) = 6" "length src = 6" "length dst = 6"
    and f: "\<And>t. pb (f t) = pb t" "\<And>t X. keeps szof X s (f t) = keeps szof X s t" "\<And>t. live_pbuf szof (f t) p = live_pbuf szof t p" "\<And>t. arps.more (f t) = arps.more t"
  shows "\<exists>e t c u. ethernet_output lo n p src dst ty s = Some (e, t) \<and> pbuf_free cf (Some p) (f t) = Some (c, u) \<and>
    keeps szof {p} s u \<and> block szof u p = None \<and> transmits lo n (eth_frame dst src ty (seg s p)) (arps.more s) (arps.more u)"
proof -
  have q: "live_pbuf szof s p" "has_buffer s p" "pb_len (pb s p) \<le> pb_tot_len (pb s p)" "pb_tot_len (pb s p) + SIZEOF_ETH_HDR < 65536" "SIZEOF_ETH_HDR \<le> header_room s p"
    using p by (auto simp: qpkt_def has_buffer_def)
  obtain t where t: "ethernet_output lo n p src dst ty s = Some (fst (lo n p t), arps.more_update (\<lambda>_. snd (lo n p t)) t)"
    "keeps szof {p} s t" "live_pbuf szof t p" "pb t p = move_pb 14 (pb s p)"
    "seg t p = eth_frame dst src ty (seg s p)" "arps.more t = arps.more s"
    using ethernet_output_sends [OF inv q hw] by blast
  let ?t = "arps.more_update (\<lambda>_. snd (lo n p t)) t"
  have k: "keeps szof {p} s (f ?t)" using f(2) t(2) by simp
  have nx: "pb_next (pb t p) = None" "pb_ref (pb t p) = 1" "pb_tot_len (pb t p) = pb_len (pb t p)" "pb_len (pb t p) < 65536"
    using p t(4) by (simp_all add: qpkt_def move_pb_def nat_add_distrib)
  have "chain (pb_link (f ?t)) (Some p) [p]" using f(1) nx(1) by simp
  then obtain c u where u: "pbuf_free cf (Some p) (f ?t) = Some (c, u)" "keeps szof {p} (f ?t) u" "arps.more u = arps.more (f ?t)" "block szof u p = None"
    using free_keeps [OF keepsD(1) [OF k], of p "[p]" cf] f(1,3) nx t(3) by (auto simp: dead_def)
  have "packet t (Some p) [p]" using nx by (simp add: packet_def)
  then have "transmits lo n (eth_frame dst src ty (seg s p)) (arps.more s) (arps.more u)"
    using t(5,6) u(3) f(4) unfolding transmits_def by (intro exI [of _ p] exI [of _ "[p]"] exI [of _ t]) simp
  then show ?thesis using t(1) u(1,4) keeps_trans [OF k u(2)] by blast
qed

definition arp_bytes :: "u16_t \<Rightarrow> eth_addr \<Rightarrow> ip4_addr \<Rightarrow> eth_addr \<Rightarrow> ip4_addr \<Rightarrow> u8_t list" where
  "arp_bytes opcode sha sip tha tip = bytes16 (lwip_htons HWTYPE_ETHERNET) @ bytes16 (lwip_htons ETHTYPE_IP) @ [6, 4] @ bytes16 (lwip_htons opcode) @
     sha @ bytes32 sip @ tha @ bytes32 tip"

lemma arp_patches:
  assumes "length d = 28" "length sha = 6" "length tha = 6"
  shows "patch 5 [4] (patch 4 [6] (patch 2 (bytes16 (lwip_htons ETHTYPE_IP)) (patch 0 (bytes16 (lwip_htons HWTYPE_ETHERNET))
    (patch 24 (bytes32 tip) (patch 14 (bytes32 sip) (patch 18 tha (patch 8 sha (patch 6 (bytes16 (lwip_htons opcode)) d)))))))) =
    arp_bytes opcode sha sip tha tip"
  using assms by (simp add: patch_def arp_bytes_def)

lemma raw_ok:
  assumes inv: "pbufs_inv szof s" "tcpip_inv szof api count maxi s"
    and len: "length (netif_hwaddr (netifs s n)) = 6" "length src = 6" "length dst = 6" "length sha = 6" "length tha = 6"
  shows "\<exists>r s'. etharp_raw api cf lo n src dst sha sip tha tip opcode s = Some (r, s') \<and> keeps szof {} s s' \<and>
    (if no_room szof PBUF_LINK 28 PBUF_RAM s then r = ERR_MEM \<and> arps.more s' = arps.more s
     else r = ERR_OK \<and> transmits lo n (eth_frame dst src ETHTYPE_ARP (arp_bytes opcode sha sip tha tip)) (arps.more s) (arps.more s'))"
proof -
  obtain r t where a: "pbuf_alloc api cf PBUF_LINK 28 PBUF_RAM s = Some (r, t)" "keeps szof (set_option r) s t" "arps.more t = arps.more s"
    "r = None \<longleftrightarrow> no_room szof PBUF_LINK 28 PBUF_RAM s"
    "case r of None \<Rightarrow> True | Some p \<Rightarrow> block szof s p = None \<and> qpkt szof t p \<and> pb_len (pb t p) = 28"
    using alloc_link [OF inv, of 28 cf] by auto
  show ?thesis
  proof (cases r)
    case None
    then show ?thesis using a by (simp add: etharp_raw_def)
  next
    case (Some p)
    then have p: "block szof s p = None" "qpkt szof t p" "pb_len (pb t p) = 28" using a(5) by auto
    let ?h = "pb_payload (pb t p)"
    let ?u = "store (padd ?h 5) [4] (store (padd ?h 4) [6] (store (padd ?h 2) (bytes16 (lwip_htons ETHTYPE_IP)) (store ?h (bytes16 (lwip_htons HWTYPE_ETHERNET))
      (store (padd ?h 24) (bytes32 tip) (store (padd ?h 14) (bytes32 sip) (store (padd ?h 18) tha (store (padd ?h 8) sha
      (store (padd ?h 6) (bytes16 (lwip_htons opcode)) t))))))))"
    have l: "length (seg t p) = 28" using p(3) by simp
    have "stored szof p t ?u (patch 5 [4] (patch 4 [6] (patch 2 (bytes16 (lwip_htons ETHTYPE_IP)) (patch 0 (bytes16 (lwip_htons HWTYPE_ETHERNET))
        (patch 24 (bytes32 tip) (patch 14 (bytes32 sip) (patch 18 tha (patch 8 sha (patch 6 (bytes16 (lwip_htons opcode)) (seg t p))))))))))"
      by (intro stored_store stored_store_0 stored_start) (use qpkt_buffer [OF p(2)] keepsD(1) [OF a(2)] l len in simp_all)
    then have u: "keeps szof {p} t ?u" "pb ?u = pb t" "live_pbuf szof ?u p" "seg ?u p = arp_bytes opcode sha sip tha tip" "arps.more ?u = arps.more s"
      using arp_patches [OF l len(4,5)] a(3) unfolding stored_def by simp_all
    have q: "qpkt szof ?u p" using p(2) u(2,3) by (simp add: qpkt_def header_room_def)
    have hw: "length (netif_hwaddr (netifs ?u n)) = 6" using len(1) keepsD(5) [OF a(2)] by simp
    obtain e v c w where v: "ethernet_output lo n p src dst ETHTYPE_ARP ?u = Some (e, v)" "pbuf_free cf (Some p) (STATS_INC stat_xmit v) = Some (c, w)"
      "keeps szof {p} ?u w" "block szof w p = None" "transmits lo n (eth_frame dst src ETHTYPE_ARP (seg ?u p)) (arps.more ?u) (arps.more w)"
      using send_qpkt [OF keepsD(1) [OF u(1)] q hw len(2,3), of "STATS_INC stat_xmit" lo ETHTYPE_ARP cf] by auto
    have "keeps szof {p} s w" using keeps_trans [OF keeps_trans [OF keeps_mono [OF a(2)] u(1)] v(3)] Some by simp
    then have k: "keeps szof {} s w" by (rule keeps_fresh) (use p(1) v(4) in auto)
    have "etharp_raw api cf lo n src dst sha sip tha tip opcode s = Some (ERR_OK, w)"
      using a(1) Some p(3) len(1) keepsD(5) [OF a(2)] v(1,2) by (simp add: etharp_raw_def Let_def)
    then show ?thesis using k a(4) Some v(5) u(4,5) by auto
  qed
qed

section \<open>The invariant\<close>

text \<open>A queue: its nodes \<open>a\<close> and the packets \<open>p\<close> they hold.\<close>

definition q_link :: "('h, 'z) arps_scheme \<Rightarrow> nat \<Rightarrow> nat option" where
  "q_link s a = qe_next (q_entries s a)"

lemma q_chain_Cons [simp]: "chain (q_link s) h (a # as) \<longleftrightarrow> h = Some a \<and> chain (q_link s) (qe_next (q_entries s a)) as"
  by (simp add: chain.simps q_link_def)

definition node_ok :: "(memp_t \<Rightarrow> nat) \<Rightarrow> ('h, 'z) arps_scheme \<Rightarrow> nat \<times> ptr \<Rightarrow> bool" where
  "node_ok szof s x \<longleftrightarrow> fst x \<in> memp_live szof (tm_pools s) MEMP_ARP_QUEUE \<and> qpkt szof s (snd x) \<and> qe_p (q_entries s (fst x)) = Some (snd x)"

definition queue_ok :: "(memp_t \<Rightarrow> nat) \<Rightarrow> ('h, 'z) arps_scheme \<Rightarrow> nat option \<Rightarrow> (nat \<times> ptr) list \<Rightarrow> bool" where
  "queue_ok szof s h xs \<longleftrightarrow> chain (q_link s) h (map fst xs) \<and> distinct (map snd xs) \<and> (\<forall>x\<in>set xs. node_ok szof s x)"

definition entry_ok :: "(nat \<Rightarrow> netif) \<Rightarrow> (nat \<times> ptr) list \<Rightarrow> etharp_entry \<Rightarrow> bool" where
  "entry_ok nif xs e \<longleftrightarrow> length (arp_eth e) = 6 \<and> length xs \<le> ARP_QUEUE_LEN \<and> (arp_state e \<noteq> ETHARP_STATE_PENDING \<longrightarrow> xs = []) \<and>
     (is_stable (arp_state e) \<longrightarrow> arp_ctime e < ARP_MAXAGE) \<and>
     (arp_state e = ETHARP_STATE_PENDING \<longrightarrow> arp_ctime e < ARP_MAXPENDING \<and> (\<exists>n. arp_netif e = Some n \<and> length (netif_hwaddr (nif n)) = 6))"

definition no_share :: "(nat \<times> ptr) list \<Rightarrow> (nat \<times> ptr) list \<Rightarrow> bool" where
  "no_share xs ys \<longleftrightarrow> fst ` set xs \<inter> fst ` set ys = {} \<and> snd ` set xs \<inter> snd ` set ys = {}"

definition clash :: "etharp_entry \<Rightarrow> etharp_entry \<Rightarrow> bool" where
  "clash e f \<longleftrightarrow> arp_state e \<noteq> ETHARP_STATE_EMPTY \<and> arp_state f \<noteq> ETHARP_STATE_EMPTY \<and> arp_ip e = arp_ip f"

definition nodes :: "(nat \<Rightarrow> (nat \<times> ptr) list) \<Rightarrow> nat set" where
  "nodes Q = (\<Union>i<ARP_TABLE_SIZE. fst ` set (Q i))"

text \<open>The pool holds the nodes of the queues and no others.\<close>

definition arp_ok :: "(memp_t \<Rightarrow> nat) \<Rightarrow> (nat \<Rightarrow> (nat \<times> ptr) list) \<Rightarrow> ('h, 'z) arps_scheme \<Rightarrow> bool" where
  "arp_ok szof Q s \<longleftrightarrow> pbufs_inv szof s \<and> length (arp_table s) = ARP_TABLE_SIZE \<and> etharp_cached_entry s < ARP_TABLE_SIZE \<and>
     (\<forall>i<ARP_TABLE_SIZE. queue_ok szof s (arp_q (arp_table s ! i)) (Q i) \<and> entry_ok (netifs s) (Q i) (arp_table s ! i)) \<and>
     (\<forall>i<ARP_TABLE_SIZE. \<forall>j<ARP_TABLE_SIZE. i \<noteq> j \<longrightarrow> no_share (Q i) (Q j) \<and> \<not> clash (arp_table s ! i) (arp_table s ! j)) \<and>
     memp_live szof (tm_pools s) MEMP_ARP_QUEUE = nodes Q"

definition owned :: "(nat \<Rightarrow> (nat \<times> ptr) list) \<Rightarrow> ptr set" where
  "owned Q = (\<Union>i<ARP_TABLE_SIZE. snd ` set (Q i))"

lemma arp_okD:
  assumes "arp_ok szof Q s"
  shows "pbufs_inv szof s" "length (arp_table s) = ARP_TABLE_SIZE" "etharp_cached_entry s < ARP_TABLE_SIZE"
    "i < ARP_TABLE_SIZE \<Longrightarrow> queue_ok szof s (arp_q (arp_table s ! i)) (Q i)"
    "i < ARP_TABLE_SIZE \<Longrightarrow> entry_ok (netifs s) (Q i) (arp_table s ! i)"
    "i < ARP_TABLE_SIZE \<Longrightarrow> j < ARP_TABLE_SIZE \<Longrightarrow> i \<noteq> j \<Longrightarrow> no_share (Q i) (Q j) \<and> \<not> clash (arp_table s ! i) (arp_table s ! j)"
    "memp_live szof (tm_pools s) MEMP_ARP_QUEUE = nodes Q"
  using assms unfolding arp_ok_def by blast+

lemma UN_upd:
  assumes "(i::nat) < N" "\<And>j. j < N \<Longrightarrow> j \<noteq> i \<Longrightarrow> A j \<inter> A i = {}"
  shows "(\<Union>j<N. (A(i := X)) j) = ((\<Union>j<N. A j) - A i) \<union> X"
  using assms by (fastforce split: if_splits)

lemma nodes_upd:
  assumes ok: "arp_ok szof Q s" and i: "i < ARP_TABLE_SIZE"
  shows "nodes (Q(i := xs)) = (nodes Q - fst ` set (Q i)) \<union> fst ` set xs"
proof -
  have e: "(\<lambda>j. fst ` set ((Q(i := xs)) j)) = (\<lambda>j. fst ` set (Q j))(i := fst ` set xs)" by (rule ext) simp
  have d: "fst ` set (Q j) \<inter> fst ` set (Q i) = {}" if "j < ARP_TABLE_SIZE" "j \<noteq> i" for j
    using arp_okD(6) [OF ok that(1) i that(2)] by (simp add: no_share_def)
  show ?thesis unfolding nodes_def e by (rule UN_upd [where A = "\<lambda>j. fst ` set (Q j)", OF i d])
qed

lemma no_share_sym: "no_share xs ys \<Longrightarrow> no_share ys xs"
  unfolding no_share_def by blast

lemma clash_sym: "clash e f \<Longrightarrow> clash f e"
  by (simp add: clash_def)

lemma queue_ok_cong:
  assumes "queue_ok szof s h xs" "\<And>x. x \<in> set xs \<Longrightarrow> node_ok szof s x \<Longrightarrow> node_ok szof s' x \<and> qe_next (q_entries s' (fst x)) = qe_next (q_entries s (fst x))"
  shows "queue_ok szof s' h xs"
proof -
  have "chain (q_link s') h (map fst xs) = chain (q_link s) h (map fst xs)"
    using assms by (intro chain_cong) (auto simp: q_link_def queue_ok_def)
  then show ?thesis using assms by (simp add: queue_ok_def)
qed

text \<open>One entry and its queue change, the nodes of the others do not.\<close>

lemma arp_ok_upd:
  assumes ok: "arp_ok szof Q s" and i: "i < ARP_TABLE_SIZE" and inv: "pbufs_inv szof s'"
    and tab: "arp_table s' = (arp_table s)[i := e]" and ce: "etharp_cached_entry s' < ARP_TABLE_SIZE" and nif: "netifs s' = netifs s"
    and oth: "\<And>j x. j < ARP_TABLE_SIZE \<Longrightarrow> j \<noteq> i \<Longrightarrow> x \<in> set (Q j) \<Longrightarrow> node_ok szof s x \<Longrightarrow>
      node_ok szof s' x \<and> qe_next (q_entries s' (fst x)) = qe_next (q_entries s (fst x))"
    and q: "queue_ok szof s' (arp_q e) xs" "entry_ok (netifs s) xs e"
    and ap: "\<And>j. j < ARP_TABLE_SIZE \<Longrightarrow> j \<noteq> i \<Longrightarrow> no_share xs (Q j) \<and> \<not> clash e (arp_table s ! j)"
    and live: "memp_live szof (tm_pools s') MEMP_ARP_QUEUE = (memp_live szof (tm_pools s) MEMP_ARP_QUEUE - fst ` set (Q i)) \<union> fst ` set xs"
  shows "arp_ok szof (Q(i := xs)) s'"
proof -
  have "queue_ok szof s' (arp_q (arp_table s' ! j)) ((Q(i := xs)) j) \<and> entry_ok (netifs s') ((Q(i := xs)) j) (arp_table s' ! j)" if j: "j < ARP_TABLE_SIZE" for j
  proof (cases "j = i")
    case True
    then show ?thesis using q i arp_okD(2) [OF ok] tab nif by simp
  next
    case False
    then have "queue_ok szof s' (arp_q (arp_table s ! j)) (Q j)" using arp_okD(4) [OF ok j] oth [OF j] by (auto intro: queue_ok_cong)
    then show ?thesis using False arp_okD(5) [OF ok j] tab nif by simp
  qed
  moreover have "no_share ((Q(i := xs)) j) ((Q(i := xs)) k) \<and> \<not> clash (arp_table s' ! j) (arp_table s' ! k)"
    if "j < ARP_TABLE_SIZE" "k < ARP_TABLE_SIZE" "j \<noteq> k" for j k
    using that arp_okD(6) [OF ok that] ap [of j] ap [of k] arp_okD(2) [OF ok] tab no_share_sym [of xs "Q j"] clash_sym [of "arp_table s ! j" e] i
    by (cases "j = i"; cases "k = i") auto
  ultimately show ?thesis using inv ce tab arp_okD(2,7) [OF ok] live nodes_upd [OF ok i, of xs] unfolding arp_ok_def by simp
qed

lemma leaves_node:
  assumes "leaves szof X s s'" "node_ok szof s x" "snd x \<notin> X" "q_entries s' (fst x) = q_entries s (fst x)"
    "fst x \<in> memp_live szof (tm_pools s') MEMP_ARP_QUEUE"
  shows "node_ok szof s' x \<and> qe_next (q_entries s' (fst x)) = qe_next (q_entries s (fst x))"
  using assms leaves_qpkt(1) [OF assms(1) _ assms(3)] by (simp add: node_ok_def)

lemma owned_iff: "p \<in> owned Q \<longleftrightarrow> (\<exists>i<ARP_TABLE_SIZE. p \<in> snd ` set (Q i))"
  by (auto simp: owned_def)

lemma ownedI: "i < ARP_TABLE_SIZE \<Longrightarrow> x \<in> set (Q i) \<Longrightarrow> snd x \<in> owned Q"
  by (auto simp: owned_iff)

lemma nodes_in:
  assumes "arp_ok szof Q s" "i < ARP_TABLE_SIZE"
  shows "memp_live szof (tm_pools s) MEMP_ARP_QUEUE = (memp_live szof (tm_pools s) MEMP_ARP_QUEUE - fst ` set (Q i)) \<union> fst ` set (Q i)"
  using arp_okD(7) [OF assms(1)] assms(2) by (auto simp: nodes_def)

lemma arp_ok_keeps:
  assumes ok: "arp_ok szof Q s" and k: "keeps szof X s s'" and X: "X \<inter> owned Q = {}"
  shows "arp_ok szof Q s'"
proof -
  have i: "0 < ARP_TABLE_SIZE" by (simp add: ARP_TABLE_SIZE_def)
  have n: "node_ok szof s' x \<and> qe_next (q_entries s' (fst x)) = qe_next (q_entries s (fst x))"
    if "j < ARP_TABLE_SIZE" "x \<in> set (Q j)" "node_ok szof s x" for j x
  proof (rule leaves_node [OF keeps_leaves [OF k] that(3)])
    show "snd x \<notin> X" using X ownedI [of j x Q] that(1,2) by blast
  qed (use that(3) keepsD(4,6) [OF k] in \<open>auto simp: node_ok_def memp_live_def\<close>)
  have "queue_ok szof s' (arp_q (arp_table s ! 0)) (Q 0)" using arp_okD(4) [OF ok i] n [OF i] by (rule queue_ok_cong)
  then have "arp_ok szof (Q(0 := Q 0)) s'"
    by (intro arp_ok_upd [OF ok i keepsD(1) [OF k], where e = "arp_table s ! 0"])
      (use n i arp_okD(3,5,6) [OF ok] keepsD [OF k] nodes_in [OF ok i] in \<open>auto simp: memp_live_def\<close>)
  then show ?thesis by simp
qed

lemma upd_entry_fields [simp]:
  "arp_table (upd_entry i f s) = (arp_table s)[i := f (arp_table s ! i)]" "etharp_cached_entry (upd_entry i f s) = etharp_cached_entry s"
  "q_entries (upd_entry i f s) = q_entries s" "netifs (upd_entry i f s) = netifs s" "tm_pools (upd_entry i f s) = tm_pools s" "pb (upd_entry i f s) = pb s"
  "load (upd_entry i f s) = load s" "arps.more (upd_entry i f s) = arps.more s" "etharp_stats (upd_entry i f s) = etharp_stats s"
  by (simp_all add: upd_entry_def load_def fun_eq_iff split: region.splits)

lemma upd_entry_pbufs [simp]:
  "pbufs_inv szof (upd_entry i f s) = pbufs_inv szof s" "qpkt szof (upd_entry i f s) p = qpkt szof s p" "node_ok szof (upd_entry i f s) = node_ok szof s"
  "leaves szof X s (upd_entry i f s') = leaves szof X s s'" "leaves szof X (upd_entry i f s') s = leaves szof X s' s"
  "clears szof X s (upd_entry i f s') = clears szof X s s'" "clears szof X (upd_entry i f s') s = clears szof X s' s"
  "live_pbuf szof (upd_entry i f s) p = live_pbuf szof s p" "tcpip_inv szof api count maxi (upd_entry i f s) = tcpip_inv szof api count maxi s"
  by (simp_all add: upd_entry_def pbufs_inv_def qpkt_def live_pbuf_def payload_in_def header_room_def node_ok_def clears_def leaves_def block_def load_def fun_eq_iff
      tcpip_inv_def msg_live_def queued_def split: region.splits pbuf_type.splits)

lemma q_link_upd_entry [simp]: "q_link (upd_entry i f s) = q_link s"
  by (simp add: q_link_def fun_eq_iff)

lemma queue_ok_upd_entry [simp]: "queue_ok szof (upd_entry i f s) = queue_ok szof s"
  by (simp add: queue_ok_def fun_eq_iff)

section \<open>Queues\<close>

text \<open>Taking a node from the pool and giving it back.\<close>

lemma leaves_pools:
  assumes inv: "pbufs_inv szof s" and ps: "memps_inv szof ps" "\<And>t. t \<noteq> MEMP_ARP_QUEUE \<Longrightarrow> ps t = tm_pools s t"
  shows "leaves szof {} s (s\<lparr>tm_pools := ps\<rparr>)"
proof -
  have "block szof (s\<lparr>tm_pools := ps\<rparr>) = block szof s" using ps(2) by (intro ext) (simp add: block_def memp_live_def split: region.splits)
  moreover have "pbufs_inv szof (s\<lparr>tm_pools := ps\<rparr>)" using inv ps(1) by (simp add: pbufs_inv_def)
  moreover have "load (s\<lparr>tm_pools := ps\<rparr>) = load s" by (simp add: load_def fun_eq_iff split: region.splits)
  ultimately show ?thesis using ps(2) by (simp add: leaves_def)
qed

lemma node_alloc:
  assumes inv: "pbufs_inv szof s"
  shows "\<exists>r ps. memp_malloc MEMP_ARP_QUEUE (tm_pools s) = Some (r, ps) \<and> leaves szof {} s (s\<lparr>tm_pools := ps\<rparr>) \<and>
    (case r of
       None \<Rightarrow> card (memp_live szof (tm_pools s) MEMP_ARP_QUEUE) = memp_num MEMP_ARP_QUEUE \<and> memp_live szof ps MEMP_ARP_QUEUE = memp_live szof (tm_pools s) MEMP_ARP_QUEUE
     | Some a \<Rightarrow> a \<notin> memp_live szof (tm_pools s) MEMP_ARP_QUEUE \<and> memp_live szof ps MEMP_ARP_QUEUE = insert a (memp_live szof (tm_pools s) MEMP_ARP_QUEUE))"
proof -
  have m: "memps_inv szof (tm_pools s)" using inv by (simp add: pbufs_inv_def)
  obtain r ps where r: "memp_malloc MEMP_ARP_QUEUE (tm_pools s) = Some (r, ps)" "memps_inv szof ps"
    "case r of
       None \<Rightarrow> card (memp_live szof (tm_pools s) MEMP_ARP_QUEUE) = memp_num MEMP_ARP_QUEUE \<and> memp_live szof ps MEMP_ARP_QUEUE = memp_live szof (tm_pools s) MEMP_ARP_QUEUE
     | Some a \<Rightarrow> a \<notin> memp_live szof (tm_pools s) MEMP_ARP_QUEUE \<and> memp_live szof ps MEMP_ARP_QUEUE = insert a (memp_live szof (tm_pools s) MEMP_ARP_QUEUE)"
    using memp.alloc_law [OF m, of MEMP_ARP_QUEUE] by blast
  then show ?thesis using leaves_pools [OF inv r(2) memp_malloc_other [OF r(1)]] by blast
qed

lemma node_free:
  assumes inv: "pbufs_inv szof s" and a: "a \<in> memp_live szof (tm_pools s) MEMP_ARP_QUEUE"
  shows "\<exists>ps. memp_free MEMP_ARP_QUEUE (Some a) (tm_pools s) = Some ps \<and> leaves szof {} s (s\<lparr>tm_pools := ps\<rparr>) \<and>
    memp_live szof ps MEMP_ARP_QUEUE = memp_live szof (tm_pools s) MEMP_ARP_QUEUE - {a}"
proof -
  have m: "memps_inv szof (tm_pools s)" using inv by (simp add: pbufs_inv_def)
  obtain ps where ps: "memp_free MEMP_ARP_QUEUE (Some a) (tm_pools s) = Some ps" "memps_inv szof ps"
    "memp_live szof ps MEMP_ARP_QUEUE = memp_live szof (tm_pools s) MEMP_ARP_QUEUE - {a}"
    using memp.release_law [OF m a] by blast
  then show ?thesis using leaves_pools [OF inv ps(2) memp_free_other [OF ps(1)]] by blast
qed

lemma free_q_loop_ok:
  assumes "pbufs_inv szof s" "queue_ok szof s h xs"
  shows "\<exists>s'. free_q_loop cf h s = Some s' \<and> clears szof (snd ` set xs) s s' \<and> arp_table s' = arp_table s \<and> q_entries s' = q_entries s \<and>
    etharp_cached_entry s' = etharp_cached_entry s \<and> arps.more s' = arps.more s \<and>
    memp_live szof (tm_pools s') MEMP_ARP_QUEUE = memp_live szof (tm_pools s) MEMP_ARP_QUEUE - fst ` set xs"
  using assms
proof (induction xs arbitrary: h s)
  case Nil
  then show ?case by (subst free_q_loop.simps) (simp add: queue_ok_def leaves_refl clears_none)
next
  case (Cons x xs)
  obtain a p where x: "x = (a, p)" by (cases x)
  have q: "h = Some a" "chain (q_link s) (q_link s a) (map fst xs)" "p \<notin> snd ` set xs" "distinct (map snd xs)" "node_ok szof s (a, p)" "\<forall>y\<in>set xs. node_ok szof s y"
    using Cons.prems(2) by (auto simp: queue_ok_def x q_link_def)
  have na: "a \<notin> fst ` set xs" using chain_distinct [of "q_link s" h "map fst (x # xs)"] Cons.prems(2) x by (auto simp: queue_ok_def)
  have n: "a \<in> memp_live szof (tm_pools s) MEMP_ARP_QUEUE" "qpkt szof s p" "qe_p (q_entries s a) = Some p" using q(5) by (simp_all add: node_ok_def)
  obtain c t where t: "pbuf_free cf (Some p) s = Some (c, t)" "keeps szof {p} s t" "arps.more t = arps.more s" "block szof t p = None"
    using free_qpkt [OF Cons.prems(1) n(2)] by blast
  note T = keepsD [OF t(2)]
  have at: "a \<in> memp_live szof (tm_pools t) MEMP_ARP_QUEUE" using n(1) T(6) by (simp add: memp_live_def)
  obtain ps where ps: "memp_free MEMP_ARP_QUEUE (Some a) (tm_pools t) = Some ps" "leaves szof {} t (t\<lparr>tm_pools := ps\<rparr>)"
    "memp_live szof ps MEMP_ARP_QUEUE = memp_live szof (tm_pools t) MEMP_ARP_QUEUE - {a}" using node_free [OF T(1) at] by blast
  let ?u = "t\<lparr>tm_pools := ps\<rparr>"
  have su: "leaves szof {p} s ?u" by (rule leaves_trans [OF keeps_leaves [OF t(2)] leaves_mono [OF ps(2)]]) simp
  have cu: "clears szof {p} s ?u" using su t(4) leaves_blocks [OF ps(2), of p] by (simp add: clears_def)
  have live: "memp_live szof ps MEMP_ARP_QUEUE = memp_live szof (tm_pools s) MEMP_ARP_QUEUE - {a}" using ps(3) T(6) by (simp add: memp_live_def)
  have "node_ok szof ?u y" if "y \<in> set xs" for y
  proof -
    have y: "node_ok szof s y" "snd y \<notin> {p}" "fst y \<noteq> a" using q(3,6) na that by auto
    then have "fst y \<in> memp_live szof ps MEMP_ARP_QUEUE" using live by (simp add: node_ok_def)
    then show ?thesis using leaves_node [OF su y(1,2)] T(4) by simp
  qed
  moreover have "q_link ?u = q_link s" using T(4) by (simp add: q_link_def fun_eq_iff)
  ultimately have "queue_ok szof ?u (q_link s a) xs" using q(2,4) by (simp add: queue_ok_def)
  then obtain s' where s': "free_q_loop cf (q_link s a) ?u = Some s'" "clears szof (snd ` set xs) ?u s'" "arp_table s' = arp_table ?u" "q_entries s' = q_entries ?u"
    "etharp_cached_entry s' = etharp_cached_entry ?u" "arps.more s' = arps.more ?u"
    "memp_live szof (tm_pools s') MEMP_ARP_QUEUE = memp_live szof (tm_pools ?u) MEMP_ARP_QUEUE - fst ` set xs"
    using Cons.IH [OF leavesD(1) [OF su]] by blast
  have "clears szof (snd ` set (x # xs)) s s'" using clears_trans [OF cu s'(2)] by (simp add: x)
  moreover have "free_q_loop cf h s = Some s'"
    using t(1) ps(1) s'(1) n(3) q(1) by (subst free_q_loop.simps) (simp add: Let_def q_link_def)
  ultimately show ?case using s'(3-7) live T(2-4) t(3) x by (intro exI [of _ s']) auto
qed

text \<open>The nodes of the other queues stay when that of entry \<open>i\<close> is given back.\<close>

lemma others_node:
  assumes ok: "arp_ok szof Q s" and i: "i < ARP_TABLE_SIZE" and j: "j < ARP_TABLE_SIZE" "j \<noteq> i" and x: "x \<in> set (Q j)" "node_ok szof s x"
    and l: "leaves szof (snd ` set (Q i)) s s'" and q: "q_entries s' = q_entries s"
    and live: "memp_live szof (tm_pools s') MEMP_ARP_QUEUE = memp_live szof (tm_pools s) MEMP_ARP_QUEUE - fst ` set (Q i)"
  shows "node_ok szof s' x \<and> qe_next (q_entries s' (fst x)) = qe_next (q_entries s (fst x))"
proof (rule leaves_node [OF l x(2)])
  have a: "no_share (Q i) (Q j)" using arp_okD(6) [OF ok i j(1)] j(2) by auto
  then show "snd x \<notin> snd ` set (Q i)" using x(1) by (auto simp: no_share_def)
  have "fst x \<notin> fst ` set (Q i)" using a x(1) by (auto simp: no_share_def)
  then show "fst x \<in> memp_live szof (tm_pools s') MEMP_ARP_QUEUE" using x(2) live by (simp add: node_ok_def)
qed (simp add: q)

definition blank_entry :: etharp_entry where
  "blank_entry = \<lparr>arp_q = None, arp_ip = 0, arp_netif = None, arp_eth = ethzero, arp_ctime = 0, arp_state = ETHARP_STATE_EMPTY\<rparr>"

lemma clear_entry:
  "e\<lparr>arp_q := None, arp_state := ETHARP_STATE_EMPTY, arp_ctime := 0, arp_netif := None, arp_ip := 0, arp_eth := ethzero\<rparr> = blank_entry"
  by (cases e) (simp add: blank_entry_def)

text \<open>The other fields of the entry do not matter.\<close>

lemma free_entry_upd:
  assumes ok: "arp_ok szof Q s" and i: "i < ARP_TABLE_SIZE" and f: "arp_q (f (arp_table s ! i)) = arp_q (arp_table s ! i)"
  shows "\<exists>s'. etharp_free_entry cf i (upd_entry i f s) = Some s' \<and> arp_ok szof (Q(i := [])) s' \<and> clears szof (snd ` set (Q i)) s s' \<and>
    arp_table s' = (arp_table s)[i := blank_entry] \<and> arps.more s' = arps.more s \<and> etharp_cached_entry s' = etharp_cached_entry s"
proof -
  let ?e = "arp_table s ! i"
  let ?t = "upd_entry i f s"
  have li: "i < length (arp_table s)" using i arp_okD(2) [OF ok] by simp
  have q: "queue_ok szof ?t (arp_q (arp_table ?t ! i)) (Q i)" using arp_okD(4) [OF ok i] f li by simp
  obtain s1 where s1: "free_q_loop cf (arp_q (arp_table ?t ! i)) ?t = Some s1" "clears szof (snd ` set (Q i)) ?t s1" "arp_table s1 = arp_table ?t" "q_entries s1 = q_entries ?t"
    "etharp_cached_entry s1 = etharp_cached_entry ?t" "arps.more s1 = arps.more ?t"
    "memp_live szof (tm_pools s1) MEMP_ARP_QUEUE = memp_live szof (tm_pools ?t) MEMP_ARP_QUEUE - fst ` set (Q i)"
    using free_q_loop_ok [OF _ q, of cf] arp_okD(1) [OF ok] by auto
  let ?s = "upd_entry i (\<lambda>e. e\<lparr>arp_q := None\<rparr>) s1"
  let ?s' = "upd_entry i (\<lambda>e. e\<lparr>arp_state := ETHARP_STATE_EMPTY, arp_ctime := 0, arp_netif := None, arp_ip := 0, arp_eth := ethzero\<rparr>) ?s"
  have c: "clears szof (snd ` set (Q i)) s s1" using s1(2) by simp
  note l = clears_leaves [OF c]
  have tab: "arp_table ?s' = (arp_table s)[i := blank_entry]" using li s1(3) by (simp add: clear_entry)
  have eq: "etharp_free_entry cf i ?t = Some ?s'"
  proof (cases "arp_q (arp_table ?t ! i)")
    case None
    then have s1t: "s1 = ?t" using s1(1) by (simp add: free_q_loop.simps)
    have n: "(f ?e)\<lparr>arp_q := None\<rparr> = f ?e" using None li by simp
    have "upd_entry i (\<lambda>e. e\<lparr>arp_q := None\<rparr>) ?t = ?t" using li by (simp add: upd_entry_def n)
    then show ?thesis using None s1t by (simp add: etharp_free_entry_def)
  next
    case (Some a)
    then have "qe_p (q_entries s a) \<noteq> None" using q by (cases "Q i") (auto simp: queue_ok_def node_ok_def)
    then show ?thesis using Some s1(1) by (simp add: etharp_free_entry_def free_etharp_q_def)
  qed
  have oth: "node_ok szof s1 x \<and> qe_next (q_entries s1 (fst x)) = qe_next (q_entries s (fst x))" if "j < ARP_TABLE_SIZE" "j \<noteq> i" "x \<in> set (Q j)" "node_ok szof s x" for j x
    using others_node [OF ok i that l] s1(4,7) by simp
  have "arp_ok szof (Q(i := [])) ?s'"
    by (rule arp_ok_upd [OF ok i _ tab])
      (use oth leavesD [OF l] arp_okD(3) [OF ok] s1(4,5,7) in \<open>auto simp: queue_ok_def entry_ok_def blank_entry_def ethzero_def is_stable_def no_share_def clash_def\<close>)
  then show ?thesis using eq tab c s1(5,6) by (intro exI [of _ ?s']) simp
qed

lemma free_entry_ok:
  assumes ok: "arp_ok szof Q s" and i: "i < ARP_TABLE_SIZE"
  shows "\<exists>s'. etharp_free_entry cf i s = Some s' \<and> arp_ok szof (Q(i := [])) s' \<and> clears szof (snd ` set (Q i)) s s' \<and>
    arp_table s' = (arp_table s)[i := blank_entry] \<and> arps.more s' = arps.more s \<and> etharp_cached_entry s' = etharp_cached_entry s"
proof -
  have "upd_entry i (\<lambda>e. e) s = s" by (simp add: upd_entry_def)
  then show ?thesis using free_entry_upd [OF ok i, of "\<lambda>e. e" cf] by simp
qed

end
