(* ===== verification/Etharp_Ops.thy ===== *)
theory Etharp_Ops
  imports Etharp_Inv
begin

text \<open>
  Every operation of the ARP cache returns and keeps \<open>arp_ok\<close>, and what it does to the table, the queues and the driver.
\<close>

unbundle bit_operations_syntax

section \<open>Changing one entry\<close>

lemma arp_ok_entry:
  assumes ok: "arp_ok szof Q s" and i: "i < ARP_TABLE_SIZE" and q: "arp_q (f (arp_table s ! i)) = arp_q (arp_table s ! i)"
    and e: "entry_ok (netifs s) (Q i) (f (arp_table s ! i))"
    and c: "\<And>j. j < ARP_TABLE_SIZE \<Longrightarrow> j \<noteq> i \<Longrightarrow> \<not> clash (f (arp_table s ! i)) (arp_table s ! j)"
  shows "arp_ok szof Q (upd_entry i f s)"
proof -
  have "arp_ok szof (Q(i := Q i)) (upd_entry i f s)"
    using arp_okD(1,3,4,6) [OF ok] q e c i nodes_in [OF ok i] by (intro arp_ok_upd [OF ok i, where e = "f (arp_table s ! i)"]) auto
  then show ?thesis by simp
qed

lemma arp_ok_cached: "arp_ok szof Q s \<Longrightarrow> i < ARP_TABLE_SIZE \<Longrightarrow> arp_ok szof Q (s\<lparr>etharp_cached_entry := i\<rparr>)"
proof -
  have n: "node_ok szof (s\<lparr>etharp_cached_entry := i\<rparr>) x = node_ok szof s x" for x
    by (simp add: node_ok_def qpkt_def live_pbuf_def payload_in_def header_room_def split: pbuf_type.splits)
  have q: "q_link (s\<lparr>etharp_cached_entry := i\<rparr>) = q_link s" by (simp add: q_link_def fun_eq_iff)
  assume "arp_ok szof Q s" "i < ARP_TABLE_SIZE"
  then show ?thesis by (simp add: arp_ok_def queue_ok_def n q pbufs_inv_def)
qed

lemma arp_ok_STATS [simp]: "arp_ok szof Q (STATS_INC k s) = arp_ok szof Q s"
proof -
  have "node_ok szof (STATS_INC k s) x = node_ok szof s x" for x by (simp add: node_ok_def qpkt_def header_room_def)
  moreover have "q_link (STATS_INC k s) = q_link s" by (simp add: q_link_def fun_eq_iff)
  ultimately show ?thesis by (simp add: arp_ok_def queue_ok_def)
qed

section \<open>Finding an entry\<close>

definition fresh_entry :: "ip4_addr option \<Rightarrow> etharp_entry \<Rightarrow> bool" where
  "fresh_entry ip e \<longleftrightarrow> arp_q e = None \<and> arp_state e = ETHARP_STATE_EMPTY \<and> arp_ctime e = 0 \<and> length (arp_eth e) = 6 \<and> (ip = None \<or> ip = Some (arp_ip e))"

text \<open>Entry \<open>i\<close> has been given up and made fresh.\<close>

definition renewed :: "(memp_t \<Rightarrow> nat) \<Rightarrow> (nat \<Rightarrow> (nat \<times> ptr) list) \<Rightarrow> ip4_addr option \<Rightarrow> nat \<Rightarrow> ('h, 'z) arps_scheme \<Rightarrow> ('h, 'z) arps_scheme \<Rightarrow> bool" where
  "renewed szof Q ip i s s' \<longleftrightarrow> arp_ok szof (Q(i := [])) s' \<and> clears szof (snd ` set (Q i)) s s' \<and> arps.more s' = arps.more s \<and>
     (\<exists>e. arp_table s' = (arp_table s)[i := e] \<and> fresh_entry ip e)"

lemma empty_queue:
  assumes "arp_ok szof Q s" "i < ARP_TABLE_SIZE" "arp_state (arp_table s ! i) \<noteq> ETHARP_STATE_PENDING"
  shows "Q i = []" "arp_q (arp_table s ! i) = None"
  using arp_okD(4,5) [OF assms(1,2)] assms(3) by (auto simp: entry_ok_def queue_ok_def)

lemma renew_ok:
  assumes ok: "arp_ok szof (Q(i := [])) t" and i: "i < ARP_TABLE_SIZE" and l: "clears szof (snd ` set (Q i)) s t" and m: "arps.more t = arps.more s"
    and tab: "arp_table t = (arp_table s)[i := e]" "length (arp_table s) = ARP_TABLE_SIZE" and e: "arp_q e = None" "arp_state e = ETHARP_STATE_EMPTY" "length (arp_eth e) = 6"
  shows "renewed szof Q ip i s (upd_entry i (\<lambda>e. e\<lparr>arp_ctime := 0\<rparr>) (case ip of Some a \<Rightarrow> upd_entry i (\<lambda>e. e\<lparr>arp_ip := a\<rparr>) t | None \<Rightarrow> t))"
proof -
  let ?f = "\<lambda>e. (case ip of Some a \<Rightarrow> e\<lparr>arp_ip := a\<rparr> | None \<Rightarrow> e)\<lparr>arp_ctime := 0\<rparr>"
  have eq: "upd_entry i (\<lambda>e. e\<lparr>arp_ctime := 0\<rparr>) (case ip of Some a \<Rightarrow> upd_entry i (\<lambda>e. e\<lparr>arp_ip := a\<rparr>) t | None \<Rightarrow> t) = upd_entry i ?f t"
    using i tab by (cases ip) (simp_all add: upd_entry_def)
  have ei: "arp_table t ! i = e" using i tab by simp
  have "arp_ok szof (Q(i := [])) (upd_entry i ?f t)"
    by (rule arp_ok_entry [OF ok i]) (use e ei in \<open>auto simp: entry_ok_def clash_def is_stable_def split: option.splits\<close>)
  moreover have "arp_table (upd_entry i ?f t) = (arp_table s)[i := ?f e]" using ei tab(1) by (cases ip) simp_all
  moreover have "fresh_entry ip (?f e)" using e by (auto simp: fresh_entry_def split: option.splits)
  ultimately show ?thesis using l m unfolding renewed_def eq by auto
qed

lemma find_entry_cases [consumes 1, case_names hit refused fresh]:
  assumes ok: "arp_ok szof Q s"
  obtains (hit) i where "i < ARP_TABLE_SIZE" "matches ip (arp_table s ! i)" "etharp_find_entry cf ip flags s = Some (Inr i, s)"
  | (refused) "\<forall>e\<in>set (arp_table s). \<not> matches ip e" "etharp_find_entry cf ip flags s = Some (Inl ERR_MEM, s)"
      "flags AND ETHARP_FLAG_FIND_ONLY \<noteq> 0 \<or> flags AND ETHARP_FLAG_TRY_HARD = 0 \<and> (\<forall>e\<in>set (arp_table s). arp_state e \<noteq> ETHARP_STATE_EMPTY)"
  | (fresh) i s' where "\<forall>e\<in>set (arp_table s). \<not> matches ip e" "flags AND ETHARP_FLAG_FIND_ONLY = 0" "victim (arp_table s) i" "i < ARP_TABLE_SIZE"
      "etharp_find_entry cf ip flags s = Some (Inr i, s')" "renewed szof Q ip i s s'"
proof -
  have len: "length (arp_table s) = ARP_TABLE_SIZE" by (rule arp_okD(2) [OF ok])
  have F: "case find_loop ip 0 (arp_table s) no_candidates of
      Inl k \<Rightarrow> k < ARP_TABLE_SIZE \<and> matches ip (arp_table s ! k)
    | Inr c \<Rightarrow> searched (arp_table s) c \<and> (\<forall>e\<in>set (arp_table s). \<not> matches ip e)"
    using find_loop_spec [OF searched_Nil, of "arp_table s" ip] len by (simp split: sum.splits)
  show thesis
  proof (cases "find_loop ip 0 (arp_table s) no_candidates")
    case (Inl k)
    then show thesis using hit [of k] F by (simp add: etharp_find_entry_def)
  next
    case (Inr c)
    then have c: "searched (arp_table s) c" "\<forall>e\<in>set (arp_table s). \<not> matches ip e" using F by simp_all
    note V = pick_victim [OF c(1) len]
    have e10: "empty c = ARP_TABLE_SIZE \<longleftrightarrow> \<not> empty c < ARP_TABLE_SIZE"
      using c(1) len by (auto simp: searched_def first_empty_def split: if_splits)
    show thesis
    proof (cases "flags AND ETHARP_FLAG_FIND_ONLY \<noteq> 0 \<or> empty c = ARP_TABLE_SIZE \<and> flags AND ETHARP_FLAG_TRY_HARD = 0")
      case True
      then show thesis using Inr V(1) e10 by (intro refused [OF c(2)]) (auto simp: etharp_find_entry_def)
    next
      case False
      define k where "k = (if empty c < ARP_TABLE_SIZE then empty c else if old_stable c < ARP_TABLE_SIZE then old_stable c
        else if old_pending c < ARP_TABLE_SIZE then old_pending c else old_queue c)"
      have v: "victim (arp_table s) k" using V by (simp add: k_def)
      then have k: "k < ARP_TABLE_SIZE" using len by (simp add: victim_def)
      obtain t where t: "etharp_free_entry cf k s = Some t" "arp_ok szof (Q(k := [])) t" "clears szof (snd ` set (Q k)) s t"
        "arp_table t = (arp_table s)[k := blank_entry]" "arps.more t = arps.more s" using free_entry_ok [OF ok k, of cf] by blast
      let ?fin = "\<lambda>t. upd_entry k (\<lambda>e. e\<lparr>arp_ctime := 0\<rparr>) (case ip of Some a \<Rightarrow> upd_entry k (\<lambda>e. e\<lparr>arp_ip := a\<rparr>) t | None \<Rightarrow> t)"
      have no: "\<not> (flags AND ETHARP_FLAG_FIND_ONLY \<noteq> 0)" "\<not> (empty c = ARP_TABLE_SIZE \<and> flags AND ETHARP_FLAG_TRY_HARD = 0)" using False by blast+
      have "renewed szof Q ip k s (?fin (if empty c < ARP_TABLE_SIZE then s else t))"
      proof (cases "empty c < ARP_TABLE_SIZE")
        case True
        then have st: "arp_state (arp_table s ! k) = ETHARP_STATE_EMPTY" using V(2) by (simp add: k_def)
        then have "Q k = []" "arp_q (arp_table s ! k) = None" using empty_queue [OF ok k] by simp_all
        moreover from this have "Q(k := []) = Q" by auto
        moreover have "length (arp_eth (arp_table s ! k)) = 6" using arp_okD(5) [OF ok k] by (simp add: entry_ok_def)
        ultimately show ?thesis using True st ok len k
          by (intro renew_ok [where e = "arp_table s ! k"]) (simp_all add: clears_none leaves_refl arp_okD(1) [OF ok])
      next
        case False
        then show ?thesis using t(2-5) len k by (intro renew_ok [where e = blank_entry]) (simp_all add: blank_entry_def ethzero_def)
      qed
      moreover have "etharp_find_entry cf ip flags s = Some (Inr k, ?fin (if empty c < ARP_TABLE_SIZE then s else t))"
      proof (cases "empty c < ARP_TABLE_SIZE")
        case True
        then have kk: "k = empty c" by (simp add: k_def)
        then show ?thesis using True Inr no k V(2) unfolding kk by (simp add: etharp_find_entry_def)
      next
        case e: False
        have tk: "arp_state (arp_table t ! k) = ETHARP_STATE_EMPTY" using t(4) len k by (simp add: blank_entry_def)
        show ?thesis
        proof (cases "old_stable c < ARP_TABLE_SIZE")
          case True
          then have kk: "k = old_stable c" using e by (simp add: k_def)
          have "arp_state (arp_table s ! k) \<noteq> ETHARP_STATE_PENDING" using V(3) e True kk by (auto simp: is_stable_def)
          then have "arp_q (arp_table s ! k) = None" using empty_queue [OF ok k] by simp
          then show ?thesis using Inr no e True t(1) tk k unfolding kk by (simp add: etharp_find_entry_def)
        next
          case os: False
          show ?thesis
          proof (cases "old_pending c < ARP_TABLE_SIZE")
            case True
            then have kk: "k = old_pending c" using e os by (simp add: k_def)
            then show ?thesis using Inr no e os True t(1) tk k unfolding kk by (simp add: etharp_find_entry_def)
          next
            case op: False
            then have kk: "k = old_queue c" using e os by (simp add: k_def)
            then show ?thesis using Inr no e os op t(1) tk k unfolding kk by (simp add: etharp_find_entry_def)
          qed
        qed
      qed
      ultimately show thesis using fresh [OF c(2) _ v k] no by blast
    qed
  qed
qed

section \<open>Resolving\<close>

text \<open>The driver is called once for each of the frames, in their order.\<close>

primrec sends :: "('h, 'z) link \<Rightarrow> nat \<Rightarrow> u8_t list list \<Rightarrow> 'z \<Rightarrow> 'z \<Rightarrow> bool" where
  "sends lo n [] z z' \<longleftrightarrow> z' = z"
| "sends lo n (d # ds) z z' \<longleftrightarrow> (\<exists>y. transmits lo n d z y \<and> sends lo n ds y z')"

lemma send_queued_ok:
  assumes "pbufs_inv szof s" "queue_ok szof s (arp_q (arp_table s ! i)) xs" "i < length (arp_table s)" "length (netif_hwaddr (netifs s n)) = 6" "length ethaddr = 6"
  shows "\<exists>s'. send_queued cf lo i n ethaddr s = Some s' \<and> clears szof (snd ` set xs) s s' \<and>
    arp_table s' = (arp_table s)[i := (arp_table s ! i)\<lparr>arp_q := None\<rparr>] \<and> q_entries s' = q_entries s \<and> etharp_cached_entry s' = etharp_cached_entry s \<and>
    memp_live szof (tm_pools s') MEMP_ARP_QUEUE = memp_live szof (tm_pools s) MEMP_ARP_QUEUE - fst ` set xs \<and>
    sends lo n (map (\<lambda>x. eth_frame ethaddr (netif_hwaddr (netifs s n)) ETHTYPE_IP (seg s (snd x))) xs) (arps.more s) (arps.more s')"
  using assms
proof (induction xs arbitrary: s)
  case Nil
  then have q: "arp_q (arp_table s ! i) = None" by (simp add: queue_ok_def)
  then have e: "(arp_table s ! i)\<lparr>arp_q := None\<rparr> = arp_table s ! i" by simp
  show ?case using q Nil.prems(1) by (subst send_queued.simps) (simp add: clears_none leaves_refl e)
next
  case (Cons x xs)
  obtain a p where x: "x = (a, p)" by (cases x)
  have q: "arp_q (arp_table s ! i) = Some a" "chain (q_link s) (q_link s a) (map fst xs)" "p \<notin> snd ` set xs" "distinct (map snd xs)" "node_ok szof s (a, p)" "\<forall>y\<in>set xs. node_ok szof s y"
    using Cons.prems(2) by (auto simp: queue_ok_def x q_link_def)
  have na: "a \<notin> fst ` set xs" using chain_distinct [of "q_link s" _ "map fst (x # xs)"] Cons.prems(2) x by (auto simp: queue_ok_def)
  have n: "a \<in> memp_live szof (tm_pools s) MEMP_ARP_QUEUE" "qpkt szof s p" "qe_p (q_entries s a) = Some p" using q(5) by (simp_all add: node_ok_def)
  let ?s1 = "upd_entry i (\<lambda>e. e\<lparr>arp_q := q_link s a\<rparr>) s"
  obtain ps where ps: "memp_free MEMP_ARP_QUEUE (Some a) (tm_pools s) = Some ps" "leaves szof {} ?s1 (?s1\<lparr>tm_pools := ps\<rparr>)"
    "memp_live szof ps MEMP_ARP_QUEUE = memp_live szof (tm_pools s) MEMP_ARP_QUEUE - {a}"
    using node_free [of szof ?s1 a] Cons.prems(1) n(1) by auto
  let ?t = "?s1\<lparr>tm_pools := ps\<rparr>"
  have st: "leaves szof {} s ?t" using ps(2) by simp
  have pt: "qpkt szof ?t p" "seg ?t p = seg s p" using leaves_qpkt [OF st n(2)] by simp_all
  obtain e u c v where u: "ethernet_output lo n p (netif_hwaddr (netifs ?t n)) ethaddr ETHTYPE_IP ?t = Some (e, u)" "pbuf_free cf (Some p) u = Some (c, v)"
    "keeps szof {p} ?t v" "transmits lo n (eth_frame ethaddr (netif_hwaddr (netifs ?t n)) ETHTYPE_IP (seg ?t p)) (arps.more ?t) (arps.more v)" "block szof v p = None"
    using send_qpkt [OF leavesD(1) [OF st] pt(1), of n "netif_hwaddr (netifs ?t n)" ethaddr "\<lambda>t. t" lo ETHTYPE_IP cf] Cons.prems(4,5) by auto
  note V = keepsD [OF u(3)]
  have sv: "leaves szof {p} s v" by (rule leaves_trans [OF leaves_mono [OF st] keeps_leaves [OF u(3)]]) simp
  have cv: "clears szof {p} s v" using sv u(5) by (simp add: clears_def)
  have live: "memp_live szof (tm_pools v) MEMP_ARP_QUEUE = memp_live szof (tm_pools s) MEMP_ARP_QUEUE - {a}" using ps(3) V(6) by (simp add: memp_live_def)
  have y: "node_ok szof v y" "seg v (snd y) = seg s (snd y)" if "y \<in> set xs" for y
  proof -
    have y: "node_ok szof s y" "snd y \<notin> {p}" "fst y \<noteq> a" using q(3,6) na that by auto
    then have "fst y \<in> memp_live szof (tm_pools v) MEMP_ARP_QUEUE" using live by (simp add: node_ok_def)
    then show "node_ok szof v y" using leaves_node [OF sv y(1,2)] V(4) by simp
    show "seg v (snd y) = seg s (snd y)" using leaves_qpkt(2) [OF sv _ y(2)] y(1) by (simp add: node_ok_def)
  qed
  have ei: "arp_table v ! i = (arp_table s ! i)\<lparr>arp_q := q_link s a\<rparr>" using V(2) Cons.prems(3) by simp
  have "q_link v = q_link s" using V(4) by (simp add: q_link_def fun_eq_iff)
  then have qv: "queue_ok szof v (arp_q (arp_table v ! i)) xs" using q(2,4) y(1) ei by (simp add: queue_ok_def)
  have nv: "netifs v = netifs s" using V(5) by simp
  have fr: "map (\<lambda>x. eth_frame ethaddr (netif_hwaddr (netifs v n)) ETHTYPE_IP (seg v (snd x))) xs = map (\<lambda>x. eth_frame ethaddr (netif_hwaddr (netifs s n)) ETHTYPE_IP (seg s (snd x))) xs"
    using y(2) nv by simp
  obtain s' where s': "send_queued cf lo i n ethaddr v = Some s'" "clears szof (snd ` set xs) v s'"
    "arp_table s' = (arp_table v)[i := (arp_table v ! i)\<lparr>arp_q := None\<rparr>]" "q_entries s' = q_entries v" "etharp_cached_entry s' = etharp_cached_entry v"
    "memp_live szof (tm_pools s') MEMP_ARP_QUEUE = memp_live szof (tm_pools v) MEMP_ARP_QUEUE - fst ` set xs"
    "sends lo n (map (\<lambda>x. eth_frame ethaddr (netif_hwaddr (netifs s n)) ETHTYPE_IP (seg s (snd x))) xs) (arps.more v) (arps.more s')"
    using Cons.IH [OF V(1) qv, unfolded fr] Cons.prems(3-5) V(2) nv by auto
  have "clears szof (snd ` set (x # xs)) s s'" using clears_trans [OF cv s'(2)] by (simp add: x)
  moreover have "send_queued cf lo i n ethaddr s = Some s'"
    using q(1) n(3) ps(1) u(1,2) s'(1) by (subst send_queued.simps) (simp add: Let_def q_link_def)
  moreover have "arp_table s' = (arp_table s)[i := (arp_table s ! i)\<lparr>arp_q := None\<rparr>]" using s'(3) ei V(2) by simp
  moreover have "arps.more ?t = arps.more s" by simp
  ultimately show ?case using s'(4-7) live V(3,4) u(4) pt(2) x by auto
qed

definition stable_entry :: "nat \<Rightarrow> ip4_addr \<Rightarrow> eth_addr \<Rightarrow> etharp_entry" where
  "stable_entry n ip eth = \<lparr>arp_q = None, arp_ip = ip, arp_netif = Some n, arp_eth = eth, arp_ctime = 0, arp_state = ETHARP_STATE_STABLE\<rparr>"

definition unicast :: "ip4_addr \<Rightarrow> netif \<Rightarrow> bool" where
  "unicast ip nif \<longleftrightarrow> \<not> ip4_addr_isany ip \<and> \<not> ip4_addr_isbroadcast_u32 ip nif \<and> \<not> ip4_addr_ismulticast ip"

text \<open>Entry \<open>i\<close> is stable now, and its queue has been sent.\<close>

lemma settle_ok:
  assumes ok: "arp_ok szof Q s" and i: "i < ARP_TABLE_SIZE" and ip: "arp_ip (arp_table s ! i) = ip" and nif: "length (netif_hwaddr (netifs s n)) = 6" "length ethaddr = 6"
    and c: "\<And>j. j < ARP_TABLE_SIZE \<Longrightarrow> j \<noteq> i \<Longrightarrow> \<not> matches (Some ip) (arp_table s ! j)"
  defines "t \<equiv> upd_entry i (\<lambda>e. e\<lparr>arp_ctime := 0\<rparr>) (upd_entry i (\<lambda>e. e\<lparr>arp_eth := ethaddr\<rparr>)
    (upd_entry i (\<lambda>e. e\<lparr>arp_netif := Some n\<rparr>) (upd_entry i (\<lambda>e. e\<lparr>arp_state := ETHARP_STATE_STABLE\<rparr>) s)))"
  shows "\<exists>s'. send_queued cf lo i n ethaddr t = Some s' \<and> arp_ok szof (Q(i := [])) s' \<and> clears szof (snd ` set (Q i)) s s' \<and>
    arp_table s' = (arp_table s)[i := stable_entry n ip ethaddr] \<and>
    sends lo n (map (\<lambda>x. eth_frame ethaddr (netif_hwaddr (netifs s n)) ETHTYPE_IP (seg s (snd x))) (Q i)) (arps.more s) (arps.more s')"
proof -
  have li: "i < length (arp_table s)" using i arp_okD(2) [OF ok] by simp
  let ?e = "(arp_table s ! i)\<lparr>arp_state := ETHARP_STATE_STABLE, arp_netif := Some n, arp_eth := ethaddr, arp_ctime := 0\<rparr>"
  have tab: "arp_table t = (arp_table s)[i := ?e]" using li by (simp add: t_def)
  have seg: "seg t p = seg s p" for p by (simp add: t_def seg_def load_bytes_def)
  have q: "queue_ok szof t (arp_q (arp_table t ! i)) (Q i)" using arp_okD(4) [OF ok i] li tab by (simp add: t_def)
  obtain s' where s': "send_queued cf lo i n ethaddr t = Some s'" "clears szof (snd ` set (Q i)) t s'"
    "arp_table s' = (arp_table t)[i := (arp_table t ! i)\<lparr>arp_q := None\<rparr>]" "q_entries s' = q_entries t" "etharp_cached_entry s' = etharp_cached_entry t"
    "memp_live szof (tm_pools s') MEMP_ARP_QUEUE = memp_live szof (tm_pools t) MEMP_ARP_QUEUE - fst ` set (Q i)"
    "sends lo n (map (\<lambda>x. eth_frame ethaddr (netif_hwaddr (netifs t n)) ETHTYPE_IP (seg t (snd x))) (Q i)) (arps.more t) (arps.more s')"
    using send_queued_ok [of szof t i "Q i" n ethaddr cf lo] q li nif arp_okD(1) [OF ok] by (auto simp: t_def)
  have "?e\<lparr>arp_q := None\<rparr> = stable_entry n ip ethaddr" using ip by (cases "arp_table s ! i") (simp add: stable_entry_def)
  then have tab': "arp_table s' = (arp_table s)[i := stable_entry n ip ethaddr]" using s'(3) tab li by simp
  have cl: "clears szof (snd ` set (Q i)) s s'" using s'(2) by (simp add: t_def)
  note l = clears_leaves [OF cl]
  have oth: "node_ok szof s' x \<and> qe_next (q_entries s' (fst x)) = qe_next (q_entries s (fst x))" if "j < ARP_TABLE_SIZE" "j \<noteq> i" "x \<in> set (Q j)" "node_ok szof s x" for j x
    using others_node [OF ok i that l] s'(4,6) by (simp add: t_def)
  have "arp_ok szof (Q(i := [])) s'"
    by (rule arp_ok_upd [OF ok i _ tab'])
      (use oth leavesD [OF l] arp_okD(3) [OF ok] s'(4-6) c nif in \<open>auto simp: t_def queue_ok_def entry_ok_def stable_entry_def is_stable_def no_share_def clash_def matches_def ARP_MAXAGE_def\<close>)
  then show ?thesis using s'(1,7) tab' cl seg by (auto simp: t_def)
qed

lemma unique_match:
  assumes ok: "arp_ok szof Q s" and i: "i < ARP_TABLE_SIZE" "matches (Some ip) (arp_table s ! i)" and j: "j < ARP_TABLE_SIZE" "j \<noteq> i"
  shows "\<not> matches (Some ip) (arp_table s ! j)"
  using arp_okD(6) [OF ok i(1) j(1)] i(2) j(2) by (auto simp: matches_def clash_def)

lemma no_match_after:
  assumes "\<forall>e\<in>set T. \<not> matches ip e" "j < length T" "j \<noteq> i"
  shows "\<not> matches ip (T[i := e] ! j)"
  using assms by simp

lemma update_cases [consumes 3, case_names bad refused learned]:
  assumes ok: "arp_ok szof Q s" and nif: "length (netif_hwaddr (netifs s n)) = 6" "length ethaddr = 6"
  obtains (bad) "\<not> unicast ip (netifs s n)" "etharp_update_arp_entry cf lo n ip ethaddr flags s = Some (ERR_ARG, s)"
  | (refused) "unicast ip (netifs s n)" "\<forall>e\<in>set (arp_table s). \<not> matches (Some ip) e" "etharp_update_arp_entry cf lo n ip ethaddr flags s = Some (ERR_MEM, s)"
      "flags AND ETHARP_FLAG_FIND_ONLY \<noteq> 0 \<or> flags AND ETHARP_FLAG_TRY_HARD = 0 \<and> (\<forall>e\<in>set (arp_table s). arp_state e \<noteq> ETHARP_STATE_EMPTY)"
  | (learned) i s' where "unicast ip (netifs s n)" "i < ARP_TABLE_SIZE"
      "matches (Some ip) (arp_table s ! i) \<or> (\<forall>e\<in>set (arp_table s). \<not> matches (Some ip) e) \<and> victim (arp_table s) i \<and> flags AND ETHARP_FLAG_FIND_ONLY = 0"
      "etharp_update_arp_entry cf lo n ip ethaddr flags s = Some (ERR_OK, s')" "arp_ok szof (Q(i := [])) s'" "clears szof (snd ` set (Q i)) s s'"
      "arp_table s' = (arp_table s)[i := stable_entry n ip ethaddr]"
      "sends lo n (if matches (Some ip) (arp_table s ! i) then map (\<lambda>x. eth_frame ethaddr (netif_hwaddr (netifs s n)) ETHTYPE_IP (seg s (snd x))) (Q i) else [])
         (arps.more s) (arps.more s')"
proof (cases "unicast ip (netifs s n)")
  case False
  then show thesis using nif(1) by (intro bad) (auto simp: etharp_update_arp_entry_def unicast_def)
next
  case True
  then have u: "\<not> (ip4_addr_isany ip \<or> ip4_addr_isbroadcast_u32 ip (netifs s n) \<or> ip4_addr_ismulticast ip)" by (simp add: unicast_def)
  from ok show thesis
  proof (cases rule: find_entry_cases [where ip = "Some ip" and cf = cf and flags = flags])
    case (hit i)
    have ip: "arp_ip (arp_table s ! i) = ip" using hit(2) by (simp add: matches_def)
    obtain s' where "send_queued cf lo i n ethaddr (upd_entry i (\<lambda>e. e\<lparr>arp_ctime := 0\<rparr>) (upd_entry i (\<lambda>e. e\<lparr>arp_eth := ethaddr\<rparr>)
        (upd_entry i (\<lambda>e. e\<lparr>arp_netif := Some n\<rparr>) (upd_entry i (\<lambda>e. e\<lparr>arp_state := ETHARP_STATE_STABLE\<rparr>) s)))) = Some s'"
      "arp_ok szof (Q(i := [])) s'" "clears szof (snd ` set (Q i)) s s'" "arp_table s' = (arp_table s)[i := stable_entry n ip ethaddr]"
      "sends lo n (map (\<lambda>x. eth_frame ethaddr (netif_hwaddr (netifs s n)) ETHTYPE_IP (seg s (snd x))) (Q i)) (arps.more s) (arps.more s')"
      using settle_ok [OF ok hit(1) ip nif unique_match [OF ok hit(1,2)], of cf lo] by blast
    then show thesis using True u hit nif(1) by (intro learned [of i s']) (simp_all add: etharp_update_arp_entry_def)
  next
    case refused
    then show thesis using True u nif(1) by (intro that(2)) (simp_all add: etharp_update_arp_entry_def)
  next
    case (fresh i t)
    obtain e where t: "arp_ok szof (Q(i := [])) t" "clears szof (snd ` set (Q i)) s t" "arps.more t = arps.more s" "arp_table t = (arp_table s)[i := e]" "fresh_entry (Some ip) e"
      using fresh(6) by (auto simp: renewed_def)
    have li: "i < length (arp_table s)" using fresh(4) arp_okD(2) [OF ok] by simp
    have ip: "arp_ip (arp_table t ! i) = ip" using t(4,5) li by (simp add: fresh_entry_def)
    have nt: "netifs t = netifs s" by (rule leavesD(2) [OF clears_leaves [OF t(2)]])
    have c: "\<not> matches (Some ip) (arp_table t ! j)" if "j < ARP_TABLE_SIZE" "j \<noteq> i" for j
      unfolding t(4) using no_match_after [OF fresh(1)] that arp_okD(2) [OF ok] by simp
    obtain s' where s': "send_queued cf lo i n ethaddr (upd_entry i (\<lambda>e. e\<lparr>arp_ctime := 0\<rparr>) (upd_entry i (\<lambda>e. e\<lparr>arp_eth := ethaddr\<rparr>)
        (upd_entry i (\<lambda>e. e\<lparr>arp_netif := Some n\<rparr>) (upd_entry i (\<lambda>e. e\<lparr>arp_state := ETHARP_STATE_STABLE\<rparr>) t)))) = Some s'"
      "arp_ok szof (Q(i := [], i := [])) s'" "clears szof {} t s'" "arp_table s' = (arp_table t)[i := stable_entry n ip ethaddr]" "arps.more s' = arps.more t"
      using settle_ok [OF t(1) fresh(4) ip _ nif(2) c, of n cf lo] nif(1) nt by auto
    have "\<not> matches (Some ip) (arp_table s ! i)" using fresh(1) li by simp
    moreover have "clears szof (snd ` set (Q i)) s s'" using clears_trans [OF t(2) s'(3)] by simp
    moreover have "arp_table s' = (arp_table s)[i := stable_entry n ip ethaddr]" using s'(4) t(4) by simp
    moreover have "arp_ok szof (Q(i := [])) s'" using s'(2) by simp
    ultimately show thesis using True u fresh nif(1) s'(1,5) t(3) by (intro learned [of i s']) (simp_all add: etharp_update_arp_entry_def)
  qed
qed

section \<open>The timer and the removal of an interface\<close>

lemma request_ok:
  assumes ok: "arp_ok szof Q s" and tc: "tcpip_inv szof api count maxi s" and nif: "length (netif_hwaddr (netifs s n)) = 6" "length dst = 6"
  shows "\<exists>r s'. etharp_request_dst api cf lo n ip dst s = Some (r, s') \<and> keeps szof {} s s' \<and> arp_ok szof Q s' \<and>
    (if no_room szof PBUF_LINK 28 PBUF_RAM s then r = ERR_MEM \<and> arps.more s' = arps.more s
     else r = ERR_OK \<and> transmits lo n (eth_frame dst (netif_hwaddr (netifs s n)) ETHTYPE_ARP
       (arp_bytes ARP_REQUEST (netif_hwaddr (netifs s n)) (netif_ip (netifs s n)) ethzero ip)) (arps.more s) (arps.more s'))"
proof -
  obtain r s' where "etharp_request_dst api cf lo n ip dst s = Some (r, s')" "keeps szof {} s s'"
    "if no_room szof PBUF_LINK 28 PBUF_RAM s then r = ERR_MEM \<and> arps.more s' = arps.more s
     else r = ERR_OK \<and> transmits lo n (eth_frame dst (netif_hwaddr (netifs s n)) ETHTYPE_ARP
       (arp_bytes ARP_REQUEST (netif_hwaddr (netifs s n)) (netif_ip (netifs s n)) ethzero ip)) (arps.more s) (arps.more s')"
    unfolding etharp_request_dst_def using raw_ok [OF arp_okD(1) [OF ok] tc nif(1) nif(1) nif(2) nif(1), of ethzero cf lo "netif_ip (netifs s n)" ip ARP_REQUEST]
    by (auto simp: ethzero_def)
  moreover from this(2) have "arp_ok szof Q s'" by (rule arp_ok_keeps [OF ok]) simp
  ultimately show ?thesis by blast
qed

lemma owned_clear: "owned (Q(i := [])) \<subseteq> owned Q"
  unfolding owned_def by (intro UN_mono) auto

text \<open>A loop over the table whose body replaces entry \<open>i\<close> by \<open>g\<close> of it, and gives up the packets \<open>pk\<close> in the queue of an entry that is \<open>gone\<close>.\<close>

locale table_sweep =
  fixes inv :: "'s \<Rightarrow> bool" and ok :: "(nat \<Rightarrow> 'x list) \<Rightarrow> 's \<Rightarrow> bool" and table :: "'s \<Rightarrow> 'e list" and pk :: "'x list \<Rightarrow> 'p set"
    and rel :: "'p set \<Rightarrow> 's \<Rightarrow> 's \<Rightarrow> bool" and body :: "nat \<Rightarrow> 's \<Rightarrow> 's option" and loop :: "nat \<Rightarrow> 's \<Rightarrow> 's option"
    and g :: "'e \<Rightarrow> 'e" and gone :: "'e \<Rightarrow> bool" and N :: nat
  assumes loop_eq: "loop i s = (if i < N then body i s \<bind> loop (i + 1) else Some s)"
    and size: "ok Q s \<Longrightarrow> length (table s) = N"
    and rel_refl: "ok Q s \<Longrightarrow> rel {} s s"
    and rel_trans: "rel X s t \<Longrightarrow> rel Y t u \<Longrightarrow> rel (X \<union> Y) s u"
    and body_ok: "inv s \<Longrightarrow> ok Q s \<Longrightarrow> i < N \<Longrightarrow> \<exists>s'. body i s = Some s' \<and> inv s' \<and>
      ok (Q(i := (if gone (table s ! i) then [] else Q i))) s' \<and> rel (if gone (table s ! i) then pk (Q i) else {}) s s' \<and> table s' = (table s)[i := g (table s ! i)]"
begin

lemma sweep_from:
  assumes "inv s" "ok Q s" "i \<le> N"
  shows "\<exists>s'. loop i s = Some s' \<and> inv s' \<and> ok (\<lambda>j. if i \<le> j \<and> j < N \<and> gone (table s ! j) then [] else Q j) s' \<and>
    rel (\<Union>j\<in>{i..<N}. if gone (table s ! j) then pk (Q j) else {}) s s' \<and> table s' = take i (table s) @ map g (drop i (table s))"
  using assms
proof (induction "N - i" arbitrary: i s Q)
  case 0
  then have N: "i = N" by simp
  have "(\<lambda>j. if N \<le> j \<and> j < N \<and> gone (table s ! j) then [] else Q j) = Q" by (rule ext) auto
  then show ?case using 0 N size [OF 0(3)] rel_refl [OF 0(3)] by (subst loop_eq) simp
next
  case (Suc k)
  then have i: "i < N" by simp
  let ?Q = "Q(i := (if gone (table s ! i) then [] else Q i))"
  let ?X = "if gone (table s ! i) then pk (Q i) else {}"
  obtain t where t: "body i s = Some t" "inv t" "ok ?Q t" "rel ?X s t" "table t = (table s)[i := g (table s ! i)]"
    using body_ok [OF Suc(3,4) i] by blast
  have k: "k = N - (i + 1)" using Suc.hyps(2) by simp
  obtain s' where s': "loop (i + 1) t = Some s'" "inv s'" "ok (\<lambda>j. if i + 1 \<le> j \<and> j < N \<and> gone (table t ! j) then [] else ?Q j) s'"
    "rel (\<Union>j\<in>{i + 1..<N}. if gone (table t ! j) then pk (?Q j) else {}) t s'" "table s' = take (i + 1) (table t) @ map g (drop (i + 1) (table t))"
    using Suc.hyps(1) [OF k t(2,3)] i by auto
  have len: "length (table s) = N" by (rule size [OF Suc(4)])
  have e1: "(\<Union>j\<in>{i + 1..<N}. if gone (table t ! j) then pk (?Q j) else {}) = (\<Union>j\<in>{i + 1..<N}. if gone (table s ! j) then pk (Q j) else {})"
    using t(5) by (intro SUP_cong) auto
  have e2: "{i..<N} = insert i {i + 1..<N}" using i by auto
  have r: "rel (\<Union>j\<in>{i..<N}. if gone (table s ! j) then pk (Q j) else {}) s s'" using rel_trans [OF t(4) s'(4)] unfolding e1 e2 UN_insert .
  have "table s' = take i (table s) @ map g (drop i (table s))"
    using s'(5) t(5) i len by (simp add: take_Suc_conv_app_nth Cons_nth_drop_Suc [symmetric] drop_update_cancel)
  moreover have "(\<lambda>j. if i + 1 \<le> j \<and> j < N \<and> gone (table t ! j) then [] else ?Q j) = (\<lambda>j. if i \<le> j \<and> j < N \<and> gone (table s ! j) then [] else Q j)"
  proof (rule ext)
    show "(if i + 1 \<le> j \<and> j < N \<and> gone (table t ! j) then [] else ?Q j) = (if i \<le> j \<and> j < N \<and> gone (table s ! j) then [] else Q j)" for j
      using t(5) i len by (cases "j = i") auto
  qed
  ultimately show ?case using t(1) s' i r by (subst loop_eq) simp
qed

lemma sweep:
  assumes "inv s" "ok Q s"
  shows "\<exists>s'. loop 0 s = Some s' \<and> inv s' \<and> ok (\<lambda>j. if j < N \<and> gone (table s ! j) then [] else Q j) s' \<and>
    rel (\<Union>j\<in>{0..<N}. if gone (table s ! j) then pk (Q j) else {}) s s' \<and> table s' = map g (table s)"
  using sweep_from [OF assms, of 0] by simp

end

definition expires :: "etharp_entry \<Rightarrow> bool" where
  "expires e \<longleftrightarrow> is_stable (arp_state e) \<and> ARP_MAXAGE \<le> arp_ctime e + 1 \<or> arp_state e = ETHARP_STATE_PENDING \<and> ARP_MAXPENDING \<le> arp_ctime e + 1"

fun tick :: "etharp_state \<Rightarrow> etharp_state" where
  "tick ETHARP_STATE_STABLE_REREQUESTING_1 = ETHARP_STATE_STABLE_REREQUESTING_2"
| "tick ETHARP_STATE_STABLE_REREQUESTING_2 = ETHARP_STATE_STABLE"
| "tick st = st"

definition aged :: "etharp_entry \<Rightarrow> etharp_entry" where
  "aged e = (if arp_state e = ETHARP_STATE_EMPTY then e else if expires e then blank_entry else e\<lparr>arp_ctime := arp_ctime e + 1, arp_state := tick (arp_state e)\<rparr>)"

lemma leaves_owned:
  "i < ARP_TABLE_SIZE \<Longrightarrow> leaves szof (snd ` set (Q i)) s s' \<Longrightarrow> leaves szof (owned Q) s s'"
  by (erule leaves_mono) (auto simp: owned_def)

text \<open>The new state and age of an entry that stays.\<close>

lemma aged_ok:
  assumes ok: "arp_ok szof Q s" and i: "i < ARP_TABLE_SIZE" and e: "arp_state (arp_table s ! i) \<noteq> ETHARP_STATE_EMPTY" "\<not> expires (arp_table s ! i)"
  shows "arp_ok szof Q (upd_entry i aged s)"
proof (rule arp_ok_entry [OF ok i])
  let ?e = "arp_table s ! i"
  have t: "tick st = ETHARP_STATE_PENDING \<longleftrightarrow> st = ETHARP_STATE_PENDING" "tick st = ETHARP_STATE_EMPTY \<longleftrightarrow> st = ETHARP_STATE_EMPTY" for st by (cases st; simp)+
  show "arp_q (aged ?e) = arp_q ?e" using e by (simp add: aged_def)
  show "entry_ok (netifs s) (Q i) (aged ?e)" using arp_okD(5) [OF ok i] e
    by (auto simp: entry_ok_def aged_def expires_def is_stable_def t)
  show "\<not> clash (aged ?e) (arp_table s ! j)" if "j < ARP_TABLE_SIZE" "j \<noteq> i" for j
    using arp_okD(6) [OF ok i that(1)] that(2) e by (auto simp: clash_def aged_def t)
qed

lemma tmr_entry_ok:
  assumes tc: "tcpip_inv szof api count maxi s" and ok: "arp_ok szof Q s" and i: "i < ARP_TABLE_SIZE"
  shows "\<exists>s'. tmr_entry api cf lo i s = Some s' \<and> tcpip_inv szof api count maxi s' \<and>
    arp_ok szof (Q(i := (if expires (arp_table s ! i) then [] else Q i))) s' \<and> clears szof (if expires (arp_table s ! i) then snd ` set (Q i) else {}) s s' \<and>
    arp_table s' = (arp_table s)[i := aged (arp_table s ! i)]"
proof -
  let ?e = "arp_table s ! i"
  have li: "i < length (arp_table s)" using i arp_okD(2) [OF ok] by simp
  have ent: "entry_ok (netifs s) (Q i) ?e" by (rule arp_okD(5) [OF ok i])
  have refl: "clears szof {} s s" unfolding clears_none by (rule leaves_refl [OF arp_okD(1) [OF ok]])
  consider (empty) "arp_state ?e = ETHARP_STATE_EMPTY" | (old) "arp_state ?e \<noteq> ETHARP_STATE_EMPTY" "expires ?e" | (young) "arp_state ?e \<noteq> ETHARP_STATE_EMPTY" "\<not> expires ?e"
    by blast
  then show ?thesis
  proof cases
    case empty
    then show ?thesis using ok tc refl by (simp add: tmr_entry_def expires_def is_stable_def aged_def)
  next
    case old
    let ?f = "\<lambda>e. e\<lparr>arp_ctime := u16 (arp_ctime e + 1)\<rparr>"
    have "u16 (arp_ctime ?e + 1) = arp_ctime ?e + 1" using ent old(1)
      by (cases "arp_state ?e") (auto simp: entry_ok_def is_stable_def ARP_MAXAGE_def ARP_MAXPENDING_def u16_id)
    then have eq: "tmr_entry api cf lo i s = etharp_free_entry cf i (upd_entry i ?f s)" using old li by (auto simp: tmr_entry_def Let_def expires_def)
    obtain s' where s': "etharp_free_entry cf i (upd_entry i ?f s) = Some s'" "arp_ok szof (Q(i := [])) s'" "clears szof (snd ` set (Q i)) s s'"
      "arp_table s' = (arp_table s)[i := blank_entry]" using free_entry_upd [OF ok i, of ?f cf] by auto
    then show ?thesis using eq old leaves_tcpip [OF clears_leaves [OF s'(3)] tc] by (simp add: aged_def)
  next
    case young
    let ?f = "\<lambda>e. e\<lparr>arp_ctime := u16 (arp_ctime e + 1)\<rparr>"
    let ?s = "upd_entry i aged s"
    have u: "u16 (arp_ctime ?e + 1) = arp_ctime ?e + 1" using ent young(1)
      by (cases "arp_state ?e") (auto simp: entry_ok_def is_stable_def ARP_MAXAGE_def ARP_MAXPENDING_def u16_id)
    have no: "\<not> (ARP_MAXAGE \<le> arp_ctime ?e + 1 \<or> arp_state ?e = ETHARP_STATE_PENDING \<and> ARP_MAXPENDING \<le> arp_ctime ?e + 1)"
      using young ent by (auto simp: expires_def is_stable_def entry_ok_def ARP_MAXAGE_def ARP_MAXPENDING_def)
    have ok': "arp_ok szof Q ?s" by (rule aged_ok [OF ok i young])
    have ag: "upd_entry i g (upd_entry i ?f s) = ?s" if "g (?f ?e) = aged ?e" for g using li that by (simp add: upd_entry_def)
    have id: "upd_entry i ?f s = ?s" if "?f ?e = aged ?e" using that by (simp add: upd_entry_def)
    have af: "arp_state (aged ?e) = tick (arp_state ?e)" "arp_ctime (aged ?e) = arp_ctime ?e + 1" "arp_netif (aged ?e) = arp_netif ?e" "arp_ip (aged ?e) = arp_ip ?e"
      using young by (simp_all add: aged_def)
    show ?thesis
    proof (cases "arp_state ?e = ETHARP_STATE_PENDING")
      case True
      then have f: "?f ?e = aged ?e" using young u by (simp add: aged_def)
      obtain n where n: "arp_netif ?e = Some n" "length (netif_hwaddr (netifs s n)) = 6" using ent True by (auto simp: entry_ok_def)
      obtain r s' where s': "etharp_request_dst api cf lo n (arp_ip ?e) ethbroadcast ?s = Some (r, s')" "keeps szof {} ?s s'" "arp_ok szof Q s'"
        using request_ok [OF ok' _, of api count maxi n ethbroadcast cf lo "arp_ip ?e"] tc n(2) by (auto simp: ethbroadcast_def)
      have "tmr_entry api cf lo i s = Some s'" using True no n(1) s'(1) li id [OF f] by (simp add: tmr_entry_def Let_def etharp_request_def af)
      moreover have l: "leaves szof {} s s'" using keeps_leaves [OF s'(2)] by simp
      ultimately show ?thesis using s'(3) keepsD(2) [OF s'(2)] young leaves_tcpip [OF l tc] by (simp add: clears_none)
    next
      case False
      have "tmr_entry api cf lo i s = Some ?s"
      proof (cases "arp_state ?e = ETHARP_STATE_STABLE")
        case True
        then have f: "?f ?e = aged ?e" using young u by (simp add: aged_def)
        show ?thesis using True no li id [OF f] by (simp add: tmr_entry_def Let_def af)
      next
        case ns: False
        then show ?thesis using False young u no li ag [of "\<lambda>e. e\<lparr>arp_state := tick (arp_state ?e)\<rparr>"]
          by (cases "arp_state ?e") (simp_all add: tmr_entry_def Let_def aged_def)
      qed
      then show ?thesis using ok' young refl tc by simp
    qed
  qed
qed

interpretation timer: table_sweep "tcpip_inv szof api count maxi" "arp_ok szof" arp_table "\<lambda>xs. snd ` set xs" "clears szof"
    "tmr_entry api cf lo" "tmr_loop api cf lo" aged expires ARP_TABLE_SIZE for szof api count maxi cf lo
proof
  show "tmr_loop api cf lo i s = (if i < ARP_TABLE_SIZE then tmr_entry api cf lo i s \<bind> tmr_loop api cf lo (i + 1) else Some s)" for i s
    by (subst tmr_loop.simps) simp
  show "clears szof (X \<union> Y) s u" if "clears szof X s t" "clears szof Y t u" for X Y s t u by (rule clears_trans [OF that])
  show "\<exists>s'. tmr_entry api cf lo i s = Some s' \<and> tcpip_inv szof api count maxi s' \<and> arp_ok szof (Q(i := if expires (arp_table s ! i) then [] else Q i)) s' \<and>
      clears szof (if expires (arp_table s ! i) then snd ` set (Q i) else {}) s s' \<and> arp_table s' = (arp_table s)[i := aged (arp_table s ! i)]"
    if "tcpip_inv szof api count maxi s" "arp_ok szof Q s" "i < ARP_TABLE_SIZE" for s Q i
    by (rule tmr_entry_ok [OF that])
qed (simp_all add: arp_okD(2) clears_none leaves_refl arp_okD(1))

definition bound_to :: "nat \<Rightarrow> etharp_entry \<Rightarrow> bool" where
  "bound_to n e \<longleftrightarrow> arp_state e \<noteq> ETHARP_STATE_EMPTY \<and> arp_netif e = Some n"

definition unbound :: "nat \<Rightarrow> etharp_entry \<Rightarrow> etharp_entry" where
  "unbound n e = (if bound_to n e then blank_entry else e)"

interpretation cleanup: table_sweep "tcpip_inv szof api count maxi" "arp_ok szof" arp_table "\<lambda>xs. snd ` set xs" "clears szof"
    "\<lambda>i s. if bound_to n (arp_table s ! i) then etharp_free_entry cf i s else Some s" "cleanup_loop cf n" "unbound n" "bound_to n" ARP_TABLE_SIZE for szof api count maxi cf n
proof
  show "cleanup_loop cf n i s = (if i < ARP_TABLE_SIZE then (if bound_to n (arp_table s ! i) then etharp_free_entry cf i s else Some s) \<bind> cleanup_loop cf n (i + 1) else Some s)" for i s
    by (subst cleanup_loop.simps) (simp add: bound_to_def)
  show "clears szof (X \<union> Y) s u" if "clears szof X s t" "clears szof Y t u" for X Y s t u by (rule clears_trans [OF that])
  show "\<exists>s'. (if bound_to n (arp_table s ! i) then etharp_free_entry cf i s else Some s) = Some s' \<and> tcpip_inv szof api count maxi s' \<and>
      arp_ok szof (Q(i := if bound_to n (arp_table s ! i) then [] else Q i)) s' \<and> clears szof (if bound_to n (arp_table s ! i) then snd ` set (Q i) else {}) s s' \<and>
      arp_table s' = (arp_table s)[i := unbound n (arp_table s ! i)]"
    if H: "tcpip_inv szof api count maxi s" "arp_ok szof Q s" "i < ARP_TABLE_SIZE" for s Q i
  proof (cases "bound_to n (arp_table s ! i)")
    case True
    obtain s' where s': "etharp_free_entry cf i s = Some s'" "arp_ok szof (Q(i := [])) s'" "clears szof (snd ` set (Q i)) s s'" "arp_table s' = (arp_table s)[i := blank_entry]"
      using free_entry_ok [OF H(2,3), of cf] by blast
    then show ?thesis using True leaves_tcpip [OF clears_leaves [OF s'(3)] H(1)] by (simp add: unbound_def)
  next
    case False
    then show ?thesis using H leaves_refl [OF arp_okD(1) [OF H(2)]] by (simp add: unbound_def clears_none)
  qed
qed (simp_all add: arp_okD(2) clears_none leaves_refl arp_okD(1))

section \<open>Queueing\<close>

lemma q_last_ok:
  assumes "chain (q_link s) (Some r) (map fst xs)"
  shows "q_last s r k = Some (fst (last xs), k + length xs - 1)"
  using assms
proof (induction xs arbitrary: r k)
  case (Cons x xs)
  then have r: "r = fst x" "chain (q_link s) (qe_next (q_entries s r)) (map fst xs)" by auto
  show ?case
  proof (cases xs)
    case Nil
    then have "qe_next (q_entries s r) = None" using r(2) by simp
    then show ?thesis using Nil r(1) by (subst q_last.simps) simp
  next
    case (Cons y ys)
    then have "qe_next (q_entries s r) = Some (fst y)" using r(2) by simp
    then show ?thesis using Cons r Cons.IH [of "fst y" "k + 1"] by (subst q_last.simps) simp
  qed
qed simp

lemma upd_q_fields [simp]:
  "arp_table (upd_q a f s) = arp_table s" "etharp_cached_entry (upd_q a f s) = etharp_cached_entry s"
  "q_entries (upd_q a f s) = (q_entries s)(a := f (q_entries s a))" "netifs (upd_q a f s) = netifs s" "tm_pools (upd_q a f s) = tm_pools s"
  "arps.more (upd_q a f s) = arps.more s"
  by (simp_all add: upd_q_def)

lemma upd_q_pbufs [simp]:
  "pbufs_inv szof (upd_q a f s) = pbufs_inv szof s" "qpkt szof (upd_q a f s) p = qpkt szof s p" "leaves szof X s (upd_q a f s') = leaves szof X s s'"
  "seg (upd_q a f s) p = seg s p"
  by (simp_all add: upd_q_def pbufs_inv_def qpkt_def live_pbuf_def payload_in_def header_room_def leaves_def block_def load_def fun_eq_iff seg_def load_bytes_def
      split: region.splits pbuf_type.splits)

text \<open>A new node is linked behind the last one.\<close>

definition link_last :: "nat \<Rightarrow> (nat \<times> ptr) list \<Rightarrow> nat \<Rightarrow> ('h, 'z) arps_scheme \<Rightarrow> ('h, 'z) arps_scheme" where
  "link_last i xs a s = (if xs = [] then upd_entry i (\<lambda>e. e\<lparr>arp_q := Some a\<rparr>) s else upd_q (fst (last xs)) (\<lambda>e. e\<lparr>qe_next := Some a\<rparr>) s)"

lemma link_last_ok:
  assumes q: "queue_ok szof s (arp_q (arp_table s ! i)) xs" and a: "a \<in> memp_live szof (tm_pools s) MEMP_ARP_QUEUE" "a \<notin> fst ` set xs" "q_entries s a = \<lparr>qe_next = None, qe_p = Some p\<rparr>"
    and p: "qpkt szof s p" "p \<notin> snd ` set xs" and i: "i < length (arp_table s)"
  shows "queue_ok szof (link_last i xs a s) (arp_q (arp_table (link_last i xs a s) ! i)) (xs @ [(a, p)])"
proof (cases "xs = []")
  case True
  then show ?thesis using a p i by (simp add: link_last_def queue_ok_def node_ok_def)
next
  case False
  let ?l = "fst (last xs)"
  let ?s = "upd_q ?l (\<lambda>e. e\<lparr>qe_next := Some a\<rparr>) s"
  have c: "chain (q_link s) (arp_q (arp_table s ! i)) (map fst xs)" "distinct (map snd xs)" "\<forall>x\<in>set xs. node_ok szof s x" using q by (auto simp: queue_ok_def)
  have d: "distinct (map fst xs)" by (rule chain_distinct [OF c(1)])
  have l: "last (map fst xs) = ?l" "?l \<in> fst ` set xs" using False by (simp_all add: last_map)
  then have la: "?l \<noteq> a" using a(2) by auto
  have "chain (q_link ?s) (arp_q (arp_table s ! i)) (map fst xs @ [a])"
  proof (rule chain_link [OF c(1)])
    show "q_link ?s (last (map fst xs)) = Some a" using l(1) by (simp add: q_link_def)
    show "chain (q_link ?s) (Some a) [a]" using la a(3) by (simp add: fun_upd_def)
    show "q_link ?s x = q_link s x" if "x \<in> set (butlast (map fst xs))" for x
    proof -
      have "x \<noteq> ?l" using last_butlast [OF d] that l(1) False by auto
      then show ?thesis by (simp add: q_link_def)
    qed
  qed (use False in simp)
  moreover have "node_ok szof ?s x" if "x \<in> set xs" for x using bspec [OF c(3) that] by (auto simp: node_ok_def)
  moreover have "node_ok szof ?s (a, p)" using a p la by (simp add: node_ok_def)
  ultimately show ?thesis using False c(2) p(2) by (simp add: link_last_def queue_ok_def)
qed

text \<open>The first node and its packet are given up.\<close>

lemma pop_ok:
  assumes inv: "pbufs_inv szof s" and q: "queue_ok szof s (arp_q (arp_table s ! i)) ((b, p) # xs)" and i: "i < length (arp_table s)"
  shows "\<exists>c t ps. pbuf_free cf (Some p) (upd_entry i (\<lambda>e. e\<lparr>arp_q := qe_next (q_entries s b)\<rparr>) s) = Some (c, t) \<and>
    memp_free MEMP_ARP_QUEUE (Some b) (tm_pools t) = Some ps \<and> clears szof {p} s (t\<lparr>tm_pools := ps\<rparr>) \<and>
    queue_ok szof (t\<lparr>tm_pools := ps\<rparr>) (qe_next (q_entries s b)) xs \<and>
    arp_table t = (arp_table s)[i := (arp_table s ! i)\<lparr>arp_q := qe_next (q_entries s b)\<rparr>] \<and> q_entries t = q_entries s \<and>
    etharp_cached_entry t = etharp_cached_entry s \<and> arps.more t = arps.more s \<and>
    memp_live szof ps MEMP_ARP_QUEUE = memp_live szof (tm_pools s) MEMP_ARP_QUEUE - {b}"
proof -
  let ?s = "upd_entry i (\<lambda>e. e\<lparr>arp_q := qe_next (q_entries s b)\<rparr>) s"
  have c: "chain (q_link s) (qe_next (q_entries s b)) (map fst xs)" "p \<notin> snd ` set xs" "distinct (map snd xs)" "node_ok szof s (b, p)" "\<forall>x\<in>set xs. node_ok szof s x"
    using q by (auto simp: queue_ok_def)
  have b: "b \<notin> fst ` set xs" using chain_distinct [of "q_link s" _ "b # map fst xs"] q by (auto simp: queue_ok_def)
  obtain k t where t: "pbuf_free cf (Some p) ?s = Some (k, t)" "keeps szof {p} ?s t" "arps.more t = arps.more ?s" "block szof t p = None"
    using free_qpkt [of szof ?s p cf] inv c(4) by (auto simp: node_ok_def)
  note T = keepsD [OF t(2)]
  have "b \<in> memp_live szof (tm_pools t) MEMP_ARP_QUEUE" using c(4) T(6) by (simp add: node_ok_def memp_live_def)
  then obtain ps where ps: "memp_free MEMP_ARP_QUEUE (Some b) (tm_pools t) = Some ps" "leaves szof {} t (t\<lparr>tm_pools := ps\<rparr>)"
    "memp_live szof ps MEMP_ARP_QUEUE = memp_live szof (tm_pools t) MEMP_ARP_QUEUE - {b}" using node_free [OF T(1)] by blast
  have live: "memp_live szof ps MEMP_ARP_QUEUE = memp_live szof (tm_pools s) MEMP_ARP_QUEUE - {b}" using ps(3) T(6) by (simp add: memp_live_def)
  have "leaves szof {p} ?s (t\<lparr>tm_pools := ps\<rparr>)" by (rule leaves_trans [OF keeps_leaves [OF t(2)] leaves_mono [OF ps(2)]]) simp
  then have l: "leaves szof {p} s (t\<lparr>tm_pools := ps\<rparr>)" by simp
  have cl: "clears szof {p} s (t\<lparr>tm_pools := ps\<rparr>)" using l t(4) leaves_blocks [OF ps(2), of p] by (simp add: clears_def)
  have "queue_ok szof s (qe_next (q_entries s b)) xs" using c by (simp add: queue_ok_def)
  then have "queue_ok szof (t\<lparr>tm_pools := ps\<rparr>) (qe_next (q_entries s b)) xs"
  proof (rule queue_ok_cong)
    fix y assume y: "y \<in> set xs" "node_ok szof s y"
    have "fst y \<noteq> b" "snd y \<notin> {p}" using y(1) b c(2) by auto
    then show "node_ok szof (t\<lparr>tm_pools := ps\<rparr>) y \<and> qe_next (q_entries (t\<lparr>tm_pools := ps\<rparr>) (fst y)) = qe_next (q_entries s (fst y))"
      using leaves_node [OF l y(2)] T(4) y(2) live by (simp add: node_ok_def)
  qed
  then show ?thesis using t(1,3) ps(1) cl T(2-4) live by (intro exI [of _ k] exI [of _ t] exI [of _ ps]) simp
qed

definition push :: "(nat \<times> ptr) list \<Rightarrow> nat \<times> ptr \<Rightarrow> (nat \<times> ptr) list" where
  "push xs x = (if length xs < ARP_QUEUE_LEN then xs @ [x] else tl xs @ [x])"

text \<open>Taking a node and filling it in, up to where it is linked.\<close>

lemma enqueue_linked:
  assumes ok: "arp_ok szof Q s" and i: "i < ARP_TABLE_SIZE" and p: "qpkt szof s p" "p \<notin> owned Q" and a: "a \<notin> memp_live szof (tm_pools s) MEMP_ARP_QUEUE"
    and ps: "leaves szof {} s (s\<lparr>tm_pools := ps\<rparr>)" "memp_live szof ps MEMP_ARP_QUEUE = insert a (memp_live szof (tm_pools s) MEMP_ARP_QUEUE)"
  defines "t \<equiv> link_last i (Q i) a (upd_q a (\<lambda>e. e\<lparr>qe_next := None, qe_p := Some p\<rparr>) (s\<lparr>tm_pools := ps\<rparr>))"
  shows "queue_ok szof t (arp_q (arp_table t ! i)) (Q i @ [(a, p)])" "leaves szof {} s t" "arps.more t = arps.more s" "etharp_cached_entry t = etharp_cached_entry s"
    "\<exists>h. arp_table t = (arp_table s)[i := (arp_table s ! i)\<lparr>arp_q := h\<rparr>]" "memp_live szof (tm_pools t) MEMP_ARP_QUEUE = insert a (memp_live szof (tm_pools s) MEMP_ARP_QUEUE)"
    "\<And>b. b \<notin> fst ` set (Q i) \<Longrightarrow> b \<noteq> a \<Longrightarrow> q_entries t b = q_entries s b"
proof -
  let ?s = "s\<lparr>tm_pools := ps\<rparr>"
  let ?u = "upd_q a (\<lambda>e. e\<lparr>qe_next := None, qe_p := Some p\<rparr>) ?s"
  have li: "i < length (arp_table s)" using i arp_okD(2) [OF ok] by simp
  have q: "queue_ok szof s (arp_q (arp_table s ! i)) (Q i)" by (rule arp_okD(4) [OF ok i])
  have na: "a \<notin> fst ` set (Q i)" using q a by (auto simp: queue_ok_def node_ok_def)
  have lu: "leaves szof {} s ?u" using ps(1) by simp
  have "node_ok szof ?u x \<and> qe_next (q_entries ?u (fst x)) = qe_next (q_entries s (fst x))" if "x \<in> set (Q i)" "node_ok szof s x" for x
  proof (rule leaves_node [OF lu that(2)])
    have "fst x \<noteq> a" using that(1) na by auto
    then show "q_entries ?u (fst x) = q_entries s (fst x)" by simp
    show "fst x \<in> memp_live szof (tm_pools ?u) MEMP_ARP_QUEUE" using that(2) ps(2) by (simp add: node_ok_def)
  qed simp
  with q have "queue_ok szof ?u (arp_q (arp_table s ! i)) (Q i)" by (rule queue_ok_cong)
  moreover have "qpkt szof ?u p" using leaves_qpkt(1) [OF lu p(1)] by simp
  moreover have "p \<notin> snd ` set (Q i)" using p(2) i by (auto simp: owned_def)
  moreover have "q_entries ?u a = \<lparr>qe_next = None, qe_p = Some p\<rparr>" by (cases "q_entries s a") simp
  ultimately show "queue_ok szof t (arp_q (arp_table t ! i)) (Q i @ [(a, p)])"
    unfolding t_def using link_last_ok [of szof ?u i "Q i" a p] li na ps(2) by simp
  show "leaves szof {} s t" using lu by (simp add: t_def link_last_def)
  show "arps.more t = arps.more s" "etharp_cached_entry t = etharp_cached_entry s" by (simp_all add: t_def link_last_def)
  have e: "(arp_table s ! i)\<lparr>arp_q := arp_q (arp_table s ! i)\<rparr> = arp_table s ! i" by simp
  show "\<exists>h. arp_table t = (arp_table s)[i := (arp_table s ! i)\<lparr>arp_q := h\<rparr>]"
    by (cases "Q i = []") (auto simp: t_def link_last_def intro: exI [of _ "arp_q (arp_table s ! i)"])
  show "memp_live szof (tm_pools t) MEMP_ARP_QUEUE = insert a (memp_live szof (tm_pools s) MEMP_ARP_QUEUE)" using ps(2) by (simp add: t_def link_last_def)
  show "q_entries t b = q_entries s b" if "b \<notin> fst ` set (Q i)" "b \<noteq> a" for b
  proof (cases "Q i = []")
    case False
    then have "fst (last (Q i)) \<noteq> b" using that(1) by auto
    then show ?thesis using that(2) False by (simp add: t_def link_last_def)
  qed (use that in \<open>simp add: t_def link_last_def\<close>)
qed

lemma disjoint_insert: "A \<subseteq> insert a B \<Longrightarrow> B \<inter> C = {} \<Longrightarrow> a \<notin> C \<Longrightarrow> A \<inter> C = {}"
  by blast

text \<open>The queue of a pending entry has changed to \<open>ys\<close>, which consists of old nodes and the new one.\<close>

lemma requeued:
  assumes ok: "arp_ok szof Q s" and i: "i < ARP_TABLE_SIZE" and st: "arp_state (arp_table s ! i) = ETHARP_STATE_PENDING"
    and u: "leaves szof X s u" "X \<subseteq> snd ` set (Q i)" "etharp_cached_entry u = etharp_cached_entry s" "arp_table u = (arp_table s)[i := (arp_table s ! i)\<lparr>arp_q := h\<rparr>]"
    and q: "\<And>b. b \<notin> fst ` set (Q i) \<Longrightarrow> b \<noteq> a \<Longrightarrow> q_entries u b = q_entries s b"
    and live: "memp_live szof (tm_pools u) MEMP_ARP_QUEUE = (memp_live szof (tm_pools s) MEMP_ARP_QUEUE - fst ` set (Q i)) \<union> fst ` set ys"
    and ys: "queue_ok szof u h ys" "length ys \<le> ARP_QUEUE_LEN" "set ys \<subseteq> insert (a, p) (set (Q i))"
    and new: "a \<notin> memp_live szof (tm_pools s) MEMP_ARP_QUEUE" "p \<notin> owned Q"
  shows "arp_ok szof (Q(i := ys)) u"
proof (rule arp_ok_upd [OF ok i leavesD(1) [OF u(1)] u(4)])
  show "etharp_cached_entry u < ARP_TABLE_SIZE" "netifs u = netifs s" using arp_okD(3) [OF ok] u(3) leavesD(2) [OF u(1)] by simp_all
  show "queue_ok szof u (arp_q ((arp_table s ! i)\<lparr>arp_q := h\<rparr>)) ys" using ys(1) by simp
  show "entry_ok (netifs s) ys ((arp_table s ! i)\<lparr>arp_q := h\<rparr>)" using arp_okD(5) [OF ok i] st ys(2) by (simp add: entry_ok_def)
  fix j assume j: "j < ARP_TABLE_SIZE" "j \<noteq> i"
  have ns: "no_share (Q i) (Q j)" "\<not> clash (arp_table s ! i) (arp_table s ! j)" using arp_okD(6) [OF ok i j(1)] j(2) by auto
  have nq: "\<forall>x\<in>set (Q j). node_ok szof s x" using arp_okD(4) [OF ok j(1)] by (simp add: queue_ok_def)
  have na: "a \<notin> fst ` set (Q j)" using new(1) nq by (auto simp: node_ok_def)
  have np: "p \<notin> snd ` set (Q j)" using new(2) j(1) by (auto simp: owned_def)
  have "fst ` set ys \<subseteq> insert a (fst ` set (Q i))" "snd ` set ys \<subseteq> insert p (snd ` set (Q i))" using image_mono [OF ys(3), of fst] image_mono [OF ys(3), of snd] by simp_all
  then have "no_share ys (Q j)" using ns(1) disjoint_insert [OF _ _ na] disjoint_insert [OF _ _ np] unfolding no_share_def by simp
  then show "no_share ys (Q j) \<and> \<not> clash ((arp_table s ! i)\<lparr>arp_q := h\<rparr>) (arp_table s ! j)" using ns(2) by (simp add: clash_def)
  fix x assume x: "x \<in> set (Q j)" "node_ok szof s x"
  have o: "fst x \<notin> fst ` set (Q i)" "snd x \<notin> snd ` set (Q i)" "fst x \<noteq> a" using ns(1) x(1) na by (auto simp: no_share_def)
  then show "node_ok szof u x \<and> qe_next (q_entries u (fst x)) = qe_next (q_entries s (fst x))"
    using leaves_node [OF u(1) x(2)] u(2) q live x(2) by (auto simp: node_ok_def)
qed (rule live)

lemma enqueue_ok:
  assumes ok: "arp_ok szof Q s" and i: "i < ARP_TABLE_SIZE" and st: "arp_state (arp_table s ! i) = ETHARP_STATE_PENDING" and p: "qpkt szof s p" "p \<notin> owned Q"
  shows "\<exists>r s' Q'. enqueue cf i p s = Some (r, s') \<and> arp_ok szof Q' s' \<and> arps.more s' = arps.more s \<and>
    (\<exists>h. arp_table s' = (arp_table s)[i := (arp_table s ! i)\<lparr>arp_q := h\<rparr>]) \<and>
    (if card (memp_live szof (tm_pools s) MEMP_ARP_QUEUE) = memp_num MEMP_ARP_QUEUE then r = ERR_MEM \<and> Q' = Q \<and> clears szof {p} s s'
     else r = ERR_OK \<and> (\<exists>a. Q' = Q(i := push (Q i) (a, p))) \<and>
       clears szof (if length (Q i) < ARP_QUEUE_LEN then {} else {snd (hd (Q i))}) s s')"
proof -
  have li: "i < length (arp_table s)" using i arp_okD(2) [OF ok] by simp
  have q: "queue_ok szof s (arp_q (arp_table s ! i)) (Q i)" "length (Q i) \<le> ARP_QUEUE_LEN" using arp_okD(4,5) [OF ok i] by (simp_all add: entry_ok_def)
  have e: "(arp_table s ! i)\<lparr>arp_q := arp_q (arp_table s ! i)\<rparr> = arp_table s ! i" by simp
  obtain r ps where m: "memp_malloc MEMP_ARP_QUEUE (tm_pools s) = Some (r, ps)" "leaves szof {} s (s\<lparr>tm_pools := ps\<rparr>)"
    "case r of
       None \<Rightarrow> card (memp_live szof (tm_pools s) MEMP_ARP_QUEUE) = memp_num MEMP_ARP_QUEUE \<and> memp_live szof ps MEMP_ARP_QUEUE = memp_live szof (tm_pools s) MEMP_ARP_QUEUE
     | Some a \<Rightarrow> a \<notin> memp_live szof (tm_pools s) MEMP_ARP_QUEUE \<and> memp_live szof ps MEMP_ARP_QUEUE = insert a (memp_live szof (tm_pools s) MEMP_ARP_QUEUE)"
    using node_alloc [OF arp_okD(1) [OF ok]] by blast
  show ?thesis
  proof (cases r)
    case None
    let ?s = "s\<lparr>tm_pools := ps\<rparr>"
    have live: "memp_live szof ps MEMP_ARP_QUEUE = memp_live szof (tm_pools s) MEMP_ARP_QUEUE" "card (memp_live szof (tm_pools s) MEMP_ARP_QUEUE) = memp_num MEMP_ARP_QUEUE"
      using m(3) None by simp_all
    obtain c t where t: "pbuf_free cf (Some p) ?s = Some (c, t)" "keeps szof {p} ?s t" "arps.more t = arps.more ?s" "block szof t p = None"
      using free_qpkt [OF leavesD(1) [OF m(2)] leaves_qpkt(1) [OF m(2) p(1)], of cf] by auto
    have l: "leaves szof {p} s t" by (rule leaves_trans [OF leaves_mono [OF m(2)] keeps_leaves [OF t(2)]]) simp
    have n: "node_ok szof t x \<and> qe_next (q_entries t (fst x)) = qe_next (q_entries s (fst x))" if "j < ARP_TABLE_SIZE" "x \<in> set (Q j)" "node_ok szof s x" for j x
      using leaves_node [OF l that(3)] ownedI [of j x Q] that p(2) keepsD(4,6) [OF t(2)] live(1) by (auto simp: node_ok_def memp_live_def)
    have "queue_ok szof t (arp_q (arp_table s ! i)) (Q i)" using q(1) n [OF i] by (rule queue_ok_cong)
    moreover have "memp_live szof (tm_pools t) MEMP_ARP_QUEUE = memp_live szof (tm_pools s) MEMP_ARP_QUEUE" using live(1) keepsD(6) [OF t(2)] by (simp add: memp_live_def)
    ultimately have "arp_ok szof (Q(i := Q i)) t"
      using arp_okD(3,5,6) [OF ok] i keepsD [OF t(2)] n nodes_in [OF ok i] by (intro arp_ok_upd [OF ok i, where e = "arp_table s ! i"]) auto
    moreover have "enqueue cf i p s = Some (ERR_MEM, t)" using m(1) None t(1) by (simp add: enqueue_def)
    moreover have "clears szof {p} s t" using l t(4) by (simp add: clears_def)
    ultimately show ?thesis using live(2) t(3) keepsD(2) [OF t(2)] by (intro exI [of _ ERR_MEM] exI [of _ t] exI [of _ Q]) (auto intro: exI [of _ "arp_q (arp_table s ! i)"])
  next
    case (Some a)
    then have a: "a \<notin> memp_live szof (tm_pools s) MEMP_ARP_QUEUE" "memp_live szof ps MEMP_ARP_QUEUE = insert a (memp_live szof (tm_pools s) MEMP_ARP_QUEUE)" using m(3) by simp_all
    let ?u = "upd_q a (\<lambda>e. e\<lparr>qe_next := None, qe_p := Some p\<rparr>) (s\<lparr>tm_pools := ps\<rparr>)"
    define t where "t = link_last i (Q i) a ?u"
    note T = enqueue_linked [OF ok i p a(1) m(2) a(2), folded t_def]
    have ne: "card (memp_live szof (tm_pools s) MEMP_ARP_QUEUE) \<noteq> memp_num MEMP_ARP_QUEUE" using memp.alloc_fails [of szof "tm_pools s" MEMP_ARP_QUEUE] m(1) Some arp_okD(1) [OF ok] by (auto simp: pbufs_inv_def)
    have eq: "(case arp_q (arp_table ?u ! i) of Some r \<Rightarrow> do { (r, qlen) \<leftarrow> q_last ?u r 1; Some (qlen, upd_q r (\<lambda>e. e\<lparr>qe_next := Some a\<rparr>) ?u) }
        | None \<Rightarrow> Some (0, upd_entry i (\<lambda>e. e\<lparr>arp_q := Some a\<rparr>) ?u)) = Some (length (Q i), t)"
    proof (cases "Q i = []")
      case True
      then have "arp_q (arp_table s ! i) = None" using q(1) by (simp add: queue_ok_def)
      then show ?thesis using True by (simp add: t_def link_last_def)
    next
      case False
      then obtain r where r: "arp_q (arp_table s ! i) = Some r" using q(1) by (cases "Q i") (auto simp: queue_ok_def)
      have na: "a \<notin> fst ` set (Q i)" using q(1) a(1) by (auto simp: queue_ok_def node_ok_def)
      have "chain (q_link ?u) (Some r) (map fst (Q i)) = chain (q_link s) (Some r) (map fst (Q i))"
        using na by (intro chain_cong) (auto simp: q_link_def)
      then have "q_last ?u r 1 = Some (fst (last (Q i)), length (Q i))" using q_last_ok [of ?u r "Q i" 1] q(1) r False by (simp add: queue_ok_def)
      then show ?thesis using r False by (simp add: t_def link_last_def)
    qed
    obtain h where h: "arp_table t = (arp_table s)[i := (arp_table s ! i)\<lparr>arp_q := h\<rparr>]" using T(5) by blast
    show ?thesis
    proof (cases "length (Q i) < ARP_QUEUE_LEN")
      case True
      have "arp_ok szof (Q(i := Q i @ [(a, p)])) t"
        by (rule requeued [OF ok i st T(2) _ T(4) h T(7)]) (use T(1,6) h li True a(1) p(2) nodes_in [OF ok i] in auto)
      moreover have "enqueue cf i p s = Some (ERR_OK, t)" using m(1) Some eq True by (simp add: enqueue_def)
      moreover have "clears szof {} s t" using T(2) by (simp add: clears_none)
      ultimately show ?thesis using ne True T(3) h
        by (intro exI [of _ ERR_OK] exI [of _ t] exI [of _ "Q(i := Q i @ [(a, p)])"]) (auto simp: push_def)
    next
      case False
      then have full: "length (Q i) = 3" using q(2) by (simp add: ARP_QUEUE_LEN_def)
      then obtain b pb xs where xs: "Q i = (b, pb) # xs" by (cases "Q i") auto
      have qt: "queue_ok szof t (arp_q (arp_table t ! i)) ((b, pb) # xs @ [(a, p)])" using T(1) xs by simp
      have lt: "i < length (arp_table t)" using h li by simp
      obtain c v ps' where v: "pbuf_free cf (Some pb) (upd_entry i (\<lambda>e. e\<lparr>arp_q := qe_next (q_entries t b)\<rparr>) t) = Some (c, v)"
        "memp_free MEMP_ARP_QUEUE (Some b) (tm_pools v) = Some ps'" "clears szof {pb} t (v\<lparr>tm_pools := ps'\<rparr>)"
        "queue_ok szof (v\<lparr>tm_pools := ps'\<rparr>) (qe_next (q_entries t b)) (xs @ [(a, p)])"
        "arp_table v = (arp_table t)[i := (arp_table t ! i)\<lparr>arp_q := qe_next (q_entries t b)\<rparr>]" "q_entries v = q_entries t"
        "etharp_cached_entry v = etharp_cached_entry t" "arps.more v = arps.more t"
        "memp_live szof ps' MEMP_ARP_QUEUE = memp_live szof (tm_pools t) MEMP_ARP_QUEUE - {b}"
        using pop_ok [OF leavesD(1) [OF T(2)] qt lt, of cf] by blast
      let ?v = "v\<lparr>tm_pools := ps'\<rparr>"
      have cl: "clears szof {pb} s ?v" using clears_trans [OF T(2) [folded clears_none] v(3)] by simp
      note l = clears_leaves [OF cl]
      have b: "b \<notin> fst ` set xs" "b \<noteq> a" using chain_distinct [of "q_link t" _ "b # map fst (xs @ [(a, p)])"] qt by (auto simp: queue_ok_def)
      have lv: "memp_live szof ps' MEMP_ARP_QUEUE = (memp_live szof (tm_pools s) MEMP_ARP_QUEUE - fst ` set (Q i)) \<union> fst ` set (xs @ [(a, p)])"
        using v(9) T(6) b nodes_in [OF ok i] xs by auto
      have tab: "arp_table ?v = (arp_table s)[i := (arp_table s ! i)\<lparr>arp_q := qe_next (q_entries t b)\<rparr>]" using v(5) h li by simp
      have "arp_ok szof (Q(i := xs @ [(a, p)])) ?v"
      proof (rule requeued [OF ok i st l _ _ tab _ _ v(4), where a = a and p = p])
        show "q_entries ?v c = q_entries s c" if "c \<notin> fst ` set (Q i)" "c \<noteq> a" for c using T(7) [OF that] v(6) by simp
        show "memp_live szof (tm_pools ?v) MEMP_ARP_QUEUE = (memp_live szof (tm_pools s) MEMP_ARP_QUEUE - fst ` set (Q i)) \<union> fst ` set (xs @ [(a, p)])" using lv by simp
      qed (use xs full v(7) T(4) a(1) p(2) in \<open>auto simp: ARP_QUEUE_LEN_def\<close>)
      moreover have "arp_q (arp_table t ! i) = Some b" "qe_p (q_entries t b) = Some pb" using qt by (simp_all add: queue_ok_def node_ok_def)
      then have "enqueue cf i p s = Some (ERR_OK, ?v)" using m(1) Some eq False v(1,2) by (simp add: enqueue_def)
      ultimately show ?thesis using ne False xs cl tab v(8) T(3)
        by (intro exI [of _ ERR_OK] exI [of _ ?v] exI [of _ "Q(i := xs @ [(a, p)])"]) (auto simp: push_def)
    qed
  qed
qed

section \<open>Taking over a packet\<close>

text \<open>A packet that the layer above passes down: pbufs with buffers of their own that are not in a queue.\<close>

definition outgoing :: "(memp_t \<Rightarrow> nat) \<Rightarrow> (nat \<Rightarrow> (nat \<times> ptr) list) \<Rightarrow> ('h, 'z) arps_scheme \<Rightarrow> ptr \<Rightarrow> ptr list \<Rightarrow> bool" where
  "outgoing szof Q s q qs \<longleftrightarrow> packet s (Some q) qs \<and> buffers szof s qs \<and> (\<forall>x\<in>set qs. 0 < pb_len (pb s x)) \<and>
     length (pdata s qs) + SIZEOF_ETH_HDR < 65480 \<and> set qs \<inter> owned Q = {}"

lemma leaves_packet:
  assumes l: "leaves szof X s s'" and p: "packet s P ps" and b: "buffers szof s ps" and X: "set ps \<inter> X = {}"
  shows "packet s' P ps" "buffers szof s' ps" "pdata s' ps = pdata s ps" "\<And>x. x \<in> set ps \<Longrightarrow> pb s' x = pb s x"
proof -
  have k: "live_pbuf szof s' x \<and> pb s' x = pb s x \<and> seg s' x = seg s x \<and> has_buffer s x" if "x \<in> set ps" for x
    using leaves_live [OF l, of x] b X that by (auto simp: buffers_def)
  then show pb: "pb s' x = pb s x" if "x \<in> set ps" for x using that by blast
  show d: "pdata s' ps = pdata s ps" using k by (intro pdata_cong) blast
  show "buffers szof s' ps" using k by (auto simp: buffers_def has_buffer_def)
  have "chain (pb_link s') P ps = chain (pb_link s) P ps" using pb by (intro chain_cong) (simp add: pb_link_def)
  moreover have "tots s' ps = tots s ps" using pb by (intro tots_cong) simp
  ultimately show "packet s' P ps" using p d by (simp add: packet_def)
qed

lemma leaves_outgoing:
  assumes "leaves szof X s s'" "outgoing szof Q s q qs" "set qs \<inter> X = {}" "set qs \<inter> owned Q' = {}"
  shows "outgoing szof Q' s' q qs" "pdata s' qs = pdata s qs"
proof -
  have "packet s (Some q) qs" "buffers szof s qs" using assms(2) by (simp_all add: outgoing_def)
  note P = leaves_packet [OF assms(1) this assms(3)]
  show "pdata s' qs = pdata s qs" by (rule P(3))
  show "outgoing szof Q' s' q qs" using P assms(2,4) by (simp add: outgoing_def)
qed

lemma keeps_filled:
  assumes inv: "pbufs_inv szof s" and p: "live_pbuf szof s p" "has_buffer s p" and f: "filled szof s [p] d s'"
  shows "keeps szof {p} s s'" "pb s' = pb s" "seg s' p = d" "arps.more s' = arps.more s"
proof -
  have w: "written s s'" "pbufs_inv szof s'" "seg s' p = d" "\<And>q. q \<notin> area s p \<Longrightarrow> load s' q = load s q" using f by (auto simp: filled_def)
  note W = writtenD [OF w(1)]
  obtain g m where e: "s' = s\<lparr>heap := (heap s)\<lparr>ram := g\<rparr>, memory := m\<rparr>" using w(1) by (auto simp: written_def)
  have "load s' (padd q j) = load s (padd q j)" if "block szof s q = Some m" "q \<noteq> p" "j < m" for q m j
    by (rule w(4) [OF outside_area [OF inv p that]])
  moreover have "block szof s' = block szof s" by (intro ext) (simp only: block_def W(2,3))
  ultimately show "keeps szof {p} s s'" using w(2) W(1,2) unfolding keeps_def leaves_def by (simp add: e)
  show "pb s' = pb s" "seg s' p = d" by (fact W(1), fact w(3))
  show "arps.more s' = arps.more s" by (simp add: e)
qed

lemma take_over_ok:
  assumes inv: "pbufs_inv szof s" "tcpip_inv szof api count maxi s" and q: "outgoing szof Q s q qs"
  shows "\<exists>r s'. take_over api cf q s = Some (r, s') \<and> keeps szof (set_option r) s s' \<and> arps.more s' = arps.more s \<and>
    (r = None \<longleftrightarrow> no_room szof PBUF_LINK (length (pdata s qs)) PBUF_RAM s) \<and>
    (case r of None \<Rightarrow> True | Some p \<Rightarrow> block szof s p = None \<and> qpkt szof s' p \<and> seg s' p = pdata s qs)"
proof -
  have Q: "packet s (Some q) qs" "buffers szof s qs" "\<forall>x\<in>set qs. 0 < pb_len (pb s x)" "length (pdata s qs) + 14 < 65480" using q by (simp_all add: outgoing_def)
  obtain qs' where qs: "qs = q # qs'" using Q(1) by (auto simp: packet_def chain_Some)
  have tot: "pb_tot_len (pb s q) = length (pdata s qs)" by (rule packet_tot [OF Q(1)])
  have "\<not> queue_head s (Some q)" using no_queue_head [of s "Some q" "[]" q qs'] Q(1,3) qs by simp
  moreover have "pb_type (pb s q) \<noteq> PBUF_ROM" using Q(2) qs by (auto simp: buffers_def has_buffer_def)
  ultimately have c: "copy_needed_at s (Some q) = Some (Some q)" by (subst copy_needed_at.simps) (auto simp: queue_head_def)
  obtain r t where a: "pbuf_alloc api cf PBUF_LINK (length (pdata s qs)) PBUF_RAM s = Some (r, t)" "keeps szof (set_option r) s t" "arps.more t = arps.more s"
    "r = None \<longleftrightarrow> no_room szof PBUF_LINK (length (pdata s qs)) PBUF_RAM s"
    "case r of None \<Rightarrow> True | Some p \<Rightarrow> block szof s p = None \<and> qpkt szof t p \<and> pb_len (pb t p) = length (pdata s qs)"
    using alloc_link [OF inv, of "length (pdata s qs)" cf] Q(4) by auto
  show ?thesis
  proof (cases r)
    case None
    then show ?thesis using a c tot by (simp add: take_over_def)
  next
    case (Some p)
    then have p: "block szof s p = None" "qpkt szof t p" "pb_len (pb t p) = length (pdata s qs)" using a(5) by auto
    have pq: "p \<notin> set qs" using p(1) Q(2) by (auto simp: buffers_def live_pbuf_block)
    note P = leaves_packet [OF keeps_leaves [OF a(2)] Q(1,2)]
    have b: "buffers szof t qs" "packet t (Some q) qs" "pdata t qs = pdata s qs" using P Some pq by auto
    have pb: "buffers szof t [p]" "packet t (Some p) [p]" using p(2) qpkt_buffer [OF p(2)] by (auto simp: buffers_def packet_def qpkt_def)
    have sep: "separate t [p] qs" using area_disjoint [OF keepsD(1) [OF a(2)], of p] pb(1) b(1) pq by (auto simp: separate_def buffers_def)
    have pos: "\<forall>z\<in>set [p] \<union> set qs. 0 < pb_len (pb t z)" using Q(3) P(4) Some pq p(3) qs by auto
    obtain u where u: "pbuf_copy (Some p) (Some q) t = Some (ERR_OK, u)" "filled szof t [p] (patch 0 (pdata t qs) (pdata t [p])) u"
      using copy_packet [OF keepsD(1) [OF a(2)] pb(2) b(2) pb(1) sep pos] p(3) b(3) by auto
    have d: "patch 0 (pdata t qs) (pdata t [p]) = pdata s qs" using p(3) b(3) by (simp add: patch_def)
    note F = keeps_filled [OF keepsD(1) [OF a(2)] _ _ u(2), unfolded d]
    have k: "keeps szof {p} t u" "pb u = pb t" "seg u p = pdata s qs" "arps.more u = arps.more t" using F qpkt_buffer [OF p(2)] by auto
    have "written t u" using u(2) by (simp add: filled_def)
    then have "live_pbuf szof u p" using writtenD(6) [of t u szof p] qpkt_buffer [OF p(2)] by simp
    then have qp: "qpkt szof u p" using p(2) k(2) by (simp add: qpkt_def header_room_def)
    have "keeps szof {p} s u" by (rule keeps_trans [OF keeps_mono [OF a(2)] k(1)]) (simp add: Some)
    then show ?thesis using a(1,3,4) c tot Some u(1) p(1) qp k(3,4) by (simp add: take_over_def)
  qed
qed

end
