(* ===== verification/Etharp_Query.thy ===== *)
theory Etharp_Query
  imports Etharp_Ops
begin

text \<open>
  Sending through the ARP cache: queries, and the output of a packet.
\<close>

unbundle bit_operations_syntax

section \<open>Queries\<close>

lemma owned_live: "arp_ok szof Q s \<Longrightarrow> p \<in> owned Q \<Longrightarrow> block szof s p \<noteq> None"
proof -
  assume ok: "arp_ok szof Q s" "p \<in> owned Q"
  then obtain i x where x: "i < ARP_TABLE_SIZE" "x \<in> set (Q i)" "p = snd x" by (auto simp: owned_def)
  then have "node_ok szof s x" using arp_okD(4) [OF ok(1) x(1)] by (simp add: queue_ok_def)
  then show ?thesis using x(3) by (auto simp: node_ok_def qpkt_def live_pbuf_block)
qed

text \<open>What the cache does to the packets it owns: those it gives up are freed, those it takes are new, and except for \<open>X\<close> all others stay as they are.\<close>

definition hands :: "(memp_t \<Rightarrow> nat) \<Rightarrow> ptr set \<Rightarrow> (nat \<Rightarrow> (nat \<times> ptr) list) \<Rightarrow> ('h, 'z) arps_scheme \<Rightarrow> (nat \<Rightarrow> (nat \<times> ptr) list) \<Rightarrow> ('h, 'z) arps_scheme \<Rightarrow> bool" where
  "hands szof X Q s Q' s' \<longleftrightarrow> leaves szof (X \<union> owned Q \<union> owned Q') s s' \<and> (\<forall>p\<in>owned Q - owned Q' - X. block szof s' p = None) \<and> (\<forall>p\<in>owned Q' - owned Q - X. block szof s p = None)"

lemma clears_gone: "clears szof X s s' \<Longrightarrow> p \<in> X \<Longrightarrow> block szof s' p = None"
  by (simp add: clears_def)

lemma handsI:
  assumes "leaves szof (X \<union> owned Q \<union> owned Q') s s'" "\<And>p. p \<in> owned Q \<Longrightarrow> p \<notin> owned Q' \<Longrightarrow> p \<notin> X \<Longrightarrow> block szof s' p = None"
    "\<And>p. p \<in> owned Q' \<Longrightarrow> p \<notin> owned Q \<Longrightarrow> p \<notin> X \<Longrightarrow> block szof s p = None"
  shows "hands szof X Q s Q' s'"
  using assms by (simp add: hands_def)

lemma handsD:
  assumes "hands szof X Q s Q' s'"
  shows "leaves szof (X \<union> owned Q \<union> owned Q') s s'" "p \<in> owned Q \<Longrightarrow> p \<notin> owned Q' \<Longrightarrow> p \<notin> X \<Longrightarrow> block szof s' p = None"
    "p \<in> owned Q' \<Longrightarrow> p \<notin> owned Q \<Longrightarrow> p \<notin> X \<Longrightarrow> block szof s p = None"
  using assms by (simp_all add: hands_def)

lemma hands_leaves: "leaves szof X s s' \<Longrightarrow> hands szof X Q s Q s'"
  by (rule handsI) (auto elim: leaves_mono)

lemma hands_mono:
  assumes "hands szof X Q s Q' s'" "X \<subseteq> Y"
  shows "hands szof Y Q s Q' s'"
proof (rule handsI)
  show "leaves szof (Y \<union> owned Q \<union> owned Q') s s'" by (rule leaves_mono [OF handsD(1) [OF assms(1)]]) (use assms(2) in blast)
qed (use handsD(2,3) [OF assms(1)] assms(2) in blast)+

lemma owned_upd: "owned (Q(i := xs)) \<subseteq> owned Q \<union> snd ` set xs"
proof
  fix p assume "p \<in> owned (Q(i := xs))"
  then obtain j where "j < ARP_TABLE_SIZE" "p \<in> snd ` set ((Q(i := xs)) j)" unfolding owned_iff by blast
  then show "p \<in> owned Q \<union> snd ` set xs" unfolding Un_iff owned_iff by (cases "j = i") (simp_all, blast)
qed

lemma owned_rest:
  assumes "i < ARP_TABLE_SIZE"
  shows "owned Q \<subseteq> owned (Q(i := xs)) \<union> snd ` set (Q i)" "snd ` set xs \<subseteq> owned (Q(i := xs))"
proof
  fix p assume "p \<in> owned Q"
  then obtain j where j: "j < ARP_TABLE_SIZE" "p \<in> snd ` set (Q j)" unfolding owned_iff by blast
  show "p \<in> owned (Q(i := xs)) \<union> snd ` set (Q i)"
  proof (cases "j = i")
    case False
    then have "p \<in> snd ` set ((Q(i := xs)) j)" using j(2) by simp
    then show ?thesis using j(1) unfolding Un_iff owned_iff by blast
  qed (use j(2) in simp)
next
  have "snd ` set ((Q(i := xs)) i) \<subseteq> owned (Q(i := xs))" unfolding owned_def using assms by blast
  then show "snd ` set xs \<subseteq> owned (Q(i := xs))" by simp
qed

lemma hands_clears:
  assumes "clears szof (snd ` set (Q i)) s s'" "i < ARP_TABLE_SIZE"
  shows "hands szof {} Q s (Q(i := [])) s'"
proof (rule handsI)
  have sub: "snd ` set (Q i) \<subseteq> owned Q" using assms(2) by (auto simp: owned_def)
  show "leaves szof ({} \<union> owned Q \<union> owned (Q(i := []))) s s'" by (rule leaves_mono [OF clears_leaves [OF assms(1)]]) (use sub in blast)
  fix p
  show "block szof s' p = None" if "p \<in> owned Q" "p \<notin> owned (Q(i := []))"
  proof -
    have "p \<in> snd ` set (Q i)" using subsetD [OF owned_rest(1) [OF assms(2)] that(1), of "[]"] that(2) by simp
    then show ?thesis by (rule clears_gone [OF assms(1)])
  qed
  show "block szof s p = None" if "p \<in> owned (Q(i := []))" "p \<notin> owned Q" using subsetD [OF owned_clear that(1)] that(2) by simp
qed

lemma hands_trans:
  assumes a: "hands szof X Q s Q' t" and b: "hands szof X Q' t Q'' u"
  shows "hands szof X Q s Q'' u"
proof (rule handsI)
  note l = handsD(1) [OF a] handsD(1) [OF b]
  have "leaves szof (X \<union> owned Q \<union> owned Q' \<union> owned Q'') s u" by (rule leaves_trans [OF leaves_mono [OF l(1)] leaves_mono [OF l(2)]]) auto
  then show "leaves szof (X \<union> owned Q \<union> owned Q'') s u"
  proof (rule leaves_fresh)
    fix p assume "p \<in> X \<union> owned Q \<union> owned Q' \<union> owned Q''" "p \<notin> X \<union> owned Q \<union> owned Q''"
    then show "block szof s p = None \<and> block szof u p = None" using handsD(3) [OF a, of p] handsD(2) [OF b, of p] by simp
  qed
  fix p
  show "block szof u p = None" if p: "p \<in> owned Q" "p \<notin> owned Q''" "p \<notin> X"
    using handsD(2) [OF b, of p] handsD(2) [OF a, of p] leaves_blocks [OF l(2), of p] p by (cases "p \<in> owned Q'") simp_all
  show "block szof s p = None" if p: "p \<in> owned Q''" "p \<notin> owned Q" "p \<notin> X"
    using handsD(3) [OF a, of p] handsD(3) [OF b, of p] leaves_blocks [OF l(1), of p] p by (cases "p \<in> owned Q'") simp_all
qed

definition same_entries :: "nat \<Rightarrow> ('h, 'z) arps_scheme \<Rightarrow> ('h, 'z) arps_scheme \<Rightarrow> bool" where
  "same_entries i s s' \<longleftrightarrow> (\<exists>h. arp_table s' = (arp_table s)[i := (arp_table s ! i)\<lparr>arp_q := h\<rparr>])"

text \<open>Queueing a packet at a pending entry.\<close>

definition queue_packet :: "'h win32 \<Rightarrow> ('h, 'z arps_ext) custom_fn \<Rightarrow> nat \<Rightarrow> ptr \<Rightarrow> ('h, 'z) arps_scheme \<Rightarrow> (err_t \<times> ('h, 'z) arps_scheme) option" where
  "queue_packet api cf i q s = do {
     (p, s) \<leftarrow> take_over api cf q s;
     case p of Some p \<Rightarrow> enqueue cf i p s | None \<Rightarrow> Some (ERR_MEM, STATS_INC stat_memerr s) }"

definition queue_full :: "(memp_t \<Rightarrow> nat) \<Rightarrow> ('h, 'z) arps_scheme \<Rightarrow> nat \<Rightarrow> bool" where
  "queue_full szof s len \<longleftrightarrow> no_room szof PBUF_LINK len PBUF_RAM s \<or> card (memp_live szof (tm_pools s) MEMP_ARP_QUEUE) = memp_num MEMP_ARP_QUEUE"

definition queue_data :: "('h, 'z) pbufs_scheme \<Rightarrow> (nat \<times> ptr) list \<Rightarrow> u8_t list list" where
  "queue_data s xs = map (\<lambda>x. seg s (snd x)) xs"

text \<open>A new packet with the data \<open>d\<close> waits at the end of the queue \<open>i\<close>; the oldest is dropped if the queue is full.\<close>

definition dropped :: "(nat \<times> ptr) list \<Rightarrow> ptr set" where
  "dropped xs = (if length xs < ARP_QUEUE_LEN then {} else {snd (hd xs)})"

definition queued_at :: "(memp_t \<Rightarrow> nat) \<Rightarrow> nat \<Rightarrow> u8_t list \<Rightarrow> (nat \<Rightarrow> (nat \<times> ptr) list) \<Rightarrow> ('h, 'z) arps_scheme \<Rightarrow> (nat \<Rightarrow> (nat \<times> ptr) list) \<Rightarrow> ('h, 'z) arps_scheme \<Rightarrow> bool" where
  "queued_at szof i d Q s Q' s' \<longleftrightarrow> (\<exists>a p. Q' = Q(i := push (Q i) (a, p)) \<and> block szof s p = None \<and> seg s' p = d \<and>
     leaves szof (insert p (dropped (Q i))) s s' \<and> (\<forall>x\<in>dropped (Q i). block szof s' x = None))"

lemma queue_packet_ok:
  assumes ok: "arp_ok szof Q s" and tc: "tcpip_inv szof api count maxi s" and i: "i < ARP_TABLE_SIZE" and st: "arp_state (arp_table s ! i) = ETHARP_STATE_PENDING"
    and q: "outgoing szof Q s q qs"
  shows "\<exists>r s' Q'. queue_packet api cf i q s = Some (r, s') \<and> arp_ok szof Q' s' \<and> arps.more s' = arps.more s \<and> same_entries i s s' \<and>
    (if queue_full szof s (length (pdata s qs)) then r = ERR_MEM \<and> Q' = Q \<and> leaves szof {} s s' else r = ERR_OK \<and> queued_at szof i (pdata s qs) Q s Q' s')"
proof -
  obtain r t where t: "take_over api cf q s = Some (r, t)" "keeps szof (set_option r) s t" "arps.more t = arps.more s"
    "r = None \<longleftrightarrow> no_room szof PBUF_LINK (length (pdata s qs)) PBUF_RAM s"
    "case r of None \<Rightarrow> True | Some p \<Rightarrow> block szof s p = None \<and> qpkt szof t p \<and> seg t p = pdata s qs"
    using take_over_ok [OF arp_okD(1) [OF ok] tc q, of cf] by blast
  have no: "set_option r \<inter> owned Q = {}"
  proof (cases r)
    case (Some p)
    then show ?thesis using t(5) owned_live [OF ok, of p] by auto
  qed simp
  have ok': "arp_ok szof Q t" by (rule arp_ok_keeps [OF ok t(2) no])
  have tab: "arp_table t = arp_table s" by (rule keepsD(2) [OF t(2)])
  have id: "\<exists>h. arp_table s = (arp_table s)[i := (arp_table s ! i)\<lparr>arp_q := h\<rparr>]" by (rule exI [of _ "arp_q (arp_table s ! i)"]) simp
  show ?thesis
  proof (cases r)
    case None
    then have "queue_packet api cf i q s = Some (ERR_MEM, STATS_INC stat_memerr t)" using t(1) by (simp add: queue_packet_def)
    moreover have "queue_full szof s (length (pdata s qs))" using None t(4) by (simp add: queue_full_def)
    ultimately show ?thesis using None ok' t(3) id tab keeps_leaves [OF t(2)] by (auto simp: same_entries_def)
  next
    case (Some p)
    then have p: "block szof s p = None" "qpkt szof t p" "seg t p = pdata s qs" "p \<notin> owned Q" using t(5) no by auto
    have full: "queue_full szof s (length (pdata s qs)) \<longleftrightarrow> card (memp_live szof (tm_pools t) MEMP_ARP_QUEUE) = memp_num MEMP_ARP_QUEUE"
      using t(4) Some keepsD(6) [OF t(2)] by (simp add: queue_full_def memp_live_def)
    obtain e s' Q' where e: "enqueue cf i p t = Some (e, s')" "arp_ok szof Q' s'" "arps.more s' = arps.more t"
      "\<exists>h. arp_table s' = (arp_table t)[i := (arp_table t ! i)\<lparr>arp_q := h\<rparr>]"
      "if queue_full szof s (length (pdata s qs)) then e = ERR_MEM \<and> Q' = Q \<and> clears szof {p} t s'
       else e = ERR_OK \<and> (\<exists>a. Q' = Q(i := push (Q i) (a, p))) \<and> clears szof (dropped (Q i)) t s'"
      using enqueue_ok [OF ok' i _ p(2,4), of cf] st tab unfolding full dropped_def by auto
    have eq: "queue_packet api cf i q s = Some (e, s')" using t(1) Some e(1) by (simp add: queue_packet_def)
    have sp: "same_entries i s s'" using e(4) tab by (simp add: same_entries_def)
    have k: "leaves szof {p} s t" using keeps_leaves [OF t(2)] Some by simp
    show ?thesis
    proof (cases "queue_full szof s (length (pdata s qs))")
      case True
      then have c: "clears szof {p} t s'" using e(5) by simp
      have "leaves szof {p} s s'" by (rule leaves_trans [OF k clears_leaves [OF c]])
      then have "leaves szof {} s s'" by (rule leaves_fresh) (use p(1) c in \<open>auto simp: clears_def\<close>)
      then show ?thesis using True e(2,3,5) t(3) eq sp by auto
    next
      case False
      then have l: "clears szof (dropped (Q i)) t s'" "e = ERR_OK" "\<exists>a. Q' = Q(i := push (Q i) (a, p))" using e(5) by simp_all
      have "p \<notin> dropped (Q i)" using p(4) ownedI [of i "hd (Q i)" Q] i by (cases "Q i") (auto simp: dropped_def ARP_QUEUE_LEN_def)
      then have "seg s' p = pdata s qs" using leaves_qpkt(2) [OF clears_leaves [OF l(1)] p(2)] p(3) by simp
      moreover have "leaves szof (insert p (dropped (Q i))) s s'" by (rule leaves_trans [OF leaves_mono [OF k] leaves_mono [OF clears_leaves [OF l(1)]]]) auto
      ultimately have "queued_at szof i (pdata s qs) Q s Q' s'" using l(1,3) p(1) unfolding queued_at_def clears_def by blast
      then show ?thesis using False e(2,3) l(2) t(3) eq sp by auto
    qed
  qed
qed

definition pushed :: "u8_t list list \<Rightarrow> u8_t list \<Rightarrow> u8_t list list" where
  "pushed ds d = (if length ds < ARP_QUEUE_LEN then ds else tl ds) @ [d]"

lemma dropped_in: "dropped xs \<subseteq> snd ` set xs"
  by (cases xs) (simp_all add: dropped_def ARP_QUEUE_LEN_def)

lemma push_packets: "snd ` set (push xs (a, p)) \<subseteq> insert p (snd ` set xs)" "p \<in> snd ` set (push xs (a, p))" "snd ` set xs \<subseteq> snd ` set (push xs (a, p)) \<union> dropped xs"
proof -
  have "set (tl xs) \<subseteq> set xs" by (cases xs) auto
  then have "snd ` set (tl xs) \<subseteq> snd ` set xs" by (rule image_mono)
  then show "snd ` set (push xs (a, p)) \<subseteq> insert p (snd ` set xs)" by (auto simp: push_def)
  show "p \<in> snd ` set (push xs (a, p))" by (simp add: push_def)
  show "snd ` set xs \<subseteq> snd ` set (push xs (a, p)) \<union> dropped xs" by (cases xs) (auto simp: push_def dropped_def)
qed

lemma queued_ok:
  assumes ok: "arp_ok szof Q s" and i: "i < ARP_TABLE_SIZE" and q: "queued_at szof i d Q s Q' s'"
  shows "hands szof {} Q s Q' s'" "leaves szof (snd ` set (Q i) \<union> snd ` set (Q' i)) s s'" "queue_data s' (Q' i) = pushed (queue_data s (Q i)) d" "\<exists>x. Q' = Q(i := push (Q i) x)"
proof -
  obtain a p where p: "Q' = Q(i := push (Q i) (a, p))" "block szof s p = None" "seg s' p = d" "leaves szof (insert p (dropped (Q i))) s s'" "\<forall>x\<in>dropped (Q i). block szof s' x = None"
    using q by (auto simp: queued_at_def)
  have np: "p \<notin> owned Q" using owned_live [OF ok, of p] p(2) by auto
  have own: "snd ` set (Q i) \<subseteq> owned Q" using i by (auto simp: owned_def)
  have po: "p \<in> owned Q'" using subsetD [OF owned_rest(2) [OF i] push_packets(2)] p(1) by blast
  show "\<exists>x. Q' = Q(i := push (Q i) x)" using p(1) by blast
  show "leaves szof (snd ` set (Q i) \<union> snd ` set (Q' i)) s s'"
    by (rule leaves_mono [OF p(4)]) (use dropped_in [of "Q i"] push_packets(2) [of p "Q i" a] p(1) in auto)
  show "hands szof {} Q s Q' s'"
  proof (rule handsI)
    show "leaves szof ({} \<union> owned Q \<union> owned Q') s s'" by (rule leaves_mono [OF p(4)]) (use dropped_in [of "Q i"] own po in blast)
    fix x
    show "block szof s' x = None" if x: "x \<in> owned Q" "x \<notin> owned Q'"
    proof -
      have "x \<in> snd ` set (Q i)" using subsetD [OF owned_rest(1) [OF i] x(1), of "push (Q i) (a, p)"] x(2) p(1) by simp
      moreover have "x \<notin> snd ` set (push (Q i) (a, p))" using owned_rest(2) [OF i, of "push (Q i) (a, p)" Q] x(2) p(1) by auto
      ultimately have "x \<in> dropped (Q i)" using push_packets(3) [of "Q i" a p] by blast
      then show ?thesis using p(5) by simp
    qed
    show "block szof s x = None" if x: "x \<in> owned Q'" "x \<notin> owned Q"
    proof -
      have "x \<in> snd ` set (push (Q i) (a, p))" using subsetD [OF owned_upd, of x Q i "push (Q i) (a, p)"] x p(1) by simp
      then have "x = p" using push_packets(1) [of "Q i" a p] own x(2) by blast
      then show ?thesis using p(2) by simp
    qed
  qed
  have qi: "queue_ok szof s (arp_q (arp_table s ! i)) (Q i)" by (rule arp_okD(4) [OF ok i])
  have same: "seg s' (snd x) = seg s (snd x)" if "x \<in> set (Q i)" "snd x \<notin> dropped (Q i)" for x
  proof (rule leaves_qpkt(2) [OF p(4)])
    show "qpkt szof s (snd x)" using qi that(1) by (auto simp: queue_ok_def node_ok_def)
    show "snd x \<notin> insert p (dropped (Q i))" using that(2) np own that(1) by auto
  qed
  show "queue_data s' (Q' i) = pushed (queue_data s (Q i)) d"
  proof (cases "length (Q i) < ARP_QUEUE_LEN")
    case True
    then show ?thesis using same p(1,3) by (simp add: queue_data_def pushed_def push_def dropped_def)
  next
    case False
    then obtain y ys where y: "Q i = y # ys" by (cases "Q i") (auto simp: ARP_QUEUE_LEN_def)
    have ny: "snd y \<notin> snd ` set ys" using qi y by (auto simp: queue_ok_def)
    have "seg s' (snd x) = seg s (snd x)" if x: "x \<in> set ys" for x
    proof (rule same)
      have "snd x \<noteq> snd y" using ny imageI [OF x, of snd] by metis
      then show "snd x \<notin> dropped (Q i)" using y False by (simp add: dropped_def)
    qed (use x y in simp)
    then show ?thesis using p(1,3) y False by (simp add: queue_data_def pushed_def push_def)
  qed
qed

text \<open>The pool of nodes is exhausted when all queues are full, and only then; freeing pbufs makes no room smaller.\<close>

lemma pool_exhausted:
  assumes ok: "arp_ok szof Q s"
  shows "card (memp_live szof (tm_pools s) MEMP_ARP_QUEUE) = memp_num MEMP_ARP_QUEUE \<longleftrightarrow> (\<forall>j<ARP_TABLE_SIZE. length (Q j) = ARP_QUEUE_LEN)"
proof -
  have "card (nodes Q) = (\<Sum>j<ARP_TABLE_SIZE. card (fst ` set (Q j)))" unfolding nodes_def
    by (rule card_UN_disjoint) (use arp_okD(6) [OF ok] in \<open>auto simp: no_share_def\<close>)
  also have "\<dots> = (\<Sum>j<ARP_TABLE_SIZE. length (Q j))"
  proof (rule sum.cong)
    fix j assume "j \<in> {..<ARP_TABLE_SIZE}"
    then have "distinct (map fst (Q j))" using arp_okD(4) [OF ok, of j] chain_distinct by (fastforce simp: queue_ok_def)
    then show "card (fst ` set (Q j)) = length (Q j)" using distinct_card [of "map fst (Q j)"] by simp
  qed simp
  finally have card: "card (memp_live szof (tm_pools s) MEMP_ARP_QUEUE) = (\<Sum>j<ARP_TABLE_SIZE. length (Q j))" using arp_okD(7) [OF ok] by simp
  have le: "length (Q j) \<le> ARP_QUEUE_LEN" if "j < ARP_TABLE_SIZE" for j using arp_okD(5) [OF ok that] by (simp add: entry_ok_def)
  have num: "memp_num MEMP_ARP_QUEUE = (\<Sum>j<ARP_TABLE_SIZE. ARP_QUEUE_LEN)" by (simp add: ARP_TABLE_SIZE_def ARP_QUEUE_LEN_def)
  show ?thesis
  proof
    assume "card (memp_live szof (tm_pools s) MEMP_ARP_QUEUE) = memp_num MEMP_ARP_QUEUE"
    then have "(\<Sum>j<ARP_TABLE_SIZE. length (Q j)) = (\<Sum>j<ARP_TABLE_SIZE. ARP_QUEUE_LEN)" unfolding card num .
    then show "\<forall>j<ARP_TABLE_SIZE. length (Q j) = ARP_QUEUE_LEN" using sum_mono_inv [of "\<lambda>j. length (Q j)" "{..<ARP_TABLE_SIZE}" "\<lambda>_. ARP_QUEUE_LEN"] le by auto
  next
    assume "\<forall>j<ARP_TABLE_SIZE. length (Q j) = ARP_QUEUE_LEN"
    then show "card (memp_live szof (tm_pools s) MEMP_ARP_QUEUE) = memp_num MEMP_ARP_QUEUE" unfolding card num by simp
  qed
qed

lemma clears_room:
  assumes inv: "pbufs_inv szof s" and c: "clears szof X s t" and no: "no_room szof layer len PBUF_RAM t"
  shows "no_room szof layer len PBUF_RAM s"
proof (rule ccontr)
  let ?k = "mem_round (ram_size layer len)"
  have m: "mem_inv (heap s)" "mem_inv (heap t)" using inv leavesD(1) [OF clears_leaves [OF c]] by (simp_all add: pbufs_inv_def)
  have live: "mem_live (heap s) a = Some n" if "mem_live (heap t) a = Some n" for a n
    using that clears_gone [OF c, of "(Heap, a)"] leaves_blocks [OF clears_leaves [OF c], of "(Heap, a)"] by (cases "(Heap, a) \<in> X") (simp_all add: block_def)
  assume "\<not> no_room szof layer len PBUF_RAM s"
  then obtain x where "x + 8 + ?k \<le> 10240" "\<And>a n. mem_live (heap s) a = Some n \<Longrightarrow> a + n \<le> x \<or> x + 16 + ?k \<le> a"
    using mem_room_iff [OF m(1), of ?k] by (auto simp: no_room_def)
  then have "\<exists>b\<in>mem_blocks (heap t). b < 10240 \<and> fits (heap t) ?k b" using live by (subst mem_room_iff [OF m(2)]) blast
  then show False using no by (auto simp: no_room_def)
qed

text \<open>A fresh entry becomes pending, and a request is sent.\<close>

lemma make_pending:
  assumes ok: "arp_ok szof Q s" and i: "i < ARP_TABLE_SIZE" and re: "renewed szof Q (Some ip) i s t" and no: "\<forall>e\<in>set (arp_table s). \<not> matches (Some ip) e"
    and nif: "length (netif_hwaddr (netifs s n)) = 6"
  defines "u \<equiv> upd_entry i (\<lambda>e. e\<lparr>arp_state := ETHARP_STATE_PENDING, arp_netif := Some n\<rparr>) t"
  shows "arp_ok szof (Q(i := [])) u" "clears szof (snd ` set (Q i)) s u" "arps.more u = arps.more s"
    "\<exists>e. arp_table u = (arp_table s)[i := e] \<and> arp_state e = ETHARP_STATE_PENDING \<and> arp_ip e = ip"
proof -
  obtain e where t: "arp_ok szof (Q(i := [])) t" "clears szof (snd ` set (Q i)) s t" "arps.more t = arps.more s" "arp_table t = (arp_table s)[i := e]" "fresh_entry (Some ip) e"
    using re by (auto simp: renewed_def)
  have len: "length (arp_table s) = ARP_TABLE_SIZE" by (rule arp_okD(2) [OF ok])
  have ei: "arp_table t ! i = e" using t(4) i len by simp
  show "arp_ok szof (Q(i := [])) u" unfolding u_def
  proof (rule arp_ok_entry [OF t(1) i])
    show "entry_ok (netifs t) ((Q(i := [])) i) ((arp_table t ! i)\<lparr>arp_state := ETHARP_STATE_PENDING, arp_netif := Some n\<rparr>)"
      using t(5) ei nif leavesD(2) [OF clears_leaves [OF t(2)]] by (simp add: entry_ok_def fresh_entry_def is_stable_def ARP_MAXPENDING_def)
    show "\<not> clash ((arp_table t ! i)\<lparr>arp_state := ETHARP_STATE_PENDING, arp_netif := Some n\<rparr>) (arp_table t ! j)" if "j < ARP_TABLE_SIZE" "j \<noteq> i" for j
      using no_match_after [OF no, of j i e] that len t(4,5) ei by (auto simp: clash_def matches_def fresh_entry_def)
  qed simp
  show "clears szof (snd ` set (Q i)) s u" "arps.more u = arps.more s" using t(2,3) by (simp_all add: u_def)
  show "\<exists>e. arp_table u = (arp_table s)[i := e] \<and> arp_state e = ETHARP_STATE_PENDING \<and> arp_ip e = ip"
    using t(4,5) ei by (auto simp: u_def fresh_entry_def)
qed

definition arp_request_frame :: "netif \<Rightarrow> ip4_addr \<Rightarrow> u8_t list" where
  "arp_request_frame nif ip = eth_frame ethbroadcast (netif_hwaddr nif) ETHTYPE_ARP (arp_bytes ARP_REQUEST (netif_hwaddr nif) (netif_ip nif) ethzero ip)"

lemma broadcast_request_ok:
  assumes "arp_ok szof Q s" "tcpip_inv szof api count maxi s" "length (netif_hwaddr (netifs s n)) = 6"
  shows "\<exists>r s'. etharp_request api cf lo n ip s = Some (r, s') \<and> keeps szof {} s s' \<and> arp_ok szof Q s' \<and>
    (if no_room szof PBUF_LINK 28 PBUF_RAM s then r = ERR_MEM \<and> arps.more s' = arps.more s
     else r = ERR_OK \<and> transmits lo n (arp_request_frame (netifs s n) ip) (arps.more s) (arps.more s'))"
  unfolding etharp_request_def arp_request_frame_def by (rule request_ok [OF assms]) (simp add: ethbroadcast_def)

lemma query_cases [consumes 4, case_names bad sent pending]:
  assumes ok: "arp_ok szof Q s" and tc: "tcpip_inv szof api count maxi s" and nif: "length (netif_hwaddr (netifs s n)) = 6" and q: "outgoing szof Q s q qs"
  obtains (bad) "\<not> unicast ip (netifs s n)" "etharp_query api cf lo n ip (Some q) s = Some (ERR_ARG, s)"
  | (sent) i where "unicast ip (netifs s n)" "i < ARP_TABLE_SIZE" "matches (Some ip) (arp_table s ! i)" "is_stable (arp_state (arp_table s ! i))"
      "etharp_query api cf lo n ip (Some q) s = ethernet_output lo n q (netif_hwaddr (netifs s n)) (arp_eth (arp_table s ! i)) ETHTYPE_IP (s\<lparr>etharp_cached_entry := i\<rparr>)"
  | (pending) i r s' Q' xs where "unicast ip (netifs s n)" "i < ARP_TABLE_SIZE" "etharp_query api cf lo n ip (Some q) s = Some (r, s')" "arp_ok szof Q' s'"
      "hands szof {} Q s Q' s'" "leaves szof (snd ` set (Q i) \<union> snd ` set (Q' i)) s s'"
      "\<exists>e. arp_table s' = (arp_table s)[i := e] \<and> arp_state e = ETHARP_STATE_PENDING \<and> arp_ip e = ip" "xs = (if matches (Some ip) (arp_table s ! i) then Q i else [])"
      "r = ERR_MEM \<and> Q' = Q(i := xs) \<and> queue_full szof s (length (pdata s qs)) \<or>
       r = ERR_OK \<and> (\<exists>x. Q' = Q(i := push xs x)) \<and> queue_data s' (Q' i) = pushed (queue_data s xs) (pdata s qs)"
      "if matches (Some ip) (arp_table s ! i) then arps.more s' = arps.more s
       else (\<forall>e\<in>set (arp_table s). \<not> matches (Some ip) e) \<and> victim (arp_table s) i \<and>
         (no_room szof PBUF_LINK 28 PBUF_RAM s \<and> arps.more s' = arps.more s \<or> transmits lo n (arp_request_frame (netifs s n) ip) (arps.more s) (arps.more s'))"
proof (cases "unicast ip (netifs s n)")
  case False
  then show thesis by (intro bad) (auto simp: etharp_query_def unicast_def)
next
  case True
  then have un: "\<not> (ip4_addr_isbroadcast_u32 ip (netifs s n) \<or> ip4_addr_ismulticast ip \<or> ip4_addr_isany ip)" by (simp add: unicast_def)
  from ok show thesis
  proof (cases rule: find_entry_cases [where ip = "Some ip" and cf = cf and flags = ETHARP_FLAG_TRY_HARD])
    case (hit i)
    have ne: "arp_state (arp_table s ! i) \<noteq> ETHARP_STATE_EMPTY" using hit(2) by (simp add: matches_def)
    show thesis
    proof (cases "arp_state (arp_table s ! i) = ETHARP_STATE_PENDING")
      case False
      then have st: "is_stable (arp_state (arp_table s ! i))" using ne by (simp add: is_stable_def)
      show thesis by (rule sent [OF True hit(1,2) st]) (use un hit(3) ne st in \<open>simp add: etharp_query_def Let_def\<close>)
    next
      case pend: True
      obtain r s' Q' where r: "queue_packet api cf i q s = Some (r, s')" "arp_ok szof Q' s'" "arps.more s' = arps.more s" "same_entries i s s'"
        "if queue_full szof s (length (pdata s qs)) then r = ERR_MEM \<and> Q' = Q \<and> leaves szof {} s s' else r = ERR_OK \<and> queued_at szof i (pdata s qs) Q s Q' s'"
        using queue_packet_ok [OF ok tc hit(1) pend q, of cf] by blast
      have eq: "etharp_query api cf lo n ip (Some q) s = Some (r, s')" using r(1) un hit(3) ne pend by (simp add: etharp_query_def queue_packet_def Let_def is_stable_def)
      have e: "\<exists>e. arp_table s' = (arp_table s)[i := e] \<and> arp_state e = ETHARP_STATE_PENDING \<and> arp_ip e = ip"
        using r(4) pend hit(2) by (auto simp: same_entries_def matches_def)
      show thesis
      proof (cases "queue_full szof s (length (pdata s qs))")
        case full: True
        then have "leaves szof {} s s'" "Q' = Q" "r = ERR_MEM" using r(5) by simp_all
        then show thesis using hands_leaves [of szof "{}" s s' Q] leaves_mono [of szof "{}" s s'] full hit(2) r(2,3)
          by (intro pending [OF True hit(1) eq _ _ _ e refl]) simp_all
      next
        case False
        then have qd: "queued_at szof i (pdata s qs) Q s Q' s'" "r = ERR_OK" using r(5) by simp_all
        show thesis using queued_ok [OF ok hit(1) qd(1)] qd(2) hit(2) r(2,3) by (intro pending [OF True hit(1) eq _ _ _ e refl]) simp_all
      qed
    qed
  next
    case refused
    have "ETHARP_FLAG_TRY_HARD AND ETHARP_FLAG_FIND_ONLY = 0" "ETHARP_FLAG_TRY_HARD AND ETHARP_FLAG_TRY_HARD \<noteq> 0"
      by (simp_all add: ETHARP_FLAG_TRY_HARD_def ETHARP_FLAG_FIND_ONLY_def)
    then show thesis using refused(3) by simp
  next
    case (fresh i t)
    let ?Q = "Q(i := [])"
    define u where "u = upd_entry i (\<lambda>e. e\<lparr>arp_state := ETHARP_STATE_PENDING, arp_netif := Some n\<rparr>) t"
    note U = make_pending [OF ok fresh(4,6,1) nif, folded u_def]
    obtain e where e: "arp_table u = (arp_table s)[i := e]" "arp_state e = ETHARP_STATE_PENDING" "arp_ip e = ip" using U(4) by blast
    have len: "i < length (arp_table s)" using fresh(4) arp_okD(2) [OF ok] by simp
    obtain e0 where e0: "arp_table t = (arp_table s)[i := e0]" "arp_state e0 = ETHARP_STATE_EMPTY" using fresh(6) by (auto simp: renewed_def fresh_entry_def)
    have nm: "\<not> matches (Some ip) (arp_table s ! i)" using fresh(1) len by simp
    have cu: "clears szof (snd ` set (Q i)) s u" by (rule U(2))
    note lu = clears_leaves [OF cu]
    obtain rr v where v: "etharp_request api cf lo n ip u = Some (rr, v)" "keeps szof {} u v" "arp_ok szof ?Q v"
      "no_room szof PBUF_LINK 28 PBUF_RAM u \<and> arps.more v = arps.more s \<or> transmits lo n (arp_request_frame (netifs s n) ip) (arps.more s) (arps.more v)"
      using broadcast_request_ok [OF U(1) leaves_tcpip [OF lu tc], of n cf lo ip] nif leavesD(2) [OF lu] U(3) by (auto split: if_splits)
    have cv: "clears szof (snd ` set (Q i)) s v" using clears_trans [OF cu, of "{}" v] keeps_leaves [OF v(2)] by (simp add: clears_none)
    note sv = clears_leaves [OF cv]
    have tr: "no_room szof PBUF_LINK 28 PBUF_RAM s \<and> arps.more v = arps.more s \<or> transmits lo n (arp_request_frame (netifs s n) ip) (arps.more s) (arps.more v)"
      using v(4) clears_room [OF arp_okD(1) [OF ok] cu] by blast
    have ev: "arp_table v = (arp_table s)[i := e]" using keepsD(2) [OF v(2)] e(1) by simp
    have "set qs \<inter> owned Q = {}" using q by (simp add: outgoing_def)
    moreover have "snd ` set (Q i) \<subseteq> owned Q" using fresh(4) by (auto simp: owned_def)
    ultimately have dj: "set qs \<inter> snd ` set (Q i) = {}" "set qs \<inter> owned ?Q = {}" using owned_clear [of Q i] by blast+
    note O = leaves_outgoing [OF sv q dj]
    have st: "arp_state (arp_table v ! i) = ETHARP_STATE_PENDING" using ev e(2) len by simp
    obtain r s' Q' where r: "queue_packet api cf i q v = Some (r, s')" "arp_ok szof Q' s'" "arps.more s' = arps.more v" "same_entries i v s'"
      "if queue_full szof v (length (pdata s qs)) then r = ERR_MEM \<and> Q' = ?Q \<and> leaves szof {} v s' else r = ERR_OK \<and> queued_at szof i (pdata s qs) ?Q v Q' s'"
      using queue_packet_ok [OF v(3) leaves_tcpip [OF sv tc] fresh(4) st O(1), of cf] unfolding O(2) by blast
    have "length (?Q i) \<noteq> ARP_QUEUE_LEN" by (simp add: ARP_QUEUE_LEN_def)
    then have "card (memp_live szof (tm_pools v) MEMP_ARP_QUEUE) \<noteq> memp_num MEMP_ARP_QUEUE" using pool_exhausted [OF v(3)] fresh(4) by blast
    then have fs: "queue_full szof v (length (pdata s qs)) \<Longrightarrow> queue_full szof s (length (pdata s qs))" using clears_room [OF arp_okD(1) [OF ok] cv] by (simp add: queue_full_def)
    have hv: "hands szof {} Q s ?Q v" by (rule hands_clears [where Q = Q, OF cv fresh(4)])
    have eq: "etharp_query api cf lo n ip (Some q) s = Some (r, s')"
      using r(1) un fresh(5) e0 len v(1) st by (simp add: etharp_query_def queue_packet_def Let_def is_stable_def u_def)
    have et: "\<exists>e. arp_table s' = (arp_table s)[i := e] \<and> arp_state e = ETHARP_STATE_PENDING \<and> arp_ip e = ip"
      using r(4) ev e(2,3) len by (auto simp: same_entries_def)
    have xs: "[] = (if matches (Some ip) (arp_table s ! i) then Q i else [])" using nm by simp
    show thesis
    proof (cases "queue_full szof v (length (pdata s qs))")
      case full: True
      then have m: "leaves szof {} v s'" "Q' = ?Q" "r = ERR_MEM" using r(5) by simp_all
      have l: "leaves szof (snd ` set (Q i) \<union> snd ` set (Q' i)) s s'" by (rule leaves_trans [OF leaves_mono [OF sv] leaves_mono [OF m(1)]]) simp_all
      have h: "hands szof {} Q s Q' s'" using hands_trans [OF hv hands_leaves [OF m(1)]] m(2) by simp
      show thesis by (rule pending [OF True fresh(4) eq r(2) h l et xs]) (use m fs [OF full] fresh(1,3) nm tr r(3) in \<open>simp_all add: fun_upd_def\<close>)
    next
      case False
      then have qd: "queued_at szof i (pdata s qs) ?Q v Q' s'" "r = ERR_OK" using r(5) by simp_all
      note K = queued_ok [OF v(3) fresh(4) qd(1)]
      have l: "leaves szof (snd ` set (Q i) \<union> snd ` set (Q' i)) s s'" by (rule leaves_trans [OF leaves_mono [OF sv] leaves_mono [OF K(2)]]) simp_all
      have d: "queue_data s' (Q' i) = pushed (queue_data s []) (pdata s qs)" using K(3) by (simp add: queue_data_def)
      show thesis by (rule pending [OF True fresh(4) eq r(2) hands_trans [OF hv K(1)] l et xs]) (use K(4) d qd(2) fresh(1,3) nm tr r(3) in simp_all)
    qed
  qed
qed

section \<open>Output\<close>

lemma send_chain:
  assumes ok: "arp_ok szof Q s" and P: "packet s (Some q) qs" "buffers szof s qs" "length (pdata s qs) + 14 < 65536" and nq: "q \<notin> owned Q"
    and nif: "length (netif_hwaddr (netifs s n)) = 6" "length src = 6" "length dst = 6"
  shows "\<exists>e t. ethernet_output lo n q src dst ty s = Some (e, t) \<and> arp_ok szof Q t \<and> keeps szof {q} s t \<and>
    chain (pb_link t) (Some q) qs \<and> (\<forall>x\<in>set qs. live_pbuf szof t x \<and> pb_ref (pb t x) = pb_ref (pb s x)) \<and>
    (if SIZEOF_ETH_HDR \<le> header_room s q then transmits lo n (eth_frame dst src ty (pdata s qs)) (arps.more s) (arps.more t)
     else e = ERR_BUF \<and> arps.more t = arps.more s)"
proof -
  obtain qs' where qs: "qs = q # qs'" using P(1) by (auto simp: packet_def chain_Some)
  have tot: "pb_tot_len (pb s q) = length (pdata s qs)" by (rule packet_tot [OF P(1)])
  have l: "live_pbuf szof s q" "has_buffer s q" using P(2) qs by (auto simp: buffers_def)
  have le: "pb_len (pb s q) \<le> pb_tot_len (pb s q)" "pb_tot_len (pb s q) + SIZEOF_ETH_HDR < 65536" using tot P(3) qs by simp_all
  have ch: "chain (pb_link s) (Some q) qs" using P(1) by (simp add: packet_def)
  show ?thesis
  proof (cases "SIZEOF_ETH_HDR \<le> header_room s q")
    case True
    obtain t where t: "ethernet_output lo n q src dst ty s = Some (fst (lo n q t), arps.more_update (\<lambda>_. snd (lo n q t)) t)"
      "keeps szof {q} s t" "live_pbuf szof t q" "has_buffer t q" "pb t q = move_pb 14 (pb s q)" "seg t q = eth_frame dst src ty (seg s q)" "arps.more t = arps.more s"
      using ethernet_output_sends [OF arp_okD(1) [OF ok] l le True nif] by blast
    have c: "chain (pb_link s) (pb_next (pb s q)) qs'" "tots s qs'" using P(1) qs by (simp_all add: packet_def)
    have d: "q \<notin> set qs'" using packet_distinct [OF P(1)] qs by simp
    have k: "live_pbuf szof t x \<and> pb t x = pb s x \<and> seg t x = seg s x" if "x \<in> set qs'" for x
      using leaves_live [OF keeps_leaves [OF t(2)], of x] P(2) qs d that by (auto simp: buffers_def)
    have "chain (pb_link t) (pb_next (pb s q)) qs' = chain (pb_link s) (pb_next (pb s q)) qs'" using k by (intro chain_cong) (simp add: pb_link_def)
    moreover have "tots t qs' = tots s qs'" using k by (intro tots_cong) simp
    moreover have pd: "pdata t qs' = pdata s qs'" using k by (intro pdata_cong) blast
    ultimately have pt: "packet t (Some q) qs" using P(1,3) c qs t(5) tot by (simp add: packet_def move_pb_def nat_add_distrib)
    then have tr: "transmits lo n (eth_frame dst src ty (pdata s qs)) (arps.more s) (snd (lo n q t))"
      using t(6,7) pd qs unfolding transmits_def by (intro exI [of _ q] exI [of _ qs] exI [of _ t]) (simp add: eth_frame_def)
    let ?t = "arps.more_update (\<lambda>_. snd (lo n q t)) t"
    have "pb_link ?t = pb_link t" by (simp add: pb_link_def fun_eq_iff)
    then have "chain (pb_link ?t) (Some q) qs" using pt by (simp add: packet_def)
    moreover have "\<forall>x\<in>set qs. live_pbuf szof ?t x \<and> pb_ref (pb ?t x) = pb_ref (pb s x)" using k t(3,5) qs by (simp add: move_pb_def)
    moreover have "arp_ok szof Q ?t" using arp_ok_keeps [OF ok, of "{q}" ?t] t(2) nq by simp
    ultimately show ?thesis using t(1,2) tr True by simp
  next
    case False
    then have "pbuf_header (Some q) 14 s = Some (True, s)" using header_impl [OF l le(1), of 14] le(2) by simp
    moreover have "pb_link (STATS_INC link_lenerr s) = pb_link s" by (simp add: pb_link_def fun_eq_iff)
    ultimately show ?thesis using False ok ch P(2) by (simp add: ethernet_output_def keeps_refl arp_okD(1) buffers_def)
  qed
qed

lemma send_outgoing:
  assumes ok: "arp_ok szof Q s" and q: "outgoing szof Q s q qs" and nif: "length (netif_hwaddr (netifs s n)) = 6" "length dst = 6"
  shows "\<exists>e t. ethernet_output lo n q (netif_hwaddr (netifs s n)) dst ty s = Some (e, t) \<and> arp_ok szof Q t \<and> keeps szof {q} s t \<and> live_pbuf szof t q \<and>
    (if SIZEOF_ETH_HDR \<le> header_room s q then transmits lo n (eth_frame dst (netif_hwaddr (netifs s n)) ty (pdata s qs)) (arps.more s) (arps.more t)
     else e = ERR_BUF \<and> arps.more t = arps.more s)"
proof -
  have P: "packet s (Some q) qs" "buffers szof s qs" "length (pdata s qs) + 14 < 65536" using q by (simp_all add: outgoing_def)
  have qq: "q \<in> set qs" using P(1) by (auto simp: packet_def chain_Some)
  then have "q \<notin> owned Q" using q by (auto simp: outgoing_def)
  then show ?thesis using send_chain [OF ok P _ nif(1) nif(1) nif(2), of lo ty] qq by blast
qed

lemma stable_loop_ok:
  "stable_loop dst k T = Some i \<Longrightarrow> k \<le> i \<and> i < k + length T \<and> is_stable (arp_state (T ! (i - k))) \<and> arp_ip (T ! (i - k)) = dst"
  by (induction T arbitrary: k) (fastforce simp: nth_Cons' split: if_splits)+

abbreviation set_state :: "etharp_state \<Rightarrow> etharp_entry \<Rightarrow> etharp_entry" where
  "set_state st \<equiv> \<lambda>e. e\<lparr>arp_state := st\<rparr>"

lemma sends_append [simp]: "sends lo n (ds @ es) z z' \<longleftrightarrow> (\<exists>y. sends lo n ds z y \<and> sends lo n es y z')"
  by (induction ds arbitrary: z) auto

text \<open>Entry \<open>i\<close> stays stable; it may be refreshed by a request before the packet is sent.\<close>

definition refreshing :: "netif \<Rightarrow> ip4_addr \<Rightarrow> u8_t list list \<Rightarrow> bool" where
  "refreshing nif ip rs \<longleftrightarrow> rs = [] \<or> (\<exists>dst. rs = [eth_frame dst (netif_hwaddr nif) ETHTYPE_ARP (arp_bytes ARP_REQUEST (netif_hwaddr nif) (netif_ip nif) ethzero ip)])"

definition refresh :: "'h win32 \<Rightarrow> ('h, 'z arps_ext) custom_fn \<Rightarrow> ('h, 'z) link \<Rightarrow> nat \<Rightarrow> nat \<Rightarrow> ('h, 'z) arps_scheme \<Rightarrow> ('h, 'z) arps_scheme option" where
  "refresh api cf lo n i s = (let e = arp_table s ! i in
     if arp_state e = ETHARP_STATE_STABLE \<and> ARP_AGE_REREQUEST_USED_UNICAST \<le> arp_ctime e then
       etharp_request_dst api cf lo n (arp_ip e) (if ARP_AGE_REREQUEST_USED_BROADCAST \<le> arp_ctime e then ethbroadcast else arp_eth e) s \<bind>
         (\<lambda>(r, s). Some (if r = ERR_OK then upd_entry i (set_state ETHARP_STATE_STABLE_REREQUESTING_1) s else s))
     else Some s)"

lemma refresh_ok:
  assumes ok: "arp_ok szof Q s" and tc: "tcpip_inv szof api count maxi s" and i: "i < ARP_TABLE_SIZE" and st: "is_stable (arp_state (arp_table s ! i))"
    and nif: "length (netif_hwaddr (netifs s n)) = 6"
  shows "\<exists>t st rs. refresh api cf lo n i s = Some t \<and> arp_ok szof Q t \<and> leaves szof {} s t \<and> is_stable st \<and> arp_table t = (arp_table s)[i := set_state st (arp_table s ! i)] \<and>
    refreshing (netifs s n) (arp_ip (arp_table s ! i)) rs \<and> sends lo n rs (arps.more s) (arps.more t)"
proof -
  let ?e = "arp_table s ! i"
  let ?R = "set_state ETHARP_STATE_STABLE_REREQUESTING_1"
  have id: "arp_table s = (arp_table s)[i := set_state (arp_state ?e) ?e]" by simp
  show ?thesis
  proof (cases "arp_state ?e = ETHARP_STATE_STABLE \<and> ARP_AGE_REREQUEST_USED_UNICAST \<le> arp_ctime ?e")
    case False
    then have "refresh api cf lo n i s = Some s" by (auto simp: refresh_def)
    then show ?thesis using ok leaves_refl [OF arp_okD(1) [OF ok]] st id
      by (intro exI [of _ s] exI [of _ "arp_state ?e"] exI [of _ "[]"]) (simp add: refreshing_def)
  next
    case True
    let ?d = "if ARP_AGE_REREQUEST_USED_BROADCAST \<le> arp_ctime ?e then ethbroadcast else arp_eth ?e"
    let ?f = "eth_frame ?d (netif_hwaddr (netifs s n)) ETHTYPE_ARP (arp_bytes ARP_REQUEST (netif_hwaddr (netifs s n)) (netif_ip (netifs s n)) ethzero (arp_ip ?e))"
    have dl: "length ?d = 6" using arp_okD(5) [OF ok i] by (simp add: ethbroadcast_def entry_ok_def)
    obtain r t where t: "etharp_request_dst api cf lo n (arp_ip ?e) ?d s = Some (r, t)" "keeps szof {} s t" "arp_ok szof Q t"
      "r = ERR_OK \<and> transmits lo n ?f (arps.more s) (arps.more t) \<or> r = ERR_MEM \<and> arps.more t = arps.more s"
      using request_ok [OF ok tc nif dl, of cf lo "arp_ip ?e"] by (auto split: if_splits)
    have tab: "arp_table t = arp_table s" by (rule keepsD(2) [OF t(2)])
    have up: "arp_ok szof Q (upd_entry i ?R t)"
    proof (rule arp_ok_entry [OF t(3) i])
      show "entry_ok (netifs t) (Q i) (?R (arp_table t ! i))" using arp_okD(5) [OF t(3) i] st tab by (auto simp: entry_ok_def is_stable_def)
      show "\<not> clash (?R (arp_table t ! i)) (arp_table t ! j)" if "j < ARP_TABLE_SIZE" "j \<noteq> i" for j
        using arp_okD(6) [OF t(3) i that(1)] that(2) st tab by (auto simp: clash_def is_stable_def)
    qed simp
    have eq: "refresh api cf lo n i s = Some (if r = ERR_OK then upd_entry i ?R t else t)" using True t(1) by (simp add: refresh_def)
    show ?thesis
    proof (cases "r = ERR_OK")
      case r: True
      have "is_stable ETHARP_STATE_STABLE_REREQUESTING_1" by (simp add: is_stable_def)
      then show ?thesis using r eq up keeps_leaves [OF t(2)] tab t(4)
        by (intro exI [of _ "upd_entry i ?R t"] exI [of _ ETHARP_STATE_STABLE_REREQUESTING_1] exI [of _ "[?f]"]) (auto simp: refreshing_def)
    next
      case False
      then show ?thesis using eq t(3,4) keeps_leaves [OF t(2)] tab st id
        by (intro exI [of _ t] exI [of _ "arp_state ?e"] exI [of _ "[]"]) (simp add: refreshing_def)
    qed
  qed
qed

lemma to_index_ok:
  assumes ok: "arp_ok szof Q s" and tc: "tcpip_inv szof api count maxi s" and i: "i < ARP_TABLE_SIZE" and st: "is_stable (arp_state (arp_table s ! i))"
    and q: "outgoing szof Q s q qs" and nif: "length (netif_hwaddr (netifs s n)) = 6"
  shows "\<exists>e s' st rs. etharp_output_to_arp_index api cf lo n q i s = Some (e, s') \<and> arp_ok szof Q s' \<and> leaves szof {q} s s' \<and> live_pbuf szof s' q \<and>
    is_stable st \<and> arp_table s' = (arp_table s)[i := set_state st (arp_table s ! i)] \<and> refreshing (netifs s n) (arp_ip (arp_table s ! i)) rs \<and>
    (if SIZEOF_ETH_HDR \<le> header_room s q
     then sends lo n (rs @ [eth_frame (arp_eth (arp_table s ! i)) (netif_hwaddr (netifs s n)) ETHTYPE_IP (pdata s qs)]) (arps.more s) (arps.more s')
     else e = ERR_BUF \<and> sends lo n rs (arps.more s) (arps.more s'))"
proof -
  let ?e = "arp_table s ! i"
  have li: "i < length (arp_table s)" using i arp_okD(2) [OF ok] by simp
  have eq: "etharp_output_to_arp_index api cf lo n q i s =
      refresh api cf lo n i s \<bind> (\<lambda>s. ethernet_output lo n q (netif_hwaddr (netifs s n)) (arp_eth (arp_table s ! i)) ETHTYPE_IP s)"
    using st by (auto simp: etharp_output_to_arp_index_def refresh_def etharp_request_def Let_def ARP_AGE_REREQUEST_USED_UNICAST_def ARP_AGE_REREQUEST_USED_BROADCAST_def)
  obtain t st' rs where t: "refresh api cf lo n i s = Some t" "arp_ok szof Q t" "leaves szof {} s t" "is_stable st'" "arp_table t = (arp_table s)[i := set_state st' ?e]"
    "refreshing (netifs s n) (arp_ip ?e) rs" "sends lo n rs (arps.more s) (arps.more t)"
    using refresh_ok [OF ok tc i st nif, of cf lo] by blast
  have Q: "packet s (Some q) qs" "buffers szof s qs" "set qs \<inter> owned Q = {}" using q by (simp_all add: outgoing_def)
  have qq: "q \<in> set qs" using Q(1) by (auto simp: packet_def chain_Some)
  have O: "outgoing szof Q t q qs" "pdata t qs = pdata s qs" using leaves_outgoing [OF t(3) q _ Q(3)] by simp_all
  have room: "header_room t q = header_room s q" using leaves_packet(4) [OF t(3) Q(1,2) _ qq] by (simp add: header_room_def)
  have nt: "netifs t = netifs s" by (rule leavesD(2) [OF t(3)])
  have et: "arp_eth (arp_table t ! i) = arp_eth ?e" using t(5) li by simp
  have eth: "length (arp_eth ?e) = 6" using arp_okD(5) [OF ok i] by (simp add: entry_ok_def)
  have hw: "length (netif_hwaddr (netifs t n)) = 6" using nif nt by simp
  obtain e u where u: "ethernet_output lo n q (netif_hwaddr (netifs s n)) (arp_eth ?e) ETHTYPE_IP t = Some (e, u)" "arp_ok szof Q u" "keeps szof {q} t u" "live_pbuf szof u q"
    "if SIZEOF_ETH_HDR \<le> header_room s q then transmits lo n (eth_frame (arp_eth ?e) (netif_hwaddr (netifs s n)) ETHTYPE_IP (pdata s qs)) (arps.more t) (arps.more u)
     else e = ERR_BUF \<and> arps.more u = arps.more t"
    using send_outgoing [OF t(2) O(1) hw eth, of lo ETHTYPE_IP] unfolding nt O(2) room by blast
  have "leaves szof {q} s u" by (rule leaves_trans [OF leaves_mono [OF t(3)] keeps_leaves [OF u(3)]]) simp
  moreover have "etharp_output_to_arp_index api cf lo n q i s = Some (e, u)" using eq t(1) u(1) nt et by simp
  moreover have "arp_table u = (arp_table s)[i := set_state st' ?e]" using keepsD(2) [OF u(3)] t(5) by simp
  ultimately show ?thesis using t(4,6,7) u(2,4,5) by (intro exI [of _ e] exI [of _ u] exI [of _ st'] exI [of _ rs]) auto
qed

lemma cached_simps [simp]:
  "leaves szof X (s\<lparr>etharp_cached_entry := i\<rparr>) t = leaves szof X s t" "outgoing szof Q (s\<lparr>etharp_cached_entry := i\<rparr>) q qs = outgoing szof Q s q qs"
  "tcpip_inv szof api count maxi (s\<lparr>etharp_cached_entry := i\<rparr>) = tcpip_inv szof api count maxi s"
proof -
  have l: "load (s\<lparr>etharp_cached_entry := i\<rparr>) = load s" "block szof (s\<lparr>etharp_cached_entry := i\<rparr>) = block szof s"
    by (simp_all add: load_def block_def fun_eq_iff split: region.splits)
  then show "leaves szof X (s\<lparr>etharp_cached_entry := i\<rparr>) t = leaves szof X s t" by (simp add: leaves_def)
  have g: "seg (s\<lparr>etharp_cached_entry := i\<rparr>) = seg s" by (simp add: fun_eq_iff seg_def load_bytes_def l)
  then have "pdata (s\<lparr>etharp_cached_entry := i\<rparr>) ps = pdata s ps" for ps by (simp add: pdata_def)
  moreover have "pb_link (s\<lparr>etharp_cached_entry := i\<rparr>) = pb_link s" by (simp add: fun_eq_iff pb_link_def)
  moreover have "tots (s\<lparr>etharp_cached_entry := i\<rparr>) ps = tots s ps" for ps by (rule tots_cong) simp
  moreover have "live_pbuf szof (s\<lparr>etharp_cached_entry := i\<rparr>) p = live_pbuf szof s p" for p by (simp add: live_pbuf_block l has_buffer_def payload_in_def)
  ultimately show "outgoing szof Q (s\<lparr>etharp_cached_entry := i\<rparr>) q qs = outgoing szof Q s q qs"
    by (simp add: outgoing_def packet_def buffers_def has_buffer_def)
  show "tcpip_inv szof api count maxi (s\<lparr>etharp_cached_entry := i\<rparr>) = tcpip_inv szof api count maxi s"
    by (simp add: tcpip_inv_def msg_live_def queued_def)
qed

lemma stats_simps [simp]:
  "leaves szof X (STATS_INC k s) t = leaves szof X s t" "outgoing szof Q (STATS_INC k s) q qs = outgoing szof Q s q qs"
  "tcpip_inv szof api count maxi (STATS_INC k s) = tcpip_inv szof api count maxi s"
proof -
  show "leaves szof X (STATS_INC k s) t = leaves szof X s t" by (simp add: leaves_def) (simp add: STATS_INC_def)
  have g: "seg (STATS_INC k s) = seg s" by (simp add: fun_eq_iff seg_def load_bytes_def)
  then have "pdata (STATS_INC k s) ps = pdata s ps" for ps by (simp add: pdata_def)
  moreover have "pb_link (STATS_INC k s) = pb_link s" by (simp add: fun_eq_iff pb_link_def)
  moreover have "tots (STATS_INC k s) ps = tots s ps" for ps by (rule tots_cong) simp
  ultimately show "outgoing szof Q (STATS_INC k s) q qs = outgoing szof Q s q qs" by (simp add: outgoing_def packet_def buffers_def)
  show "tcpip_inv szof api count maxi (STATS_INC k s) = tcpip_inv szof api count maxi s"
    by (simp add: tcpip_inv_def msg_live_def queued_def) (simp add: STATS_INC_def)
qed

lemma outgoing_live: "outgoing szof Q s q qs \<Longrightarrow> live_pbuf szof s q" "outgoing szof Q s q qs \<Longrightarrow> q \<notin> owned Q"
  by (auto simp: outgoing_def packet_def chain_Some buffers_def)

lemma hands_live:
  assumes "hands szof X Q s Q' s'" "live_pbuf szof s q" "q \<notin> owned Q" "q \<notin> X"
  shows "live_pbuf szof s' q"
proof (rule leaves_live(1) [OF handsD(1) [OF assms(1)] assms(2)])
  have "q \<notin> owned Q'" using handsD(3) [OF assms(1), of q] assms(2-4) by (auto simp: live_pbuf_block)
  then show "q \<notin> X \<union> owned Q \<union> owned Q'" using assms(3,4) by simp
qed

lemma query_ok:
  assumes ok: "arp_ok szof Q s" and tc: "tcpip_inv szof api count maxi s" and q: "outgoing szof Q s q qs" and nif: "length (netif_hwaddr (netifs s n)) = 6"
  shows "\<exists>e s' Q'. etharp_query api cf lo n ip (Some q) s = Some (e, s') \<and> arp_ok szof Q' s' \<and> hands szof {q} Q s Q' s' \<and> live_pbuf szof s' q"
  using ok tc nif q
proof (cases rule: query_cases [where ip = ip and cf = cf and lo = lo])
  case bad
  then show ?thesis using ok outgoing_live(1) [OF q] hands_leaves [OF leaves_refl [OF arp_okD(1) [OF ok]]] by auto
next
  case (sent i)
  have six: "length (arp_eth (arp_table s ! i)) = 6" using arp_okD(5) [OF ok sent(2)] by (simp add: entry_ok_def)
  let ?s = "s\<lparr>etharp_cached_entry := i\<rparr>"
  have h: "outgoing szof Q ?s q qs" "length (netif_hwaddr (netifs ?s n)) = 6" using q nif by simp_all
  obtain e t where t: "ethernet_output lo n q (netif_hwaddr (netifs ?s n)) (arp_eth (arp_table s ! i)) ETHTYPE_IP ?s = Some (e, t)" "arp_ok szof Q t" "keeps szof {q} ?s t" "live_pbuf szof t q"
    using send_outgoing [OF arp_ok_cached [OF ok sent(2)] h six, of lo ETHTYPE_IP] by blast
  have "etharp_query api cf lo n ip (Some q) s = Some (e, t)" using sent(5) t(1) by simp
  moreover have "hands szof {q} Q s Q t" using hands_leaves [OF keeps_leaves [OF t(3)], of Q] by (simp add: hands_def)
  ultimately show ?thesis using t(2,4) by blast
next
  case (pending i r s' Q')
  then show ?thesis using hands_mono [OF pending(5), of "{q}"] hands_live [OF pending(5) outgoing_live [OF q]] by blast
qed

definition off_link :: "netif \<Rightarrow> ip4_addr \<Rightarrow> bool" where
  "off_link nif ip \<longleftrightarrow> \<not> ip4_addr_netcmp ip (netif_ip nif) (netif_netmask nif) \<and> \<not> ip4_addr_islinklocal ip"

definition next_hop :: "netif \<Rightarrow> ip4_addr \<Rightarrow> ip4_addr" where
  "next_hop nif ip = (if off_link nif ip then netif_gw nif else ip)"

lemma output_eq:
  assumes "\<not> ip4_addr_isbroadcast_u32 ip (netifs s n)" "\<not> ip4_addr_ismulticast ip" "\<not> (off_link (netifs s n) ip \<and> ip4_addr_isany (netif_gw (netifs s n)))"
  shows "etharp_output api cf lo n q ip s = (let dst = next_hop (netifs s n) ip; c = etharp_cached_entry s in
    if is_stable (arp_state (arp_table s ! c)) \<and> dst = arp_ip (arp_table s ! c) then etharp_output_to_arp_index api cf lo n q c (STATS_INC stat_cachehit s)
    else case stable_loop dst 0 (arp_table s) of Some i \<Rightarrow> etharp_output_to_arp_index api cf lo n q i (s\<lparr>etharp_cached_entry := i\<rparr>)
      | None \<Rightarrow> etharp_query api cf lo n dst (Some q) s)"
  using assms unfolding etharp_output_def Let_def next_hop_def off_link_def by (simp only: conj_assoc if_False if_True simp_thms)

lemma output_ok:
  assumes ok: "arp_ok szof Q s" and tc: "tcpip_inv szof api count maxi s" and q: "outgoing szof Q s q qs" and nif: "length (netif_hwaddr (netifs s n)) = 6"
  shows "\<exists>e s' Q'. etharp_output api cf lo n q ip s = Some (e, s') \<and> arp_ok szof Q' s' \<and> hands szof {q} Q s Q' s' \<and> live_pbuf szof s' q"
proof -
  have len: "length (arp_table s) = ARP_TABLE_SIZE" by (rule arp_okD(2) [OF ok])
  have direct: "\<exists>e t. ethernet_output lo n q (netif_hwaddr (netifs s n)) dst ETHTYPE_IP s = Some (e, t) \<and> arp_ok szof Q t \<and> hands szof {q} Q s Q t \<and> live_pbuf szof t q" if "length dst = 6" for dst
    using send_outgoing [OF ok q nif that, of lo ETHTYPE_IP] hands_leaves [OF keeps_leaves, of szof "{q}" s _ Q] by blast
  have index: "\<exists>e t Q'. etharp_output_to_arp_index api cf lo n q i t0 = Some (e, t) \<and> arp_ok szof Q' t \<and> hands szof {q} Q s Q' t \<and> live_pbuf szof t q"
    if t0: "t0 = s\<lparr>etharp_cached_entry := i\<rparr> \<or> t0 = STATS_INC stat_cachehit s" "i < ARP_TABLE_SIZE" "is_stable (arp_state (arp_table s ! i))" for i t0
  proof -
    have T: "arp_ok szof Q t0" "tcpip_inv szof api count maxi t0" "outgoing szof Q t0 q qs" "netifs t0 = netifs s" "arp_table t0 = arp_table s" "\<And>X t. leaves szof X t0 t = leaves szof X s t"
      using t0 ok tc q by (auto intro: arp_ok_cached)
    obtain e t where "etharp_output_to_arp_index api cf lo n q i t0 = Some (e, t)" "arp_ok szof Q t" "leaves szof {q} s t" "live_pbuf szof t q"
      using to_index_ok [OF T(1,2) t0(2) _ T(3), of n cf lo] t0(3) nif T(4-6) by auto
    then show ?thesis using hands_leaves [of szof "{q}" s t Q] by blast
  qed
  let ?nif = "netifs s n"
  let ?out = "off_link ?nif ip"
  consider "ip4_addr_isbroadcast_u32 ip ?nif \<or> ip4_addr_ismulticast ip" | "\<not> ip4_addr_isbroadcast_u32 ip ?nif" "\<not> ip4_addr_ismulticast ip" "?out" "ip4_addr_isany (netif_gw ?nif)"
    | "\<not> ip4_addr_isbroadcast_u32 ip ?nif" "\<not> ip4_addr_ismulticast ip" "\<not> (?out \<and> ip4_addr_isany (netif_gw ?nif))" by blast
  then show ?thesis
  proof cases
    case 1
    then show ?thesis using direct [of ethbroadcast] direct [of "[0x01, 0x00, 0x5e, ucast (drop_bit 8 ip) AND 0x7f, ucast (drop_bit 16 ip), ucast (drop_bit 24 ip)]"]
      by (cases "ip4_addr_isbroadcast_u32 ip ?nif") (auto simp: etharp_output_def Let_def ethbroadcast_def)
  next
    case 2
    then show ?thesis using ok outgoing_live(1) [OF q] hands_leaves [OF leaves_refl [OF arp_okD(1) [OF ok]]] by (auto simp: etharp_output_def Let_def off_link_def)
  next
    case 3
    define dst where "dst = next_hop ?nif ip"
    let ?c = "etharp_cached_entry s"
    note eq = output_eq [OF 3, of api cf lo q, unfolded Let_def, folded dst_def]
    show ?thesis
    proof (cases "is_stable (arp_state (arp_table s ! ?c)) \<and> dst = arp_ip (arp_table s ! ?c)")
      case True
      then show ?thesis using index [of "STATS_INC stat_cachehit s" ?c] arp_okD(3) [OF ok] unfolding eq by simp
    next
      case False
      show ?thesis
      proof (cases "stable_loop dst 0 (arp_table s)")
        case None
        then show ?thesis using query_ok [OF ok tc q nif, of cf lo dst] unfolding eq if_not_P [OF False] by simp
      next
        case (Some i)
        then have "i < ARP_TABLE_SIZE" "is_stable (arp_state (arp_table s ! i))" using stable_loop_ok [OF Some] len by simp_all
        then show ?thesis using Some index [of "s\<lparr>etharp_cached_entry := i\<rparr>" i] unfolding eq if_not_P [OF False] by simp
      qed
    qed
  qed
qed

end
