(* ===== verification/Etharp_Input.thy ===== *)
theory Etharp_Input
  imports Etharp_Query
begin

text \<open>
  Receiving: \<open>etharp_input\<close> as a function of the bytes of the packet.
\<close>

unbundle bit_operations_syntax

section \<open>Fields of the header\<close>

definition word16_at :: "u8_t list \<Rightarrow> nat \<Rightarrow> u16_t" where
  "word16_at d i = ucast (d ! i) OR push_bit 8 (ucast (d ! (i + 1)))"

definition word32_at :: "u8_t list \<Rightarrow> nat \<Rightarrow> u32_t" where
  "word32_at d i = ucast (d ! i) OR push_bit 8 (ucast (d ! (i + 1))) OR push_bit 16 (ucast (d ! (i + 2))) OR push_bit 24 (ucast (d ! (i + 3)))"

lemma word16_bytes [simp]: "word16_at (bytes16 w) 0 = w"
  by (rule bit_word_eqI) (auto simp: word16_at_def bytes16_def bit_simps)

lemma word32_bytes [simp]: "word32_at (bytes32 w) 0 = w"
proof -
  let ?v = "(ucast (ucast w :: u8_t) :: u32_t) OR push_bit 8 (ucast (ucast (drop_bit 8 w) :: u8_t)) OR
    push_bit 16 (ucast (ucast (drop_bit 16 w) :: u8_t)) OR push_bit 24 (ucast (ucast (drop_bit 24 w) :: u8_t))"
  have "bit ?v n = bit w n" if "n < 32" for n using that by (cases "16 \<le> n"; cases "24 \<le> n") (auto simp: bit_simps)
  then have "?v = w" by (intro bit_word_eqI) simp
  then show ?thesis by (simp add: word32_at_def bytes32_def)
qed

lemma bytes16_word: "bytes16 (ucast a OR push_bit 8 (ucast b)) = [a, b]"
proof -
  have "(ucast (ucast a OR push_bit 8 (ucast b) :: u16_t) :: u8_t) = a" by (rule bit_word_eqI) (auto simp: bit_simps)
  moreover have "(ucast (drop_bit 8 (ucast a OR push_bit 8 (ucast b) :: u16_t)) :: u8_t) = b" by (rule bit_word_eqI) (auto simp: bit_simps dest: bit_imp_le_length)
  ultimately show ?thesis by (simp add: bytes16_def)
qed

lemma bytes32_word: "bytes32 (ucast a OR push_bit 8 (ucast b) OR push_bit 16 (ucast c) OR push_bit 24 (ucast d)) = [a, b, c, d]" (is "bytes32 ?w = _")
proof -
  have "(ucast ?w :: u8_t) = a" by (rule bit_word_eqI) (auto simp: bit_simps)
  moreover have "(ucast (drop_bit 8 ?w) :: u8_t) = b" by (rule bit_word_eqI) (auto simp: bit_simps dest: bit_imp_le_length)
  moreover have "(ucast (drop_bit 16 ?w) :: u8_t) = c" by (rule bit_word_eqI) (auto simp: bit_simps dest: bit_imp_le_length)
  moreover have "(ucast (drop_bit 24 ?w) :: u8_t) = d" by (rule bit_word_eqI) (auto simp: bit_simps dest: bit_imp_le_length)
  ultimately show ?thesis by (simp add: bytes32_def)
qed

lemma take_one: "i + 1 \<le> length d \<Longrightarrow> take 1 (drop i d) = [d ! i]"
  by (simp add: take_Suc_conv_app_nth hd_drop_conv_nth take_Suc)

lemma bytes16_at: "i + 2 \<le> length d \<Longrightarrow> bytes16 (word16_at d i) = take 2 (drop i d)"
  by (simp add: word16_at_def bytes16_word numeral_2_eq_2 take_Suc_conv_app_nth)

lemma bytes32_at: "i + 4 \<le> length d \<Longrightarrow> bytes32 (word32_at d i) = take 4 (drop i d)"
  unfolding word32_at_def bytes32_word by (simp add: eval_nat_numeral take_Suc_conv_app_nth)

text \<open>Every packet of 28 bytes or more starts with an ARP header, the right types and sizes given.\<close>

definition arp_header :: "u8_t list \<Rightarrow> bool" where
  "arp_header d \<longleftrightarrow> word16_at d 0 = lwip_htons HWTYPE_ETHERNET \<and> d ! 4 = of_nat ETH_HWADDR_LEN \<and> d ! 5 = 4 \<and> word16_at d 2 = lwip_htons ETHTYPE_IP"

lemma arp_decode:
  assumes "28 \<le> length d" "arp_header d"
  obtains opcode sha sip tha tip r where "d = arp_bytes opcode sha sip tha tip @ r" "length sha = 6" "length tha = 6"
proof -
  have "d = take 2 (drop 0 d) @ take 2 (drop 2 d) @ take 1 (drop 4 d) @ take 1 (drop 5 d) @ take 2 (drop 6 d) @ take 6 (drop 8 d) @ take 4 (drop 14 d) @
      take 6 (drop 18 d) @ take 4 (drop 24 d) @ drop 28 d"
    using append_take_drop_id [of 4 "drop 24 d"] append_take_drop_id [of 6 "drop 18 d"] append_take_drop_id [of 4 "drop 14 d"] append_take_drop_id [of 6 "drop 8 d"]
      append_take_drop_id [of 2 "drop 6 d"] append_take_drop_id [of 1 "drop 5 d"] append_take_drop_id [of 1 "drop 4 d"] append_take_drop_id [of 2 "drop 2 d"] append_take_drop_id [of 2 d]
    by simp
  also have "\<dots> = arp_bytes (lwip_htons (word16_at d 6)) (take 6 (drop 8 d)) (word32_at d 14) (take 6 (drop 18 d)) (word32_at d 24) @ drop 28 d"
    using assms bytes16_at [of 0 d] bytes16_at [of 2 d] bytes16_at [of 6 d] bytes32_at [of 14 d] bytes32_at [of 24 d] take_one [of 4 d] take_one [of 5 d]
    by (simp only: arp_bytes_def arp_header_def htons_htons) (simp del: drop_drop)
  finally show thesis by (rule that) (use assms(1) in simp_all)
qed

lemma arp_fields:
  assumes "d = arp_bytes opcode sha sip tha tip @ r" "length sha = 6" "length tha = 6"
  shows "arp_header d" "word16_at d 6 = lwip_htons opcode" "take 6 (drop 8 d) = sha" "word32_at d 14 = sip" "take 6 (drop 18 d) = tha" "word32_at d 24 = tip" "28 \<le> length d"
proof -
  have w: "word16_at d i = word16_at (take 2 (drop i d)) 0" if "i + 2 \<le> length d" for i using that by (simp add: word16_at_def)
  have v: "word32_at d i = word32_at (take 4 (drop i d)) 0" if "i + 4 \<le> length d" for i using that by (simp add: word32_at_def)
  show len: "28 \<le> length d" using assms by (simp add: arp_bytes_def)
  have "take 2 (drop 0 d) = bytes16 (lwip_htons HWTYPE_ETHERNET)" "take 2 (drop 2 d) = bytes16 (lwip_htons ETHTYPE_IP)" "take 2 (drop 6 d) = bytes16 (lwip_htons opcode)"
    "take 4 (drop 14 d) = bytes32 sip" "take 4 (drop 24 d) = bytes32 tip" "d ! 4 = 6" "d ! 5 = 4"
    using assms(2,3) by (simp_all add: assms(1) arp_bytes_def nth_append)
  then show "arp_header d" "word16_at d 6 = lwip_htons opcode" "word32_at d 14 = sip" "word32_at d 24 = tip"
    using w [of 0] w [of 2] w [of 6] v [of 14] v [of 24] len by (simp_all add: arp_header_def)
  show "take 6 (drop 8 d) = sha" "take 6 (drop 18 d) = tha" using assms(2,3) by (simp_all add: assms(1) arp_bytes_def)
qed

lemma length_arp_bytes [simp]: "length sha = 6 \<Longrightarrow> length tha = 6 \<Longrightarrow> length (arp_bytes opcode sha sip tha tip) = 28"
  by (simp add: arp_bytes_def)

lemma padd_padd: "padd (padd p i) j = padd p (i + j)"
  by (simp add: padd_def)

lemma load_seg: "i < pb_len (pb s p) \<Longrightarrow> load s (padd (pb_payload (pb s p)) i) = seg s p ! i"
  by (simp add: seg_def load_bytes_def)

lemma load16_seg: "i + 2 \<le> pb_len (pb s p) \<Longrightarrow> load16 s (padd (pb_payload (pb s p)) i) = word16_at (seg s p) i"
  using load_seg [of i s p] load_seg [of "i + 1" s p] by (simp add: load16_def word16_at_def padd_padd)

lemma load32_seg: "i + 4 \<le> pb_len (pb s p) \<Longrightarrow> load32 s (padd (pb_payload (pb s p)) i) = word32_at (seg s p) i"
  using load_seg [of i s p] load_seg [of "i + 1" s p] load_seg [of "i + 2" s p] load_seg [of "i + 3" s p] by (simp add: load32_def word32_at_def padd_padd)

text \<open>A received packet: its first pbuf holds the header.\<close>

definition incoming :: "(memp_t \<Rightarrow> nat) \<Rightarrow> (nat \<Rightarrow> (nat \<times> ptr) list) \<Rightarrow> ('h, 'z) arps_scheme \<Rightarrow> ptr \<Rightarrow> ptr list \<Rightarrow> bool" where
  "incoming szof Q s p ps \<longleftrightarrow> packet s (Some p) ps \<and> buffers szof s ps \<and> (\<forall>x\<in>set ps. 0 < pb_ref (pb s x)) \<and> SIZEOF_ETHARP_HDR \<le> pb_len (pb s p) \<and>
     length (pdata s ps) + SIZEOF_ETH_HDR < 65536 \<and> set ps \<inter> owned Q = {}"

lemma leaves_incoming:
  assumes "leaves szof X s s'" "incoming szof Q s p ps" "set ps \<inter> X = {}" "set ps \<inter> owned Q' = {}"
  shows "incoming szof Q' s' p ps" "pdata s' ps = pdata s ps" "seg s' p = seg s p" "pb s' p = pb s p"
proof -
  have i: "packet s (Some p) ps" "buffers szof s ps" using assms(2) by (simp_all add: incoming_def)
  have p: "p \<in> set ps" using i(1) by (auto simp: packet_def chain_Some)
  note P = leaves_packet [OF assms(1) i assms(3)]
  show "pdata s' ps = pdata s ps" "pb s' p = pb s p" using P(3,4) p by blast+
  show "incoming szof Q' s' p ps" using P p assms(2,4) by (simp add: incoming_def)
  show "seg s' p = seg s p" using leaves_live(3) [OF assms(1), of p] i(2) p assms(3) by (auto simp: buffers_def)
qed

section \<open>The reply\<close>

definition answer :: "('h, 'z) link \<Rightarrow> nat \<Rightarrow> ptr \<Rightarrow> ptr \<Rightarrow> ('h, 'z) arps_scheme \<Rightarrow> ('h, 'z) arps_scheme option" where
  "answer lo n p hdr s = do {
     let s = store (padd hdr 6) (bytes16 (lwip_htons ARP_REPLY)) s;
     let s = store (padd hdr 24) (load_bytes s (padd hdr 14) 4) s;
     let s = store (padd hdr 14) (bytes32 (netif_ip (netifs s n))) s;
     lwip_assert (length (netif_hwaddr (netifs s n)) = ETH_HWADDR_LEN);
     let s = store (padd hdr 18) (load_bytes s (padd hdr 8) ETH_HWADDR_LEN) s;
     let s = store (padd hdr 8) (netif_hwaddr (netifs s n)) s;
     (_, s) \<leftarrow> ethernet_output lo n p (load_bytes s (padd hdr 8) ETH_HWADDR_LEN) (load_bytes s (padd hdr 18) ETH_HWADDR_LEN) ETHTYPE_ARP s;
     Some s }"

lemma stored_load:
  assumes "stored szof p s t d" "i + n \<le> length d"
  shows "load_bytes t (padd (pb_payload (pb s p)) i) n = take n (drop i d)"
proof -
  have t: "pb t = pb s" "seg t p = d" using assms(1) by (simp_all add: stored_def)
  have "pb_len (pb s p) = length d" using t by (metis length_seg)
  then show ?thesis using seg_part [of i n t p] t assms(2) by simp
qed

definition arp_reply_bytes :: "netif \<Rightarrow> eth_addr \<Rightarrow> ip4_addr \<Rightarrow> u8_t list" where
  "arp_reply_bytes nif sha sip = arp_bytes ARP_REPLY (netif_hwaddr nif) (netif_ip nif) sha sip"

lemma reply_stored:
  assumes inv: "pbufs_inv szof s" and p: "live_pbuf szof s p" "has_buffer s p" and nif: "length (netif_hwaddr (netifs s n)) = 6"
    and d: "seg s p = arp_bytes opcode sha sip tha tip @ r" "length sha = 6" "length tha = 6"
  shows "\<exists>t. answer lo n p (pb_payload (pb s p)) s =
      ethernet_output lo n p (netif_hwaddr (netifs s n)) sha ETHTYPE_ARP t \<bind> (\<lambda>(_, s). Some s) \<and>
    stored szof p s t (arp_reply_bytes (netifs s n) sha sip @ r)"
proof -
  let ?h = "pb_payload (pb s p)" and ?hw = "netif_hwaddr (netifs s n)"
  have len: "length (seg s p) = 28 + length r" using d by (simp only: d(1)) (simp add: arp_bytes_def)
  define t1 where "t1 = store (padd ?h 6) (bytes16 (lwip_htons ARP_REPLY)) s"
  have s1: "stored szof p s t1 (arp_bytes ARP_REPLY sha sip tha tip @ r)"
    using stored_store [OF stored_start [OF inv p], of 6 "bytes16 (lwip_htons ARP_REPLY)"] len d(2,3) unfolding t1_def d(1) by (simp add: patch_def arp_bytes_def)
  define t2 where "t2 = store (padd ?h 24) (load_bytes t1 (padd ?h 14) 4) t1"
  have s2: "stored szof p s t2 (arp_bytes ARP_REPLY sha sip tha sip @ r)"
    using stored_store [OF s1, of 24 "bytes32 sip"] stored_load [OF s1, of 14 4] d(2,3) unfolding t2_def by (simp add: patch_def arp_bytes_def)
  define t3 where "t3 = store (padd ?h 14) (bytes32 (netif_ip (netifs s n))) t2"
  have s3: "stored szof p s t3 (arp_bytes ARP_REPLY sha (netif_ip (netifs s n)) tha sip @ r)"
    using stored_store [OF s2, of 14 "bytes32 (netif_ip (netifs s n))"] d(2,3) unfolding t3_def by (simp add: patch_def arp_bytes_def)
  define t4 where "t4 = store (padd ?h 18) (load_bytes t3 (padd ?h 8) 6) t3"
  have s4: "stored szof p s t4 (arp_bytes ARP_REPLY sha (netif_ip (netifs s n)) sha sip @ r)"
    using stored_store [OF s3, of 18 sha] stored_load [OF s3, of 8 6] d(2,3) unfolding t4_def by (simp add: patch_def arp_bytes_def)
  define t5 where "t5 = store (padd ?h 8) ?hw t4"
  have s5: "stored szof p s t5 (arp_reply_bytes (netifs s n) sha sip @ r)"
    using stored_store [OF s4, of 8 ?hw] nif d(2,3) unfolding t5_def arp_reply_bytes_def by (simp add: patch_def arp_bytes_def)
  have n: "netifs t1 = netifs s" "netifs t2 = netifs s" "netifs t3 = netifs s" "netifs t4 = netifs s" by (simp_all add: t1_def t2_def t3_def t4_def)
  have src: "load_bytes t5 (padd ?h 8) 6 = ?hw" "load_bytes t5 (padd ?h 18) 6 = sha"
    using stored_load [OF s5, of 8 6] stored_load [OF s5, of 18 6] nif d(2,3) by (simp_all add: arp_reply_bytes_def arp_bytes_def)
  have "answer lo n p ?h s = ethernet_output lo n p ?hw sha ETHTYPE_ARP t5 \<bind> (\<lambda>(_, s). Some s)"
    using nif unfolding answer_def Let_def t1_def [symmetric] n t2_def [symmetric] t3_def [symmetric] eth_sizes t4_def [symmetric] t5_def [symmetric] src by simp
  then show ?thesis using s5 by blast
qed

text \<open>The packet is turned into the reply and sent, if there is room for the Ethernet header.\<close>

lemma stored_packet:
  assumes st: "stored szof p s t d" and P: "packet s (Some p) (p # ps)" "buffers szof s (p # ps)"
  shows "packet t (Some p) (p # ps)" "buffers szof t (p # ps)" "pdata t (p # ps) = d @ pdata s ps" "\<And>x. pb t x = pb s x"
proof -
  have t: "keeps szof {p} s t" "pb t = pb s" "live_pbuf szof t p" "has_buffer t p" "seg t p = d" using st by (simp_all add: stored_def)
  show "pb t x = pb s x" for x by (simp add: t(2))
  have np: "p \<notin> set ps" using packet_distinct [OF P(1)] by simp
  have k: "live_pbuf szof t x \<and> seg t x = seg s x" if "x \<in> set ps" for x
    using leaves_live [OF keeps_leaves [OF t(1)], of x] P(2) that np by (auto simp: buffers_def)
  then have e: "pdata t ps = pdata s ps" by (intro pdata_cong) (simp add: t(2))
  then show d: "pdata t (p # ps) = d @ pdata s ps" using t(5) by simp
  have "pb_link t = pb_link s" using t(2) by (simp add: pb_link_def fun_eq_iff)
  moreover have "tots t (p # ps) = tots s (p # ps)" using t(2) by (intro tots_cong) simp
  ultimately show "packet t (Some p) (p # ps)" using P(1) e t(2) unfolding packet_def by simp
  show "buffers szof t (p # ps)" using k t(2-4) P(2) by (simp add: buffers_def has_buffer_def)
qed

lemma answer_ok:
  assumes ok: "arp_ok szof Q s" and p: "incoming szof Q s p ps" and nif: "length (netif_hwaddr (netifs s n)) = 6"
    and d: "pdata s ps = arp_bytes opcode sha sip tha tip @ r" "length sha = 6" "length tha = 6"
  shows "\<exists>t. answer lo n p (pb_payload (pb s p)) s = Some t \<and> arp_ok szof Q t \<and> keeps szof {p} s t \<and> chain (pb_link t) (Some p) ps \<and>
    (\<forall>x\<in>set ps. live_pbuf szof t x \<and> pb_ref (pb t x) = pb_ref (pb s x)) \<and>
    (if SIZEOF_ETH_HDR \<le> header_room s p then
       transmits lo n (eth_frame sha (netif_hwaddr (netifs s n)) ETHTYPE_ARP (arp_reply_bytes (netifs s n) sha sip @ r)) (arps.more s) (arps.more t)
     else arps.more t = arps.more s)"
proof -
  have P: "packet s (Some p) ps" "buffers szof s ps" "28 \<le> pb_len (pb s p)" "length (pdata s ps) + 14 < 65536" "set ps \<inter> owned Q = {}"
    using p by (simp_all add: incoming_def)
  obtain ps' where ps: "ps = p # ps'" using P(1) by (auto simp: packet_def chain_Some)
  have l: "live_pbuf szof s p" "has_buffer s p" using P(2) ps by (auto simp: buffers_def)
  let ?r = "take (pb_len (pb s p) - 28) r"
  have "take (pb_len (pb s p)) (pdata s ps) = seg s p" "drop (pb_len (pb s p)) (pdata s ps) = pdata s ps'" by (simp_all add: ps)
  moreover have "length (arp_bytes opcode sha sip tha tip) = 28" using d(2,3) by (simp add: arp_bytes_def)
  ultimately have sg: "seg s p = arp_bytes opcode sha sip tha tip @ ?r" "drop (pb_len (pb s p) - 28) r = pdata s ps'" using d(1) P(3) by auto
  obtain t where t: "answer lo n p (pb_payload (pb s p)) s = ethernet_output lo n p (netif_hwaddr (netifs s n)) sha ETHTYPE_ARP t \<bind> (\<lambda>(_, s). Some s)"
    "stored szof p s t (arp_reply_bytes (netifs s n) sha sip @ ?r)" using reply_stored [OF arp_okD(1) [OF ok] l nif sg(1) d(2,3), of lo] by blast
  have k: "keeps szof {p} s t" "arps.more t = arps.more s" using t(2) by (simp_all add: stored_def)
  have np: "p \<notin> owned Q" using P(5) ps by auto
  have ok': "arp_ok szof Q t" by (rule arp_ok_keeps [OF ok k(1)]) (use np in simp)
  note T = stored_packet [OF t(2) P(1,2) [unfolded ps], folded ps]
  have pd: "pdata t ps = arp_reply_bytes (netifs s n) sha sip @ r" using T(3) sg(2) append_take_drop_id [of "pb_len (pb s p) - 28" r] by simp
  then have len: "length (pdata t ps) + 14 < 65536" using P(4) d nif by (simp add: arp_reply_bytes_def arp_bytes_def)
  have hw: "length (netif_hwaddr (netifs t n)) = 6" using nif keepsD(5) [OF k(1)] by simp
  have room: "header_room t p = header_room s p" using T(4) by (simp add: header_room_def)
  obtain e u where u: "ethernet_output lo n p (netif_hwaddr (netifs s n)) sha ETHTYPE_ARP t = Some (e, u)" "arp_ok szof Q u" "keeps szof {p} t u"
    "chain (pb_link u) (Some p) ps" "\<forall>x\<in>set ps. live_pbuf szof u x \<and> pb_ref (pb u x) = pb_ref (pb t x)"
    "if SIZEOF_ETH_HDR \<le> header_room s p then transmits lo n (eth_frame sha (netif_hwaddr (netifs s n)) ETHTYPE_ARP (pdata t ps)) (arps.more t) (arps.more u)
     else e = ERR_BUF \<and> arps.more u = arps.more t"
    using send_chain [OF ok' T(1,2) len np hw nif d(2), of lo ETHTYPE_ARP] unfolding room by blast
  have "answer lo n p (pb_payload (pb s p)) s = Some u" using t(1) u(1) by simp
  then show ?thesis using u keeps_trans [OF k(1) u(3)] T(4) pd k(2) by auto
qed

definition for_us :: "netif \<Rightarrow> ip4_addr \<Rightarrow> bool" where
  "for_us nif ip \<longleftrightarrow> \<not> ip4_addr_isany (netif_ip nif) \<and> ip = netif_ip nif"

lemma input_eq:
  "etharp_input cf lo p (Some n) s =
     (let hdr = pb_payload (pb s p) in
      if load16 s hdr \<noteq> lwip_htons HWTYPE_ETHERNET \<or> load s (padd hdr 4) \<noteq> of_nat ETH_HWADDR_LEN \<or>
         load s (padd hdr 5) \<noteq> 4 \<or> load16 s (padd hdr 2) \<noteq> lwip_htons ETHTYPE_IP then do {
        let s = STATS_INC stat_drop (STATS_INC stat_proterr s);
        (_, s) \<leftarrow> pbuf_free cf (Some p) s;
        Some s }
      else do {
        let s = STATS_INC stat_recv s;
        let sipaddr = load32 s (padd hdr 14); let dipaddr = load32 s (padd hdr 24);
        let for_us = (if ip4_addr_isany (netif_ip (netifs s n)) then False else dipaddr = netif_ip (netifs s n));
        (_, s) \<leftarrow> etharp_update_arp_entry cf lo n sipaddr (load_bytes s (padd hdr 8) ETH_HWADDR_LEN)
          (if for_us then ETHARP_FLAG_TRY_HARD else ETHARP_FLAG_FIND_ONLY) s;
        s \<leftarrow> (if load16 s (padd hdr 6) = lwip_htons ARP_REQUEST then if for_us then answer lo n p hdr s else Some s
                else if load16 s (padd hdr 6) = lwip_htons ARP_REPLY then Some s
                else Some (STATS_INC stat_err s));
        (_, s) \<leftarrow> pbuf_free cf (Some p) s;
        Some s })"
  unfolding etharp_input_def answer_def option.case ..

lemma input_reads:
  assumes len: "28 \<le> pb_len (pb s p)"
  shows "\<not> arp_header (seg s p) \<Longrightarrow> etharp_input cf lo p (Some n) s = pbuf_free cf (Some p) (STATS_INC stat_drop (STATS_INC stat_proterr s)) \<bind> (\<lambda>(_, s). Some s)"
    and "seg s p = arp_bytes opcode sha sip tha tip @ r \<Longrightarrow> length sha = 6 \<Longrightarrow> length tha = 6 \<Longrightarrow> etharp_input cf lo p (Some n) s = do {
      (_, t) \<leftarrow> etharp_update_arp_entry cf lo n sip sha (if for_us (netifs s n) tip then ETHARP_FLAG_TRY_HARD else ETHARP_FLAG_FIND_ONLY) (STATS_INC stat_recv s);
      u \<leftarrow> (if load16 t (padd (pb_payload (pb s p)) 6) = lwip_htons ARP_REQUEST then if for_us (netifs s n) tip then answer lo n p (pb_payload (pb s p)) t else Some t
        else if load16 t (padd (pb_payload (pb s p)) 6) = lwip_htons ARP_REPLY then Some t else Some (STATS_INC stat_err t));
      (_, u) \<leftarrow> pbuf_free cf (Some p) u;
      Some u }"
proof -
  let ?h = "pb_payload (pb s p)"
  have p0: "padd ?h 0 = ?h" by (simp add: padd_def)
  have f: "load16 s ?h = word16_at (seg s p) 0" "load s (padd ?h 4) = seg s p ! 4" "load s (padd ?h 5) = seg s p ! 5" "load16 s (padd ?h 2) = word16_at (seg s p) 2"
    using load16_seg [of 0 s p] load16_seg [of 2 s p] load_seg [of 4 s p] load_seg [of 5 s p] len p0 by simp_all
  show "\<not> arp_header (seg s p) \<Longrightarrow> etharp_input cf lo p (Some n) s = pbuf_free cf (Some p) (STATS_INC stat_drop (STATS_INC stat_proterr s)) \<bind> (\<lambda>(_, s). Some s)"
    unfolding input_eq Let_def f arp_header_def by simp
  assume d: "seg s p = arp_bytes opcode sha sip tha tip @ r" "length sha = 6" "length tha = 6"
  note A = arp_fields [OF d]
  have g: "load32 (STATS_INC stat_recv s) (padd ?h 14) = sip" "load32 (STATS_INC stat_recv s) (padd ?h 24) = tip" "load_bytes (STATS_INC stat_recv s) (padd ?h 8) 6 = sha"
    using load32_seg [of 14 s p] load32_seg [of 24 s p] seg_part [of 8 6 s p] len A(3,4,6) by (simp_all add: load32_def load_bytes_def)
  have c: "\<not> (load16 s ?h \<noteq> lwip_htons HWTYPE_ETHERNET \<or> load s (padd ?h 4) \<noteq> of_nat ETH_HWADDR_LEN \<or> load s (padd ?h 5) \<noteq> 4 \<or> load16 s (padd ?h 2) \<noteq> lwip_htons ETHTYPE_IP)"
    using A(1) unfolding arp_header_def f by blast
  have u: "(if ip4_addr_isany (netif_ip (netifs (STATS_INC stat_recv s) n)) then False else tip = netif_ip (netifs (STATS_INC stat_recv s) n)) = for_us (netifs s n) tip"
    by (simp add: for_us_def)
  show "etharp_input cf lo p (Some n) s = do {
      (_, t) \<leftarrow> etharp_update_arp_entry cf lo n sip sha (if for_us (netifs s n) tip then ETHARP_FLAG_TRY_HARD else ETHARP_FLAG_FIND_ONLY) (STATS_INC stat_recv s);
      u \<leftarrow> (if load16 t (padd (pb_payload (pb s p)) 6) = lwip_htons ARP_REQUEST then if for_us (netifs s n) tip then answer lo n p (pb_payload (pb s p)) t else Some t
        else if load16 t (padd (pb_payload (pb s p)) 6) = lwip_htons ARP_REPLY then Some t else Some (STATS_INC stat_err t));
      (_, u) \<leftarrow> pbuf_free cf (Some p) u;
      Some u }"
    unfolding input_eq Let_def [of ?h] if_not_P [OF c] unfolding Let_def [of "STATS_INC stat_recv s"] eth_sizes g unfolding Let_def u by simp
qed

section \<open>The whole function\<close>

lemma update_ok:
  assumes ok: "arp_ok szof Q s" and nif: "length (netif_hwaddr (netifs s n)) = 6" "length ethaddr = 6"
  shows "\<exists>e t Q'. etharp_update_arp_entry cf lo n ip ethaddr flags s = Some (e, t) \<and> arp_ok szof Q' t \<and> hands szof {} Q s Q' t \<and> owned Q' \<subseteq> owned Q"
  using ok nif
proof (cases rule: update_cases [where ip = ip and cf = cf and lo = lo and flags = flags])
  case (learned i s')
  then show ?thesis using hands_clears [where Q = Q, OF learned(6,2)] owned_clear [of Q i] by blast
qed (use ok hands_leaves [OF leaves_refl [OF arp_okD(1) [OF ok]]] in blast)+

lemma free_arp:
  assumes ok: "arp_ok szof Q s" and c: "chain (pb_link s) (Some p) ps" "\<forall>x\<in>set ps. live_pbuf szof s x \<and> 0 < pb_ref (pb s x)" and o: "set ps \<inter> owned Q = {}"
  shows "\<exists>c t. pbuf_free cf (Some p) s = Some (c, t) \<and> arp_ok szof Q t \<and> keeps szof (set ps) s t \<and> (\<forall>x\<in>set (dead s ps). block szof t x = None) \<and> arps.more t = arps.more s"
  using free_keeps [OF arp_okD(1) [OF ok] c(1), of cf] c(2) arp_ok_keeps [OF ok _ o] by blast

lemma dead_cong: "(\<And>x. x \<in> set ps \<Longrightarrow> pb_ref (pb t x) = pb_ref (pb s x)) \<Longrightarrow> dead t ps = dead s ps"
  unfolding dead_def by (rule takeWhile_cong) simp_all

lemma htons_inject: "lwip_htons a = lwip_htons b \<longleftrightarrow> a = b"
  by (metis htons_htons)

lemma input_accepts:
  assumes ok: "arp_ok szof Q s" and p: "incoming szof Q s p ps" and nif: "length (netif_hwaddr (netifs s n)) = 6"
    and d: "pdata s ps = arp_bytes opcode sha sip tha tip @ r" "length sha = 6" "length tha = 6"
  shows "\<exists>e t Q' s'. etharp_update_arp_entry cf lo n sip sha (if for_us (netifs s n) tip then ETHARP_FLAG_TRY_HARD else ETHARP_FLAG_FIND_ONLY) (STATS_INC stat_recv s) = Some (e, t) \<and>
    etharp_input cf lo p (Some n) s = Some s' \<and> arp_ok szof Q' s' \<and> hands szof {} Q s Q' t \<and> keeps szof (set ps) t s' \<and> (\<forall>x\<in>set (dead s ps). block szof s' x = None) \<and>
    (if opcode = ARP_REQUEST \<and> for_us (netifs s n) tip \<and> SIZEOF_ETH_HDR \<le> header_room s p
     then transmits lo n (eth_frame sha (netif_hwaddr (netifs s n)) ETHTYPE_ARP (arp_reply_bytes (netifs s n) sha sip @ r)) (arps.more t) (arps.more s')
     else arps.more s' = arps.more t)"
proof -
  let ?f = "if for_us (netifs s n) tip then ETHARP_FLAG_TRY_HARD else ETHARP_FLAG_FIND_ONLY" and ?h = "pb_payload (pb s p)"
  have P: "packet s (Some p) ps" "28 \<le> pb_len (pb s p)" "set ps \<inter> owned Q = {}" using p by (simp_all add: incoming_def)
  obtain e t Q' where t: "etharp_update_arp_entry cf lo n sip sha ?f (STATS_INC stat_recv s) = Some (e, t)" "arp_ok szof Q' t" "hands szof {} Q s Q' t" "owned Q' \<subseteq> owned Q"
    using update_ok [of szof Q "STATS_INC stat_recv s" n sha cf lo sip ?f] ok nif d(2) by (auto simp: hands_def)
  have l: "leaves szof (owned Q) s t" using handsD(1) [OF t(3)] t(4) by (auto elim: leaves_mono)
  have o: "set ps \<inter> owned Q' = {}" using P(3) t(4) by blast
  note I = leaves_incoming [OF l p P(3) o]
  have nt: "netifs t = netifs s" by (rule leavesD(2) [OF l])
  have rf: "pb_ref (pb t x) = pb_ref (pb s x)" if "x \<in> set ps" for x
    using leaves_packet(4) [OF l P(1) _ P(3) that] p by (simp add: incoming_def)
  have "take (pb_len (pb s p)) (pdata s ps) = seg s p" using P(1) by (auto simp: packet_def chain_Some)
  then have sg: "seg s p = arp_bytes opcode sha sip tha tip @ take (pb_len (pb s p) - 28) r" using d P(2) by auto
  have op: "load16 t (padd ?h 6) = lwip_htons opcode" using load16_seg [of 6 t p] I(3,4) P(2) arp_fields(2) [OF sg d(2,3)] by simp
  define mid where "mid = (if opcode = ARP_REQUEST then if for_us (netifs s n) tip then answer lo n p ?h t else Some t else if opcode = ARP_REPLY then Some t else Some (STATS_INC stat_err t))"
  have eq: "etharp_input cf lo p (Some n) s = mid \<bind> (\<lambda>u. pbuf_free cf (Some p) u \<bind> (\<lambda>(_, u). Some u))"
    using input_reads(2) [OF P(2) sg d(2,3), of cf lo n] t(1) by (simp add: op htons_inject mid_def)
  have room: "header_room t p = header_room s p" using I(4) by (simp add: header_room_def)
  let ?tr = "\<lambda>u. if opcode = ARP_REQUEST \<and> for_us (netifs s n) tip \<and> SIZEOF_ETH_HDR \<le> header_room s p
     then transmits lo n (eth_frame sha (netif_hwaddr (netifs s n)) ETHTYPE_ARP (arp_reply_bytes (netifs s n) sha sip @ r)) (arps.more t) (arps.more u)
     else arps.more u = arps.more t"
  have "\<exists>u. mid = Some u \<and> arp_ok szof Q' u \<and> keeps szof (set ps) t u \<and> chain (pb_link u) (Some p) ps \<and> (\<forall>x\<in>set ps. live_pbuf szof u x \<and> pb_ref (pb u x) = pb_ref (pb t x)) \<and> ?tr u"
  proof (cases "opcode = ARP_REQUEST \<and> for_us (netifs s n) tip")
    case True
    have hw: "length (netif_hwaddr (netifs t n)) = 6" using nif nt by simp
    have "p \<in> set ps" using P(1) by (auto simp: packet_def chain_Some)
    then show ?thesis using answer_ok [OF t(2) I(1) hw I(2) [unfolded d(1)] d(2,3), of lo] True
      unfolding I(4) nt room mid_def using keeps_mono [of szof "{p}" t _ "set ps"] by fastforce
  next
    case False
    have q: "chain (pb_link t) (Some p) ps" "\<forall>x\<in>set ps. live_pbuf szof t x" using I(1) by (simp_all add: incoming_def packet_def buffers_def)
    have "mid = Some t \<or> mid = Some (STATS_INC stat_err t)" using False by (simp add: mid_def)
    moreover have "pb_link (STATS_INC stat_err t) = pb_link t" by (simp add: pb_link_def fun_eq_iff)
    ultimately show ?thesis using False q t(2) keeps_refl [OF arp_okD(1) [OF t(2)], of "set ps"] by auto
  qed
  then obtain u where u: "mid = Some u" "arp_ok szof Q' u" "keeps szof (set ps) t u" "chain (pb_link u) (Some p) ps" "\<forall>x\<in>set ps. live_pbuf szof u x \<and> pb_ref (pb u x) = pb_ref (pb t x)" "?tr u" by blast
  have ru: "\<forall>x\<in>set ps. live_pbuf szof u x \<and> 0 < pb_ref (pb u x)" using u(5) I(1) by (simp add: incoming_def)
  have du: "dead u ps = dead s ps" using u(5) rf by (intro dead_cong) simp
  obtain c s' where s': "pbuf_free cf (Some p) u = Some (c, s')" "arp_ok szof Q' s'" "keeps szof (set ps) u s'" "arps.more s' = arps.more u" "\<forall>x\<in>set (dead s ps). block szof s' x = None"
    using free_arp [OF u(2,4) ru o, of cf] unfolding du by blast
  then show ?thesis using t(1,3) eq u(1,6) keeps_trans [OF u(3) s'(3)] by (intro exI [of _ e] exI [of _ t] exI [of _ Q'] exI [of _ s']) simp
qed

lemma input_ok:
  assumes ok: "arp_ok szof Q s" and p: "incoming szof Q s p ps" and nif: "length (netif_hwaddr (netifs s n)) = 6"
  shows "\<exists>s' Q'. etharp_input cf lo p (Some n) s = Some s' \<and> arp_ok szof Q' s' \<and> hands szof (set ps) Q s Q' s' \<and> (\<forall>x\<in>set (dead s ps). block szof s' x = None)"
proof -
  have P: "packet s (Some p) ps" "28 \<le> pb_len (pb s p)" "set ps \<inter> owned Q = {}" "buffers szof s ps" "\<forall>x\<in>set ps. 0 < pb_ref (pb s x)" using p by (simp_all add: incoming_def)
  show ?thesis
  proof (cases "arp_header (seg s p)")
    case False
    let ?s = "STATS_INC stat_drop (STATS_INC stat_proterr s)"
    have "pb_link ?s = pb_link s" by (simp add: pb_link_def fun_eq_iff)
    then have c: "chain (pb_link ?s) (Some p) ps" "\<forall>x\<in>set ps. live_pbuf szof ?s x \<and> 0 < pb_ref (pb ?s x)" using P(1,4,5) by (simp_all add: packet_def buffers_def)
    have ds: "dead ?s ps = dead s ps" by (rule dead_cong) simp
    obtain c t where t: "pbuf_free cf (Some p) ?s = Some (c, t)" "arp_ok szof Q t" "keeps szof (set ps) ?s t" "\<forall>x\<in>set (dead s ps). block szof t x = None"
      using free_arp [OF _ c P(3), of cf] ok unfolding ds by auto
    have "leaves szof (set ps) s t" using keeps_leaves [OF t(3)] by simp
    then show ?thesis using input_reads(1) [OF P(2) False, of cf lo n] t(1,2,4) hands_leaves [of szof "set ps" s t Q] by auto
  next
    case True
    obtain opcode sha sip tha tip r where d: "seg s p = arp_bytes opcode sha sip tha tip @ r" "length sha = 6" "length tha = 6"
      by (rule arp_decode [of "seg s p"]) (use P(2) True in simp_all)
    have "\<exists>r'. pdata s ps = arp_bytes opcode sha sip tha tip @ r'" using P(1) d(1) by (auto simp: packet_def chain_Some)
    then obtain r' where r': "pdata s ps = arp_bytes opcode sha sip tha tip @ r'" by blast
    obtain t Q' s' where t: "etharp_input cf lo p (Some n) s = Some s'" "arp_ok szof Q' s'" "hands szof {} Q s Q' t" "keeps szof (set ps) t s'" "\<forall>x\<in>set (dead s ps). block szof s' x = None"
      using input_accepts [OF ok p nif r' d(2,3), of cf lo] by blast
    have "hands szof (set ps) Q s Q' s'" by (rule hands_trans [OF hands_mono [OF t(3)] hands_leaves [OF keeps_leaves [OF t(4)]]]) simp
    then show ?thesis using t(1,2,5) by blast
  qed
qed

end
