(* ===== verification/Spec2Isabelle.thy ===== *)
theory Spec2Isabelle
  imports Ip4_Addr Snmp_Codec Etharp_Input
begin

text \<open>
  The lwIP TCP/IP stack of \<open>src/lwip\<close> with the win32 port of \<open>src/contrib/ports/win32\<close>: a model of its memory management, its timers, its
  message passing, its packet buffers, the checksum and address helpers, and the coder of the SNMP agent, with the theorems about
  them.

  \<^bold>\<open>Configuration.\<close>  The definitions follow the preprocessor choices of \<open>src/contrib/ports/win32/include/lwipopts.h\<close> over the defaults of
  \<open>lwip/opt.h\<close>: IPv4 only, an operating system with threads (\<open>NO_SYS\<close> 0), \<open>MEM_ALIGNMENT\<close> 4, a heap of 10240 bytes, 160 pool buffers of 128 bytes,
  no IPv6, PPP or DHCP.  The host is little-endian with 32-bit pointers.

  \<^bold>\<open>Conventions.\<close>  A C function is a HOL function on an explicit state, with a result in \<open>option\<close> where it can fail to return: None stands for a failed
  \<open>LWIP_ASSERT\<close> (which calls \<open>abort\<close>), a dereferenced NULL, or a loop that does not end.  Error codes and NULL results are ordinary values.  Loops whose end depends on
  the contents of memory are \<open>partial_function (option)\<close>, and the theorems show that they return; no fuel is used.  Unsigned integers are
  \<open>nat\<close> with the conversions \<open>u8\<close>, \<open>u16\<close>, \<open>u32\<close> and the wrapping subtractions \<open>sub16\<close>, \<open>sub32\<close> of \<open>Prelude\<close> written where the C code converts, and
  machine words where bits matter.  Memory is a map from addresses to bytes, so that a write out of bounds in the code is a write out of bounds in the model.

  \<^bold>\<open>Parts, in the order in which they use each other.\<close>

  \<^item> \<open>Prelude\<close>: the conversions, byte memory, linked lists, and the locales \<open>stepper\<close> (lawful runs of operations keep an invariant and return) and
    \<open>allocator\<close> (an operation leaves the blocks of others alone).
  \<^item> \<open>Mem\<close>: the heap of \<open>core/mem.c\<close>, the list of \<open>struct mem\<close> headers inside the byte array with \<open>plug_holes\<close>, \<open>mem_malloc\<close>, \<open>mem_free\<close>, \<open>mem_trim\<close>,
    \<open>mem_calloc\<close>.  The heap interprets \<open>allocator\<close>; first fit, exact release, and the wrap-around of large requests.
  \<^item> \<open>Memp\<close>: the pools of \<open>core/memp.c\<close>; the free lists, the counters, exact exhaustion.  The locale \<open>element_pool\<close> is the contract
    that \<open>Timeouts\<close> and \<open>Tcpip\<close> rely on.
  \<^item> \<open>Timeouts\<close>: the relative timer list of \<open>core/timeouts.c\<close>, whose elements live in a pool; when a timer fires, what \<open>sys_untimeout\<close> removes, and that
    \<open>sys_check_timeouts\<close> returns.  Time is a \<open>u32_t\<close> that wraps; handlers are parameters.
  \<^item> \<open>Def\<close>, \<open>Ip4_Addr\<close>, \<open>Inet_Chksum\<close>: \<open>core/def.c\<close>, \<open>core/ipv4/ip4_addr.c\<close>, \<open>core/inet_chksum.c\<close>; round trips of printing and parsing, netmasks,
    the equivalence of the three checksum loops, chains of buffers, and error detection.
  \<^item> \<open>Sys_Arch\<close>: mailboxes and semaphores of \<open>ports/win32/sys_arch.c\<close>.  The Windows calls are a record of functions with their documented behaviour as
    hypotheses.  Threads are an inductive step relation whose steps are the accesses to the ring between the calls; the queue is first in, first out under every interleaving.
  \<^item> \<open>Tcpip\<close>: posting packets, callbacks and timers to the tcpip thread and serving them, \<open>api/tcpip.c\<close>, on \<open>Memp\<close>, \<open>Timeouts\<close> and \<open>Sys_Arch\<close>.
  \<^item> \<open>Pbuf\<close>: the whole of \<open>core/pbuf.c\<close> on the heap and the pools; \<open>Pbuf_Data\<close> gives the bytes a chain stands for and the lemmas on reading and writing it,
    \<open>Pbuf_Alloc\<close> treats allocation, reference counts and release, \<open>Pbuf_Ops\<close> chaining, copying and headers.
  \<^item> \<open>Snmp_Asn1\<close>: \<open>apps/snmp/snmp_asn1.c\<close> and \<open>snmp_pbuf_stream.c\<close> on \<open>Pbuf\<close>.  \<open>Snmp_Codec\<close> interprets the locale \<open>byte_source\<close> with the stream and shows that
    the coders are inverse and that the decoders are safe on arbitrary input.

  \<^bold>\<open>State.\<close>  The global variables of the C files are records that extend each other: the timers, the message thread (\<open>'h tcpip\<close>) and the packet buffers
  (\<open>'h pbufs\<close>), where \<open>'h\<close> is the type of Windows handles.  The operations on a smaller state work on every extension.

  \<^bold>\<open>Not modelled.\<close>  The protocols above the packet buffers (ARP, IP, ICMP, IGMP, UDP, TCP, DNS), the interface list and the APIs on top of them, and the
  applications other than the SNMP coder: they need state of each other.  Of \<open>pbuf.c\<close>, \<open>pbuf_free_ooseq\<close> works on TCP control blocks.
  Parts that this configuration switches off (IPv6, PPP, DHCP, AutoIP), drivers, which are calls of WinPcap, and the
  separate client libraries, samples and generated files of the repository are left out.
\<close>

end
